(* ===== verification/Prelude.thy ===== *)
theory Prelude
  imports Main "HOL-Library.Word" "HOL-Library.Multiset"
begin

text \<open>
  Shared vocabulary of the development: the run-time errors a C++ operation can end in, the
  unsigned 64-bit arithmetic of \<open>size_t\<close> written out on \<open>nat\<close>, checked accesses to contiguous
  storage, a result type with its sequencing operator, and reachability of a step relation.
\<close>

section \<open>Errors and results\<close>

text \<open>
  Every way an operation of the program can fail to return normally: a thrown exception, an
  access outside its object, the use of a null or an empty pointer, the abort that a fatal log
  line performs, or the signal that ends it.
\<close>

datatype cpp_error =
    Length_error        \<comment> \<open>\<^verbatim>\<open>std::length_error\<close>: a container beyond its maximal size\<close>
  | Out_of_bounds       \<comment> \<open>a read or write outside an array or a vector\<close>
  | Null_deref          \<comment> \<open>a null raw or smart pointer dereferenced\<close>
  | Runtime_error       \<comment> \<open>\<^verbatim>\<open>std::runtime_error\<close>\<close>
  | Int_overflow        \<comment> \<open>a signed addition beyond the range of its type\<close>
  | Use_after_free      \<comment> \<open>an object read through a pointer after its lifetime\<close>
  | Div_by_zero         \<comment> \<open>a division or a remainder by zero\<close>
  | Fatal_abort         \<comment> \<open>\<^verbatim>\<open>LOG_FATAL\<close> ends the process\<close>
  | Sigpipe             \<comment> \<open>\<^verbatim>\<open>SIGPIPE\<close>, which the program does not ignore, ends the process\<close>

type_synonym 'a result = "cpp_error + 'a"

definition bind_result :: "'a result \<Rightarrow> ('a \<Rightarrow> 'b result) \<Rightarrow> 'b result" where
  "bind_result r f = (case r of Inl e \<Rightarrow> Inl e | Inr x \<Rightarrow> f x)"

lemma bind_result_simps [simp]:
  "bind_result (Inl e) f = Inl e"
  "bind_result (Inr x) f = f x"
  by (simp_all add: bind_result_def)

lemma bind_result_Inr_iff:
  "bind_result r f = Inr y \<longleftrightarrow> (\<exists>x. r = Inr x \<and> f x = Inr y)"
  by (cases r) auto

lemma bind_result_InrE [elim!]:
  assumes "bind_result r f = Inr y"
  obtains x where "r = Inr x" and "f x = Inr y"
  using assms by (auto simp: bind_result_Inr_iff)

section \<open>Arithmetic of size\_t\<close>

text \<open>
  \<open>size_t\<close> values are naturals below \<open>2 ^ 64\<close>; addition and subtraction wrap around. The collection
  \<open>sz_simps\<close> removes the wrap-around where the operands allow it.
\<close>

named_theorems sz_simps

definition addsz :: "nat \<Rightarrow> nat \<Rightarrow> nat" where
  "addsz a b = (a + b) mod 2 ^ 64"

definition subsz :: "nat \<Rightarrow> nat \<Rightarrow> nat" where
  "subsz a b = (a + (2 ^ 64 - b)) mod 2 ^ 64"

lemma addsz_nowrap [sz_simps]: "a + b < 2 ^ 64 \<Longrightarrow> addsz a b = a + b"
  by (simp add: addsz_def)

lemma subsz_nowrap [sz_simps]: "b \<le> a \<Longrightarrow> a < 2 ^ 64 \<Longrightarrow> subsz a b = a - b"
proof -
  assume "b \<le> a" "a < 2 ^ 64"
  then have "a + (2 ^ 64 - b) = (a - b) + 2 ^ 64" and "a - b < 2 ^ 64" by simp_all
  then show ?thesis unfolding subsz_def by (simp only: mod_add_self2 mod_less)
qed

section \<open>Contiguous storage\<close>

text \<open>
  The largest size of a \<^verbatim>\<open>std::vector<char>\<close> is \<open>PTRDIFF_MAX\<close>. Resizing fills new elements with
  zero bytes and throws beyond that size; copying into the storage is an error outside it.
\<close>

definition vec_max_size :: nat where
  "vec_max_size = 2 ^ 63 - 1"

definition vec_resize :: "char list \<Rightarrow> nat \<Rightarrow> char list result" where
  "vec_resize v n =
     (if n > vec_max_size then Inl Length_error
      else Inr (take n v @ replicate (n - length v) (char_of (0::nat))))"

definition copy_to :: "'a list \<Rightarrow> nat \<Rightarrow> 'a list \<Rightarrow> 'a list result" where
  "copy_to v i xs =
     (if i + length xs \<le> length v then Inr (take i v @ xs @ drop (i + length xs) v)
      else Inl Out_of_bounds)"

definition read_range :: "'a list \<Rightarrow> nat \<Rightarrow> nat \<Rightarrow> 'a list result" where
  "read_range v i n =
     (if i + n \<le> length v then Inr (take n (drop i v)) else Inl Out_of_bounds)"

lemma vec_resize_ok: "n \<le> vec_max_size \<Longrightarrow> length v \<le> n \<Longrightarrow>
    vec_resize v n = Inr (v @ replicate (n - length v) (char_of (0::nat)))"
  by (simp add: vec_resize_def)

lemma copy_to_ok [simp]:
  "i + length xs \<le> length v \<Longrightarrow> copy_to v i xs = Inr (take i v @ xs @ drop (i + length xs) v)"
  by (simp add: copy_to_def)

lemma read_range_ok [simp]:
  "i + n \<le> length v \<Longrightarrow> read_range v i n = Inr (take n (drop i v))"
  by (simp add: read_range_def)

lemma copy_to_length: "copy_to v i xs = Inr v' \<Longrightarrow> length v' = length v"
  by (auto simp: copy_to_def split: if_splits)

section \<open>Integer division and decimal notation\<close>

text \<open>Division and remainder of C++ integers round towards zero.\<close>

definition c_div :: "int \<Rightarrow> int \<Rightarrow> int" where
  "c_div a b = sgn a * sgn b * (\<bar>a\<bar> div \<bar>b\<bar>)"

definition c_mod :: "int \<Rightarrow> int \<Rightarrow> int" where
  "c_mod a b = a - b * c_div a b"

lemma c_div_10: "c_div a 10 = sgn a * (\<bar>a\<bar> div 10)"
  by (simp add: c_div_def)

lemma c_mod_10: "c_mod a 10 = sgn a * (\<bar>a\<bar> mod 10)"
proof (cases "0 \<le> a")
  case True
  then show ?thesis by (cases "a = 0") (simp_all add: c_mod_def c_div_10 minus_mult_div_eq_mod)
next
  case False
  then have "- a mod 10 = - a - 10 * (- a div 10)" by (simp add: minus_mult_div_eq_mod)
  with False show ?thesis by (simp add: c_mod_def c_div_10)
qed

lemma c_div_nonneg: "0 \<le> a \<Longrightarrow> 0 < b \<Longrightarrow> c_div a b = a div b"
  by (cases "a = 0") (simp_all add: c_div_def)

lemma c_mod_nonneg: "0 \<le> a \<Longrightarrow> 0 < b \<Longrightarrow> c_mod a b = a mod b"
  by (simp add: c_mod_def c_div_nonneg minus_mult_div_eq_mod)

text \<open>
  The decimal notation that \<^verbatim>\<open>std::to_string\<close> and \<^verbatim>\<open>%d\<close> produce, and its inverse.
\<close>

definition digit_char :: "nat \<Rightarrow> char" where
  "digit_char d = char_of (48 + d)"

fun dec_nat :: "nat \<Rightarrow> string" where
  "dec_nat n = (if n < 10 then [digit_char n] else dec_nat (n div 10) @ [digit_char (n mod 10)])"

declare dec_nat.simps [simp del]

definition dec_int :: "int \<Rightarrow> string" where
  "dec_int i = (if i < 0 then CHR ''-'' # dec_nat (nat (- i)) else dec_nat (nat i))"

definition parse_nat :: "string \<Rightarrow> nat" where
  "parse_nat s = foldl (\<lambda>a c. 10 * a + (of_char c - 48)) 0 s"

definition parse_int :: "string \<Rightarrow> int" where
  "parse_int s = (case s of [] \<Rightarrow> 0 | c # cs \<Rightarrow> if c = CHR ''-'' then - int (parse_nat cs) else int (parse_nat s))"

lemma of_char_digit [simp]: "d < 10 \<Longrightarrow> (of_char (digit_char d) :: nat) = 48 + d"
  by (simp add: digit_char_def)

lemma parse_dec_nat: "parse_nat (dec_nat n) = n"
proof (induction n rule: dec_nat.induct)
  case (1 n)
  show ?case
  proof (cases "n < 10")
    case False
    with 1 have "parse_nat (dec_nat (n div 10)) = n div 10" by simp
    with False show ?thesis
      by (subst dec_nat.simps) (simp add: parse_nat_def)
  qed (subst dec_nat.simps, simp add: parse_nat_def)
qed

lemma dec_nat_first: "\<exists>d cs. d < 10 \<and> dec_nat n = digit_char d # cs"
proof (induction n rule: dec_nat.induct)
  case (1 n)
  show ?case
  proof (cases "n < 10")
    case False
    with 1 obtain d cs where "d < 10" "dec_nat (n div 10) = digit_char d # cs" by blast
    with False show ?thesis by (subst dec_nat.simps) auto
  qed (subst dec_nat.simps, auto)
qed

lemma digit_char_not_minus: "d < 10 \<Longrightarrow> digit_char d \<noteq> CHR ''-''"
proof
  assume "d < 10" "digit_char d = CHR ''-''"
  then have "(of_char (digit_char d) :: nat) = of_char (CHR ''-'')" by simp
  with \<open>d < 10\<close> show False by simp
qed

lemma parse_dec_int: "parse_int (dec_int i) = i"
proof (cases "i < 0")
  case False
  obtain d cs where "d < 10" "dec_nat (nat i) = digit_char d # cs" using dec_nat_first by blast
  with False digit_char_not_minus parse_dec_nat [of "nat i"] show ?thesis
    by (simp add: parse_int_def dec_int_def)
qed (simp add: parse_int_def dec_int_def parse_dec_nat)

lemma dec_nat_length: "n < 10 ^ k \<Longrightarrow> 0 < k \<Longrightarrow> length (dec_nat n) \<le> k"
proof (induction k arbitrary: n)
  case (Suc k)
  show ?case
  proof (cases "n < 10")
    case False
    with Suc.prems have "n div 10 < 10 ^ k" "0 < k" by (auto intro: gr0I)
    with Suc.IH have "length (dec_nat (n div 10)) \<le> k" by blast
    with False show ?thesis by (subst dec_nat.simps) simp
  qed (subst dec_nat.simps, simp)
qed simp

lemma dec_nat_length_pos: "0 < length (dec_nat n)"
  by (subst dec_nat.simps) simp

section \<open>Sorted lists\<close>

lemma sorted_takeWhile_less:
  fixes s :: "'a::linorder"
  assumes "sorted xs"
  shows "takeWhile (\<lambda>e. e < s) xs = filter (\<lambda>e. e < s) xs"
    and "dropWhile (\<lambda>e. e < s) xs = filter (\<lambda>e. \<not> e < s) xs"
proof -
  have "takeWhile (\<lambda>e. e < s) xs = filter (\<lambda>e. e < s) xs \<and> dropWhile (\<lambda>e. e < s) xs = filter (\<lambda>e. \<not> e < s) xs"
    using assms
  proof (induction xs)
    case (Cons x xs)
    show ?case
    proof (cases "x < s")
      case False
      with Cons.prems have "\<forall>y\<in>set xs. \<not> y < s" by auto
      with False show ?thesis by (simp add: filter_empty_conv filter_id_conv)
    qed (use Cons in simp)
  qed simp
  then show "takeWhile (\<lambda>e. e < s) xs = filter (\<lambda>e. e < s) xs"
    and "dropWhile (\<lambda>e. e < s) xs = filter (\<lambda>e. \<not> e < s) xs" by simp_all
qed

section \<open>Reachability\<close>

text \<open>
  The states a step relation reaches from its initial states; an invariant is proved once per
  relation by \<open>reach_invariant\<close>.
\<close>

inductive reach :: "('s \<Rightarrow> bool) \<Rightarrow> ('s \<Rightarrow> 's \<Rightarrow> bool) \<Rightarrow> 's \<Rightarrow> bool"
  for init :: "'s \<Rightarrow> bool" and step :: "'s \<Rightarrow> 's \<Rightarrow> bool" where
  reach_init: "init s \<Longrightarrow> reach init step s"
| reach_step: "reach init step s \<Longrightarrow> step s t \<Longrightarrow> reach init step t"

lemma reach_invariant:
  assumes "reach init step s"
    and "\<And>s. init s \<Longrightarrow> I s"
    and "\<And>s t. I s \<Longrightarrow> step s t \<Longrightarrow> I t"
  shows "I s"
  using assms by (induction rule: reach.induct) blast+

end
