(* ===== verification/LogStream.thy ===== *)
theory LogStream
  imports Prelude
begin

text \<open>
  The front end of logging: \<^verbatim>\<open>include/FixedBuffer.h\<close>, \<^verbatim>\<open>include/LogStream.h\<close>, \<^verbatim>\<open>log/LogStream.cc\<close>. A fixed
  array with a current pointer and a size receives the formatted pieces of a log line. The lemmas
  show that no piece is written outside the array, that every piece is stored whole or not at all,
  and that integers are printed in decimal notation.
\<close>

section \<open>FixedBuffer\<close>

definition kSmallBufferSize :: nat where "kSmallBufferSize = 4000"
definition kLargeBufferSize :: nat where "kLargeBufferSize = 4000 * 1000"

text \<open>
  The array \<open>data_\<close> (its length is the template parameter \<open>buffer_size\<close>), the offset of \<open>cur_\<close> in
  it, and the \<open>int\<close> member \<open>size_\<close>. The constructor leaves the array as it finds it.
\<close>

record fixed_buffer =
  data :: "char list"
  cur :: nat
  size_of :: int

definition FixedBuffer :: "char list \<Rightarrow> fixed_buffer" where
  "FixedBuffer memory = \<lparr>data = memory, cur = 0, size_of = 0\<rparr>"

definition avail :: "fixed_buffer \<Rightarrow> nat" where
  "avail b = nat ((int (length (data b)) - size_of b) mod 2 ^ 64)"

definition FixedBuffer_add :: "fixed_buffer \<Rightarrow> nat \<Rightarrow> fixed_buffer" where
  "FixedBuffer_add b len = b\<lparr>cur := cur b + len, size_of := size_of b + int len\<rparr>"

text \<open>\<open>append(buf, len)\<close> copies the first \<open>len\<close> bytes found at \<open>buf\<close>.\<close>

definition FixedBuffer_append :: "fixed_buffer \<Rightarrow> char list \<Rightarrow> nat \<Rightarrow> fixed_buffer result" where
  "FixedBuffer_append b buf len =
     (if avail b > len
      then bind_result (read_range buf 0 len)
             (\<lambda>xs. bind_result (copy_to (data b) (cur b) xs)
               (\<lambda>d. Inr (FixedBuffer_add (b\<lparr>data := d\<rparr>) len)))
      else Inr b)"

definition FixedBuffer_reset :: "fixed_buffer \<Rightarrow> fixed_buffer" where
  "FixedBuffer_reset b = b\<lparr>cur := 0, size_of := 0\<rparr>"

definition FixedBuffer_bzero :: "fixed_buffer \<Rightarrow> fixed_buffer" where
  "FixedBuffer_bzero b = b\<lparr>data := replicate (length (data b)) (char_of (0::nat))\<rparr>"

definition FixedBuffer_toString :: "fixed_buffer \<Rightarrow> string" where
  "FixedBuffer_toString b = take (nat (size_of b)) (data b)"

section \<open>LogStream\<close>

definition kMaxNumberSize :: nat where "kMaxNumberSize = 32"

definition digits :: string where "digits = ''9876543210123456789''"

text \<open>
  The \<^verbatim>\<open>do ... while (num != 0)\<close> loop of \<open>formatInteger\<close>: the characters in the order in which they
  are stored, least significant digit first. \<open>zero\<close> points to the middle of \<open>digits\<close>, so that a
  negative remainder selects the digit of its absolute value.
\<close>

function format_loop :: "int \<Rightarrow> char list" where
  "format_loop num =
     (let c = digits ! nat (9 + c_mod num 10); num' = c_div num 10
      in if num' = 0 then [c] else c # format_loop num')"
  by pat_completeness auto
termination
proof (relation "measure (\<lambda>n. nat \<bar>n\<bar>)")
  fix num x xa :: int and c
  assume "xa = c_div num 10" "xa \<noteq> 0"
  then show "(xa, num) \<in> measure (\<lambda>n. nat \<bar>n\<bar>)"
    by (auto simp: c_div_10 abs_mult zdiv_eq_0_iff sgn_if)
qed simp

declare format_loop.simps [simp del]

definition formatInteger :: "fixed_buffer \<Rightarrow> int \<Rightarrow> fixed_buffer result" where
  "formatInteger b num =
     (if avail b \<ge> kMaxNumberSize
      then let negative = (num < 0);
               str = format_loop num @ (if negative then ''-'' else [])
           in bind_result (copy_to (data b) (cur b) (str @ [char_of (0::nat)]))
                (\<lambda>d. bind_result (copy_to d (cur b) (rev str))
                  (\<lambda>d'. Inr (FixedBuffer_add (b\<lparr>data := d'\<rparr>) (length str))))
      else Inr b)"

text \<open>
  The overloads of \<^verbatim>\<open>operator<<\<close>. A C string ends at its first zero byte; \<^verbatim>\<open>snprintf("%.12g")\<close> is a
  parameter, its result cut to the 31 characters the local array holds.
\<close>

datatype stream_arg =
    SBool bool
  | SInt int                       \<comment> \<open>\<^verbatim>\<open>short\<close> to \<^verbatim>\<open>unsigned long long\<close>\<close>
  | SDouble string                 \<comment> \<open>the number as \<^verbatim>\<open>%.12g\<close> prints it\<close>
  | SChar char
  | SCstr "char list"              \<comment> \<open>the memory behind a \<^verbatim>\<open>const char *\<close>\<close>
  | SString string
  | SGeneral "char list" nat       \<comment> \<open>\<^verbatim>\<open>GeneralTemplate(data, len)\<close>\<close>

definition c_str :: "char list \<Rightarrow> string" where
  "c_str mem = takeWhile (\<lambda>c. c \<noteq> char_of (0::nat)) mem"

fun LogStream_put :: "fixed_buffer \<Rightarrow> stream_arg \<Rightarrow> fixed_buffer result" where
  "LogStream_put b (SBool express) =
     FixedBuffer_append b (if express then ''true'' else ''false'') (if express then 4 else 5)"
| "LogStream_put b (SInt number) = formatInteger b number"
| "LogStream_put b (SDouble printed) =
     (let buffer = take 31 (c_str printed) in FixedBuffer_append b buffer (length buffer))"
| "LogStream_put b (SChar str) = FixedBuffer_append b [str] 1"
| "LogStream_put b (SCstr str) = FixedBuffer_append b str (length (c_str str))"
| "LogStream_put b (SString str) = FixedBuffer_append b str (length str)"
| "LogStream_put b (SGeneral d len) = FixedBuffer_append b d len"

fun LogStream_puts :: "fixed_buffer \<Rightarrow> stream_arg list \<Rightarrow> fixed_buffer result" where
  "LogStream_puts b [] = Inr b"
| "LogStream_puts b (a # as) = bind_result (LogStream_put b a) (\<lambda>b'. LogStream_puts b' as)"

text \<open>\<open>append\<close> passes its signed length on as a \<^verbatim>\<open>size_t\<close>; \<open>reset_buffer\<close> empties the stream.\<close>

definition LogStream_append :: "fixed_buffer \<Rightarrow> char list \<Rightarrow> int \<Rightarrow> fixed_buffer result" where
  "LogStream_append b buffer len = FixedBuffer_append b buffer (nat (len mod 2 ^ 64))"

definition reset_buffer :: "fixed_buffer \<Rightarrow> fixed_buffer" where
  "reset_buffer b = FixedBuffer_reset b"

section \<open>Invariant\<close>

text \<open>The size never reaches the capacity: one byte is always left.\<close>

definition fixed_ok :: "fixed_buffer \<Rightarrow> bool" where
  "fixed_ok b \<longleftrightarrow> 0 \<le> size_of b \<and> size_of b < int (length (data b)) \<and> cur b = nat (size_of b) \<and>
     length (data b) < 2 ^ 31"

lemma avail_ok: "fixed_ok b \<Longrightarrow> avail b = length (data b) - cur b"
  by (auto simp: fixed_ok_def avail_def)

lemma toString_length: "fixed_ok b \<Longrightarrow> length (FixedBuffer_toString b) = cur b"
  by (auto simp: fixed_ok_def FixedBuffer_toString_def)

lemma FixedBuffer_fixed_ok:
  "m \<noteq> [] \<Longrightarrow> length m < 2 ^ 31 \<Longrightarrow> fixed_ok (FixedBuffer m) \<and> FixedBuffer_toString (FixedBuffer m) = []"
  by (simp add: fixed_ok_def FixedBuffer_def FixedBuffer_toString_def)

lemma FixedBuffer_reset_ok:
  "fixed_ok b \<Longrightarrow> fixed_ok (FixedBuffer_reset b) \<and> FixedBuffer_toString (FixedBuffer_reset b) = []
     \<and> length (data (FixedBuffer_reset b)) = length (data b)"
  by (auto simp: fixed_ok_def FixedBuffer_reset_def FixedBuffer_toString_def)

text \<open>Storing bytes at the current pointer and advancing it by their number.\<close>

lemma store_ok:
  assumes ok: "fixed_ok b" and room: "length xs < avail b"
    and d: "take (cur b) d = take (cur b) (data b)" "take (length xs) (drop (cur b) d) = xs" "length d = length (data b)"
  shows "fixed_ok (FixedBuffer_add (b\<lparr>data := d\<rparr>) (length xs)) \<and>
    FixedBuffer_toString (FixedBuffer_add (b\<lparr>data := d\<rparr>) (length xs)) = FixedBuffer_toString b @ xs"
proof
  show "fixed_ok (FixedBuffer_add (b\<lparr>data := d\<rparr>) (length xs))"
    using ok room d(3) by (auto simp: fixed_ok_def FixedBuffer_add_def avail_ok)
  have "nat (size_of b + int (length xs)) = cur b + length xs"
    using ok by (auto simp: fixed_ok_def nat_add_distrib)
  then show "FixedBuffer_toString (FixedBuffer_add (b\<lparr>data := d\<rparr>) (length xs)) = FixedBuffer_toString b @ xs"
    using ok d(1,2) by (simp add: FixedBuffer_toString_def FixedBuffer_add_def take_add fixed_ok_def)
qed

lemma append_stored:
  assumes ok: "fixed_ok b" and room: "len < avail b" and len: "len \<le> length buf"
  obtains b' where "FixedBuffer_append b buf len = Inr b'" and "fixed_ok b'"
    and "FixedBuffer_toString b' = FixedBuffer_toString b @ take len buf" and "length (data b') = length (data b)"
proof -
  let ?d = "take (cur b) (data b) @ take len buf @ drop (cur b + len) (data b)"
  have "cur b + len \<le> length (data b)" using room ok by (auto simp: avail_ok)
  then have "FixedBuffer_append b buf len = Inr (FixedBuffer_add (b\<lparr>data := ?d\<rparr>) (length (take len buf)))"
    using room len by (simp add: FixedBuffer_append_def)
  moreover have "fixed_ok (FixedBuffer_add (b\<lparr>data := ?d\<rparr>) (length (take len buf))) \<and>
      FixedBuffer_toString (FixedBuffer_add (b\<lparr>data := ?d\<rparr>) (length (take len buf))) =
        FixedBuffer_toString b @ take len buf"
    using ok room len \<open>cur b + len \<le> length (data b)\<close> by (intro store_ok) auto
  moreover have "length (data (FixedBuffer_add (b\<lparr>data := ?d\<rparr>) (length (take len buf)))) = length (data b)"
    using \<open>cur b + len \<le> length (data b)\<close> len by (simp add: FixedBuffer_add_def)
  ultimately show ?thesis using that by blast
qed

lemma append_dropped: "\<not> len < avail b \<Longrightarrow> FixedBuffer_append b buf len = Inr b"
  by (simp add: FixedBuffer_append_def)

section \<open>Decimal output\<close>

lemma digits_nonneg: "d < 10 \<Longrightarrow> digits ! (9 + d) = digit_char d"
proof -
  assume "d < 10"
  then have "d \<in> {0,1,2,3,4,5,6,7,8,9}" by auto
  then show ?thesis by (auto simp: digits_def digit_char_def char_of_def bit_0)
qed

lemma digits_neg: "d < 10 \<Longrightarrow> digits ! (9 - d) = digit_char d"
proof -
  assume "d < 10"
  then have "d \<in> {0,1,2,3,4,5,6,7,8,9}" by auto
  then show ?thesis by (auto simp: digits_def digit_char_def char_of_def bit_0)
qed

lemma format_digit: "digits ! nat (9 + c_mod num 10) = digit_char (nat (\<bar>num\<bar> mod 10))"
proof -
  let ?d = "nat (\<bar>num\<bar> mod 10)"
  have d: "?d < 10" by simp
  consider "num = 0" | "0 < num" | "num < 0" by linarith
  then show ?thesis
  proof cases
    case 2
    then have "nat (9 + c_mod num 10) = 9 + ?d" by (simp add: c_mod_10 nat_add_distrib)
    with digits_nonneg [OF d] show ?thesis by simp
  next
    case 3
    then have "nat (9 + c_mod num 10) = 9 - ?d" by (simp add: c_mod_10 nat_diff_distrib')
    with digits_neg [OF d] show ?thesis by simp
  qed (use digits_nonneg [of 0] in \<open>simp add: c_mod_10\<close>)
qed

lemma format_loop_dec: "rev (format_loop num) = dec_nat (nat \<bar>num\<bar>)"
proof (induction num rule: format_loop.induct)
  case (1 num)
  have q: "nat \<bar>c_div num 10\<bar> = nat \<bar>num\<bar> div 10"
    by (cases "num = 0") (simp_all add: c_div_10 abs_mult nat_div_distrib)
  have r: "nat (\<bar>num\<bar> mod 10) = nat \<bar>num\<bar> mod 10" by (simp add: nat_mod_distrib)
  show ?case
  proof (cases "c_div num 10 = 0")
    case True
    then have "nat \<bar>num\<bar> < 10" using q by simp
    then show ?thesis
      using True by (subst format_loop.simps, subst dec_nat.simps) (simp add: format_digit r)
  next
    case False
    then have "\<not> nat \<bar>num\<bar> < 10" using q by (metis div_less int_nat_eq nat_0_iff abs_ge_zero abs_of_nonneg abs_eq_0 nat_eq_iff of_nat_0)
    then show ?thesis
      using False 1 q by (subst format_loop.simps, subst dec_nat.simps) (simp add: format_digit r)
  qed
qed

text \<open>
  Every built-in integer type has values between the least \<^verbatim>\<open>long long\<close> and the greatest
  \<^verbatim>\<open>unsigned long long\<close>; at most 20 characters are needed for one.
\<close>

definition builtin_int :: "int \<Rightarrow> bool" where
  "builtin_int i \<longleftrightarrow> - (2 ^ 63) \<le> i \<and> i < 2 ^ 64"

lemma dec_int_format: "rev (format_loop num @ (if num < 0 then ''-'' else [])) = dec_int num"
  using format_loop_dec [of num] by (simp add: dec_int_def)

lemma dec_int_length: "builtin_int i \<Longrightarrow> length (dec_int i) \<le> 20"
  using dec_nat_length [of "nat i" 20] dec_nat_length [of "nat (- i)" 19]
  by (auto simp: builtin_int_def dec_int_def nat_less_iff)

lemma copy_reversed:
  assumes "i + length str + 1 \<le> length v"
  obtains d where "bind_result (copy_to v i (str @ [z])) (\<lambda>d. bind_result (copy_to d i (rev str)) f) = f d"
    and "take i d = take i v" and "take (length str) (drop i d) = rev str" and "length d = length v"
proof -
  define d1 where "d1 = take i v @ (str @ [z]) @ drop (i + length (str @ [z])) v"
  define d2 where "d2 = take i d1 @ rev str @ drop (i + length (rev str)) d1"
  have l1: "length d1 = length v" using assms by (simp add: d1_def)
  have "copy_to v i (str @ [z]) = Inr d1" using assms by (simp add: d1_def)
  moreover have "copy_to d1 i (rev str) = Inr d2" using assms l1 by (simp add: d2_def)
  moreover have "take i d2 = take i v" "take (length str) (drop i d2) = rev str" "length d2 = length v"
    using assms l1 by (simp_all add: d2_def d1_def)
  ultimately show ?thesis using that by simp
qed

lemma formatInteger_stored:
  assumes ok: "fixed_ok b" and room: "kMaxNumberSize \<le> avail b" and num: "builtin_int num"
  obtains b' where "formatInteger b num = Inr b'" and "fixed_ok b'"
    and "FixedBuffer_toString b' = FixedBuffer_toString b @ dec_int num" and "length (data b') = length (data b)"
proof -
  define str where "str = format_loop num @ (if num < 0 then ''-'' else [])"
  have rs: "rev str = dec_int num" unfolding str_def by (rule dec_int_format)
  have len: "length str \<le> 20" using dec_int_length [OF num] rs [symmetric] by simp
  have room': "cur b + length str + 1 \<le> length (data b)"
    using room ok len by (auto simp: avail_ok kMaxNumberSize_def)
  obtain d where d: "bind_result (copy_to (data b) (cur b) (str @ [char_of (0::nat)]))
      (\<lambda>d. bind_result (copy_to d (cur b) (rev str)) (\<lambda>d'. Inr (FixedBuffer_add (b\<lparr>data := d'\<rparr>) (length str)))) =
        Inr (FixedBuffer_add (b\<lparr>data := d\<rparr>) (length str))"
    "take (cur b) d = take (cur b) (data b)" "take (length str) (drop (cur b) d) = rev str" "length d = length (data b)"
    using copy_reversed [OF room'] by blast
  let ?b = "FixedBuffer_add (b\<lparr>data := d\<rparr>) (length (rev str))"
  have "formatInteger b num = Inr ?b"
    using room d(1) by (simp add: formatInteger_def str_def)
  moreover have "fixed_ok ?b \<and> FixedBuffer_toString ?b = FixedBuffer_toString b @ rev str"
    using ok d(2-4) len room by (intro store_ok) (auto simp: kMaxNumberSize_def)
  moreover have "length (data ?b) = length (data b)" using d(4) by (simp add: FixedBuffer_add_def)
  ultimately show ?thesis using that rs by simp
qed

section \<open>The log sink interface\<close>

text \<open>
  What the logger and the asynchronous back end rely on: a bounded text to which pieces are added.
  A piece needs some room; with that room it is added whole, without it nothing changes, and
  neither fails.
\<close>

locale log_sink =
  fixes ok :: "'b \<Rightarrow> bool"
    and shown :: "'b \<Rightarrow> string"
    and room :: "'b \<Rightarrow> nat"
    and put :: "'b \<Rightarrow> 'a \<Rightarrow> 'b result"
    and legal :: "'a \<Rightarrow> bool"
    and piece :: "'a \<Rightarrow> string"
    and need :: "'a \<Rightarrow> nat"
  assumes put_whole: "ok b \<Longrightarrow> legal a \<Longrightarrow> need a \<le> room b \<Longrightarrow>
      \<exists>b'. put b a = Inr b' \<and> ok b' \<and> shown b' = shown b @ piece a \<and> room b' + length (piece a) = room b"
    and put_none: "ok b \<Longrightarrow> legal a \<Longrightarrow> \<not> need a \<le> room b \<Longrightarrow> put b a = Inr b"
begin

fun put_all :: "'b \<Rightarrow> 'a list \<Rightarrow> 'b result" where
  "put_all b [] = Inr b"
| "put_all b (a # as) = bind_result (put b a) (\<lambda>b'. put_all b' as)"

fun fits :: "nat \<Rightarrow> 'a list \<Rightarrow> bool" where
  "fits n [] = True"
| "fits n (a # as) = (need a \<le> n \<and> fits (n - length (piece a)) as)"

lemma put_total:
  assumes "ok b" and "legal a"
  obtains b' where "put b a = Inr b'" and "ok b'" and "shown b' = shown b \<or> shown b' = shown b @ piece a"
  using assms put_whole put_none by (cases "need a \<le> room b") fastforce+

lemma put_all_total: "ok b \<Longrightarrow> \<forall>a\<in>set as. legal a \<Longrightarrow>
    \<exists>b' bs. put_all b as = Inr b' \<and> ok b' \<and> length bs = length as \<and>
      shown b' = shown b @ concat (map2 (\<lambda>k a. if k then piece a else []) bs as)"
proof (induction as arbitrary: b)
  case (Cons a as)
  obtain b1 where b1: "put b a = Inr b1" "ok b1" "shown b1 = shown b \<or> shown b1 = shown b @ piece a"
    using put_total [of b a] Cons.prems by auto
  obtain b' bs where b': "put_all b1 as = Inr b'" "ok b'" "length bs = length as"
    "shown b' = shown b1 @ concat (map2 (\<lambda>k a. if k then piece a else []) bs as)"
    using Cons.IH [OF b1(2)] Cons.prems by auto
  from b1(3) show ?case
  proof
    assume "shown b1 = shown b"
    then show ?thesis using b1 b' by (intro exI [of _ b'] exI [of _ "False # bs"]) simp
  next
    assume "shown b1 = shown b @ piece a"
    then show ?thesis using b1 b' by (intro exI [of _ b'] exI [of _ "True # bs"]) simp
  qed
qed simp

lemma put_all_fits: "ok b \<Longrightarrow> \<forall>a\<in>set as. legal a \<Longrightarrow> fits (room b) as \<Longrightarrow>
    \<exists>b'. put_all b as = Inr b' \<and> ok b' \<and> shown b' = shown b @ concat (map piece as)"
proof (induction as arbitrary: b)
  case (Cons a as)
  obtain b1 where b1: "put b a = Inr b1" "ok b1" "shown b1 = shown b @ piece a" "room b1 + length (piece a) = room b"
    using put_whole [of b a] Cons.prems by auto
  then have "fits (room b1) as" using Cons.prems(3) by simp (metis add_diff_cancel_right')
  with Cons.IH [OF b1(2)] Cons.prems b1 show ?case by auto
qed simp

end

text \<open>The pieces of a stream: their text, the room they need, and when they are legal arguments.\<close>

fun arg_text :: "stream_arg \<Rightarrow> string" where
  "arg_text (SBool express) = (if express then ''true'' else ''false'')"
| "arg_text (SInt number) = dec_int number"
| "arg_text (SDouble printed) = take 31 (c_str printed)"
| "arg_text (SChar str) = [str]"
| "arg_text (SCstr str) = c_str str"
| "arg_text (SString str) = str"
| "arg_text (SGeneral d len) = take len d"

fun arg_need :: "stream_arg \<Rightarrow> nat" where
  "arg_need (SInt number) = kMaxNumberSize"
| "arg_need (SGeneral d len) = Suc len"
| "arg_need a = Suc (length (arg_text a))"

fun arg_legal :: "stream_arg \<Rightarrow> bool" where
  "arg_legal (SInt number) = builtin_int number"
| "arg_legal (SGeneral d len) = (len \<le> length d)"
| "arg_legal a = True"

lemma c_str_prefix: "take (length (c_str m)) m = c_str m"
  unfolding c_str_def by (metis takeWhile_eq_take)

lemma c_str_length: "length (c_str m) \<le> length m"
  by (simp add: c_str_def length_takeWhile_le)

fun arg_source :: "stream_arg \<Rightarrow> char list" where
  "arg_source (SCstr str) = str"
| "arg_source (SGeneral d len) = d"
| "arg_source a = arg_text a"

lemma LogStream_put_append:
  assumes "case a of SInt _ \<Rightarrow> False | _ \<Rightarrow> True" and "arg_legal a"
  shows "LogStream_put b a = FixedBuffer_append b (arg_source a) (arg_need a - 1)"
    and "arg_need a - 1 \<le> length (arg_source a)" and "take (arg_need a - 1) (arg_source a) = arg_text a"
    and "0 < arg_need a"
proof -
  show "LogStream_put b a = FixedBuffer_append b (arg_source a) (arg_need a - 1)"
    using assms by (cases a) (simp_all add: Let_def eval_nat_numeral)
  show "arg_need a - 1 \<le> length (arg_source a)"
    using assms by (cases a) (simp_all add: c_str_length)
  show "take (arg_need a - 1) (arg_source a) = arg_text a"
    using assms by (cases a) (simp_all add: c_str_prefix min_def)
  show "0 < arg_need a"
    using assms by (cases a) simp_all
qed

lemma LogStream_put_whole:
  assumes ok: "fixed_ok b" and legal: "arg_legal a" and need: "arg_need a \<le> avail b"
  shows "\<exists>b'. LogStream_put b a = Inr b' \<and> fixed_ok b' \<and>
    FixedBuffer_toString b' = FixedBuffer_toString b @ arg_text a \<and> avail b' + length (arg_text a) = avail b"
proof -
  have room: "avail b' + length (arg_text a) = avail b"
    if "fixed_ok b'" "FixedBuffer_toString b' = FixedBuffer_toString b @ arg_text a" "length (data b') = length (data b)" for b'
  proof -
    have "cur b' = cur b + length (arg_text a)" using toString_length [OF ok] toString_length [OF that(1)] that(2) by simp
    moreover have "cur b' < length (data b')" using that(1) by (auto simp: fixed_ok_def)
    ultimately show ?thesis using that avail_ok [OF ok] avail_ok [OF that(1)] by simp
  qed
  show ?thesis
  proof (cases "\<exists>n. a = SInt n")
    case True
    then obtain n where "a = SInt n" by blast
    with formatInteger_stored [OF ok _, of n] legal need room show ?thesis by simp metis
  next
    case False
    then have a: "case a of SInt _ \<Rightarrow> False | _ \<Rightarrow> True" by (auto split: stream_arg.split)
    note put = LogStream_put_append [OF a legal]
    have "arg_need a - 1 < avail b" using need put(4) by linarith
    from append_stored [OF ok this put(2)] obtain b' where
      "FixedBuffer_append b (arg_source a) (arg_need a - 1) = Inr b'" "fixed_ok b'"
      "FixedBuffer_toString b' = FixedBuffer_toString b @ arg_text a" "length (data b') = length (data b)"
      unfolding put(3) by blast
    with room show ?thesis unfolding put(1) by blast
  qed
qed

lemma LogStream_put_none:
  "arg_legal a \<Longrightarrow> \<not> arg_need a \<le> avail b \<Longrightarrow> LogStream_put b a = Inr b"
  by (cases a) (auto simp: append_dropped formatInteger_def Let_def)

interpretation stream: log_sink fixed_ok FixedBuffer_toString avail LogStream_put arg_legal arg_text arg_need
  by unfold_locales (auto simp: LogStream_put_whole LogStream_put_none)

lemma stream_put_all: "stream.put_all b as = LogStream_puts b as"
  by (induction as arbitrary: b) (auto simp: bind_result_def split: sum.splits)

fun args_fit :: "nat \<Rightarrow> stream_arg list \<Rightarrow> bool" where
  "args_fit n [] = True"
| "args_fit n (a # as) = (arg_need a \<le> n \<and> args_fit (n - length (arg_text a)) as)"

lemma stream_fits: "stream.fits n as = args_fit n as"
  by (induction as arbitrary: n) auto

lemma LogStream_puts_fits:
  assumes "fixed_ok b" and "\<forall>a\<in>set as. arg_legal a" and "args_fit (avail b) as"
  obtains b' where "LogStream_puts b as = Inr b'" and "fixed_ok b'"
    and "FixedBuffer_toString b' = FixedBuffer_toString b @ concat (map arg_text as)"
  using stream.put_all_fits [OF assms(1,2)] assms(3) by (auto simp: stream_put_all stream_fits)

text \<open>A stream that was reset takes a whole array of pieces again; a negative length becomes a huge one, for which there is never room.\<close>

lemma reset_stream_takes_pieces:
  assumes "fixed_ok b" and "\<forall>a\<in>set as. arg_legal a" and "args_fit (length (data b)) as"
  obtains b' where "LogStream_puts (reset_buffer b) as = Inr b'" and "fixed_ok b'"
    and "FixedBuffer_toString b' = concat (map arg_text as)"
proof -
  have ok: "fixed_ok (reset_buffer b)" "FixedBuffer_toString (reset_buffer b) = []" "length (data (reset_buffer b)) = length (data b)"
    using FixedBuffer_reset_ok [OF assms(1)] by (simp_all add: reset_buffer_def)
  have "avail (reset_buffer b) = length (data b)" using avail_ok [OF ok(1)] ok(3) by (simp add: reset_buffer_def FixedBuffer_reset_def)
  then obtain b' where "LogStream_puts (reset_buffer b) as = Inr b'" "fixed_ok b'"
      "FixedBuffer_toString b' = FixedBuffer_toString (reset_buffer b) @ concat (map arg_text as)"
    using LogStream_puts_fits [OF ok(1) assms(2)] assms(3) by metis
  with ok(2) show thesis by (intro that) simp_all
qed

lemma LogStream_append_negative:
  assumes "fixed_ok b" and "builtin_int len" and "len < 0"
  shows "LogStream_append b buffer len = Inr b"
proof -
  have "len mod 2 ^ 64 = len + 2 ^ 64" using assms(2,3) mod_add_self2 [of len "2 ^ 64"] by (simp add: builtin_int_def del: mod_add_self2)
  then have "2 ^ 63 \<le> len mod 2 ^ 64" using assms(2) by (simp add: builtin_int_def)
  moreover have "avail b < 2 ^ 31" using assms(1) avail_ok [OF assms(1)] by (auto simp: fixed_ok_def intro: le_less_trans [OF diff_le_self])
  ultimately have "\<not> avail b > nat (len mod 2 ^ 64)" by simp
  then show ?thesis by (simp add: LogStream_append_def FixedBuffer_append_def)
qed

section \<open>Properties\<close>

text \<open>
  C35: printing an integer of any built-in width into a stream with at least 32 bytes of room never
  writes outside the buffer and appends its decimal notation, from which the number can be read
  back; with less room nothing is written.
\<close>

theorem formatInteger_decimal:
  assumes "fixed_ok b" and "builtin_int num"
  shows "if kMaxNumberSize \<le> avail b
    then \<exists>b' s. formatInteger b num = Inr b' \<and> fixed_ok b' \<and>
        FixedBuffer_toString b' = FixedBuffer_toString b @ s \<and> length s \<le> 20 \<and> parse_int s = num
    else formatInteger b num = Inr b"
  using formatInteger_stored [OF assms(1) _ assms(2)] dec_int_length [OF assms(2)] parse_dec_int [of num]
  by (metis formatInteger_def)

theorem formatInteger_decimal_witness:
  "\<exists>b' s. formatInteger (FixedBuffer (replicate 40 CHR ''?'')) (- 9223372036854775808) = Inr b' \<and>
     FixedBuffer_toString b' = s \<and> parse_int s = - 9223372036854775808"
proof -
  let ?b = "FixedBuffer (replicate 40 CHR ''?'')"
  have ok: "fixed_ok ?b" and e: "FixedBuffer_toString ?b = []"
    using FixedBuffer_fixed_ok [of "replicate 40 CHR ''?''"] by simp_all
  have num: "builtin_int (- 9223372036854775808)" by (simp add: builtin_int_def)
  have "kMaxNumberSize \<le> avail ?b"
    using avail_ok [OF ok] by (simp add: FixedBuffer_def kMaxNumberSize_def)
  with formatInteger_decimal [OF ok num] e show ?thesis by auto
qed

text \<open>
  C39: any sequence of stream insertions into a well-formed buffer succeeds without leaving the
  array and keeps the buffer well-formed; every inserted piece is stored whole or not at all, in
  order, and the text always stays shorter than the array.
\<close>

theorem stream_pieces_whole_or_dropped:
  assumes "fixed_ok b" and "\<forall>a\<in>set as. arg_legal a"
  shows "\<exists>b' kept. LogStream_puts b as = Inr b' \<and> fixed_ok b' \<and> length kept = length as \<and>
     FixedBuffer_toString b' = FixedBuffer_toString b @ concat (map2 (\<lambda>k a. if k then arg_text a else []) kept as) \<and>
     length (FixedBuffer_toString b') < length (data b')"
proof -
  obtain b' kept where r: "LogStream_puts b as = Inr b'" "fixed_ok b'" "length kept = length as"
    "FixedBuffer_toString b' = FixedBuffer_toString b @ concat (map2 (\<lambda>k a. if k then arg_text a else []) kept as)"
    using stream.put_all_total [OF assms] stream_put_all by auto
  moreover have "length (FixedBuffer_toString b') < length (data b')"
    using r(2) toString_length [OF r(2)] by (auto simp: fixed_ok_def)
  ultimately show ?thesis by blast
qed

theorem stream_pieces_whole_or_dropped_witness:
  "\<exists>b'. LogStream_puts (FixedBuffer ''........'') [SString ''fd='', SBool True, SChar (CHR ''!'')] = Inr b' \<and>
     fixed_ok b' \<and> length (FixedBuffer_toString b') < length (data b')"
proof -
  let ?as = "[SString ''fd='', SBool True, SChar (CHR ''!'')]"
  have "fixed_ok (FixedBuffer ''........'')" using FixedBuffer_fixed_ok [of "''........''"] by simp
  moreover have "\<forall>a\<in>set ?as. arg_legal a" by simp
  ultimately show ?thesis using stream_pieces_whole_or_dropped [of "FixedBuffer ''........''" ?as] by blast
qed

end
