(* ===== verification/Logger.thy ===== *)
theory Logger
  imports LogStream
begin

text \<open>
  One log statement, \<^verbatim>\<open>include/Logger.h\<close> and \<^verbatim>\<open>src/Logger.cc\<close>: the constructor writes the time and the
  level into the stream, the statement inserts its pieces, and the destructor appends the source
  position, hands the line to the output function and ends the process for a fatal line. The
  calendar conversion \<^verbatim>\<open>localtime\<close> and \<^verbatim>\<open>strerror_r\<close> depend on the environment and are parameters.
\<close>

section \<open>Formatting of the C library\<close>

record tm =
  tm_year :: int
  tm_mon :: int
  tm_mday :: int
  tm_hour :: int
  tm_min :: int
  tm_sec :: int

definition pad_left :: "char \<Rightarrow> nat \<Rightarrow> string \<Rightarrow> string" where
  "pad_left c w s = replicate (w - length s) c @ s"

definition fmt_d :: "nat \<Rightarrow> int \<Rightarrow> string" where      \<comment> \<open>\<^verbatim>\<open>%<w>d\<close>\<close>
  "fmt_d w n = pad_left (CHR '' '') w (dec_int n)"

definition fmt_0d :: "nat \<Rightarrow> int \<Rightarrow> string" where     \<comment> \<open>\<^verbatim>\<open>%0<w>d\<close>\<close>
  "fmt_0d w n =
     (if n < 0 then CHR ''-'' # pad_left (CHR ''0'') (w - 1) (dec_nat (nat (- n)))
      else pad_left (CHR ''0'') w (dec_nat (nat n)))"

text \<open>\<^verbatim>\<open>snprintf\<close> into an array: the text is cut to the array, a zero byte follows, the rest stays.\<close>

definition snprintf_to :: "char list \<Rightarrow> string \<Rightarrow> char list" where
  "snprintf_to mem s =
     (let t = take (length mem - 1) s in t @ char_of (0::nat) # drop (length t + 1) mem)"

text \<open>The text of \<^verbatim>\<open>"%4d/%02d/%02d %02d:%02d:%02d"\<close>, used by the logger and by \<open>Timestamp\<close>.\<close>

definition calendar_text :: "tm \<Rightarrow> string" where
  "calendar_text t = fmt_d 4 (tm_year t + 1900) @ ''/'' @ fmt_0d 2 (tm_mon t + 1) @ ''/'' @ fmt_0d 2 (tm_mday t) @
     '' '' @ fmt_0d 2 (tm_hour t) @ '':'' @ fmt_0d 2 (tm_min t) @ '':'' @ fmt_0d 2 (tm_sec t)"

section \<open>The logger\<close>

fun strrchr :: "string \<Rightarrow> char \<Rightarrow> nat option" where
  "strrchr [] c = None"
| "strrchr (x # xs) c =
     (case strrchr xs c of Some i \<Rightarrow> Some (Suc i) | None \<Rightarrow> if x = c then Some 0 else None)"

definition SourceFile :: "string \<Rightarrow> string" where
  "SourceFile filename =
     (case strrchr filename (CHR ''/'') of Some slash \<Rightarrow> drop (slash + 1) filename | None \<Rightarrow> filename)"

datatype LogLevel = TRACE | DEBUG | INFO | WARN | ERROR | FATAL | LEVEL_COUNT

fun getLevelName :: "LogLevel \<Rightarrow> string result" where
  "getLevelName TRACE = Inr ''TRACE ''"
| "getLevelName DEBUG = Inr ''DEBUG ''"
| "getLevelName INFO  = Inr ''INFO  ''"
| "getLevelName WARN  = Inr ''WARN  ''"
| "getLevelName ERROR = Inr ''ERROR ''"
| "getLevelName FATAL = Inr ''FATAL ''"
| "getLevelName LEVEL_COUNT = Inl Out_of_bounds"

record thread_info =
  t_timer :: "char list"
  t_lastSecond :: int

record logger =
  stream :: fixed_buffer
  level :: LogLevel
  line :: int
  basename :: string

definition kMicroSecondsPerSecond :: int where "kMicroSecondsPerSecond = 1000 * 1000"

text \<open>
  The text forms of a timestamp of \<open>us\<close> microseconds. \<open>toString\<close> gives \<^verbatim>\<open>localtime\<close> the microseconds where seconds are expected.
\<close>

definition Timestamp_toString :: "(int \<Rightarrow> tm) \<Rightarrow> int \<Rightarrow> string" where
  "Timestamp_toString localtime us = take 127 (calendar_text (localtime us))"

definition toFormattedString :: "(int \<Rightarrow> tm) \<Rightarrow> bool \<Rightarrow> int \<Rightarrow> string" where
  "toFormattedString localtime showMicroseconds us =
     (let seconds = c_div us kMicroSecondsPerSecond; tm_time = localtime seconds
      in if showMicroseconds then take 63 (calendar_text tm_time @ ''.'' @ fmt_0d 6 (c_mod us kMicroSecondsPerSecond))
         else take 63 (calendar_text tm_time))"

text \<open>\<open>now\<close> is the clock reading in microseconds since the epoch.\<close>

definition formatTime ::
    "(int \<Rightarrow> tm) \<Rightarrow> int \<Rightarrow> thread_info \<Rightarrow> fixed_buffer \<Rightarrow> (thread_info \<times> fixed_buffer) result" where
  "formatTime localtime now ti s =
     (let seconds = c_div now kMicroSecondsPerSecond;
          microseconds = c_mod now kMicroSecondsPerSecond;
          timer = snprintf_to (t_timer ti) (calendar_text (localtime seconds));
          ti' = ti\<lparr>t_timer := timer, t_lastSecond := seconds\<rparr>;
          buf = snprintf_to (replicate 32 (char_of (0::nat))) (fmt_0d 6 microseconds @ '' '')
      in bind_result (LogStream_puts s [SGeneral timer 17, SGeneral buf 7]) (\<lambda>s'. Inr (ti', s')))"

definition Impl ::
    "(int \<Rightarrow> tm) \<Rightarrow> (int \<Rightarrow> string) \<Rightarrow> int \<Rightarrow> thread_info \<Rightarrow> char list \<Rightarrow> LogLevel \<Rightarrow> int \<Rightarrow> string \<Rightarrow> int
      \<Rightarrow> (thread_info \<times> logger) result" where
  "Impl localtime strerror_r now ti memory lvl savedErrno filename ln =
     bind_result (formatTime localtime now ti (FixedBuffer memory)) (\<lambda>(ti', s).
     bind_result (getLevelName lvl) (\<lambda>name.
     bind_result (LogStream_put s (SGeneral name 6)) (\<lambda>s.
     bind_result
       (if savedErrno \<noteq> 0
        then LogStream_puts s [SCstr (strerror_r savedErrno), SCstr '' (errno='', SInt savedErrno, SCstr '') '']
        else Inr s) (\<lambda>s.
     Inr (ti', \<lparr>stream = s, level = lvl, line = ln, basename = SourceFile filename\<rparr>)))))"

definition Logger ::
    "(int \<Rightarrow> tm) \<Rightarrow> (int \<Rightarrow> string) \<Rightarrow> int \<Rightarrow> thread_info \<Rightarrow> char list \<Rightarrow> string \<Rightarrow> int \<Rightarrow> LogLevel
      \<Rightarrow> (thread_info \<times> logger) result" where
  "Logger localtime strerror_r now ti memory filename ln lvl =
     Impl localtime strerror_r now ti memory lvl 0 filename ln"

definition Logger_finish :: "logger \<Rightarrow> logger result" where
  "Logger_finish l =
     bind_result
       (LogStream_puts (stream l)
         [SCstr '' - '', SGeneral (basename l) (length (basename l)), SChar (CHR '':''), SInt (line l),
          SChar (CHR 0x0A)])
       (\<lambda>s. Inr (l\<lparr>stream := s\<rparr>))"

text \<open>The destructor: the text handed to \<open>g_output\<close>, and whether the process is aborted afterwards.\<close>

definition Logger_dtor :: "logger \<Rightarrow> (string \<times> bool) result" where
  "Logger_dtor l =
     bind_result (Logger_finish l)
       (\<lambda>l'. Inr (FixedBuffer_toString (stream l'), level l' = FATAL))"

text \<open>A whole statement \<^verbatim>\<open>LOG_XXX << a1 << a2 ...\<close>.\<close>

definition log_statement ::
    "(int \<Rightarrow> tm) \<Rightarrow> (int \<Rightarrow> string) \<Rightarrow> int \<Rightarrow> thread_info \<Rightarrow> char list \<Rightarrow> string \<Rightarrow> int \<Rightarrow> LogLevel
      \<Rightarrow> stream_arg list \<Rightarrow> (string \<times> bool) result" where
  "log_statement localtime strerror_r now ti memory filename ln lvl args =
     bind_result (Logger localtime strerror_r now ti memory filename ln lvl) (\<lambda>(ti', l).
     bind_result (LogStream_puts (stream l) args) (\<lambda>s. Logger_dtor (l\<lparr>stream := s\<rparr>)))"

section \<open>Lemmas\<close>

lemma LogStream_puts_append:
  "LogStream_puts b (as @ as') = bind_result (LogStream_puts b as) (\<lambda>b'. LogStream_puts b' as')"
  by (induction as arbitrary: b) (auto simp: bind_result_def split: sum.splits)

lemma args_fit_total:
  "\<forall>a\<in>set as. arg_legal a \<Longrightarrow> length (concat (map arg_text as)) + kMaxNumberSize \<le> n \<Longrightarrow> args_fit n as"
proof (induction as arbitrary: n)
  case (Cons a as)
  have "arg_need a \<le> length (arg_text a) + kMaxNumberSize"
    using Cons.prems(1) by (cases a) (auto simp: kMaxNumberSize_def)
  with Cons show ?case by simp
qed simp

lemma strrchr_None: "strrchr s c = None \<longleftrightarrow> c \<notin> set s"
  by (induction s) (auto split: option.splits)

lemma strrchr_Some: "strrchr s c = Some i \<Longrightarrow> i < length s \<and> s ! i = c \<and> c \<notin> set (drop (i + 1) s)"
  by (induction s arbitrary: i) (auto split: option.splits if_splits simp: strrchr_None)

lemma SourceFile_ok: "CHR ''/'' \<notin> set (SourceFile f) \<and> (\<exists>dir. f = dir @ SourceFile f)"
proof (cases "strrchr f (CHR ''/'')")
  case (Some i)
  then show ?thesis
    using strrchr_Some [OF Some] by (auto simp: SourceFile_def intro: exI [of _ "take (i + 1) f"])
qed (simp add: SourceFile_def, metis strrchr_None)

lemma length_snprintf_to: "mem \<noteq> [] \<Longrightarrow> length (snprintf_to mem s) = length mem"
  by (cases mem) (auto simp: snprintf_to_def Let_def)

lemma take_snprintf_to: "n \<le> length s \<Longrightarrow> n < length mem \<Longrightarrow> take n (snprintf_to mem s) = take n s"
  by (auto simp: snprintf_to_def Let_def min_def)

lemma length_fmt_0d_2: "0 \<le> n \<Longrightarrow> n < 100 \<Longrightarrow> length (fmt_0d 2 n) = 2"
  using dec_nat_length [of "nat n" 2] by (simp add: fmt_0d_def pad_left_def)

lemma length_fmt_0d_6: "0 \<le> n \<Longrightarrow> n < 1000000 \<Longrightarrow> length (fmt_0d 6 n) = 6"
  using dec_nat_length [of "nat n" 6] by (simp add: fmt_0d_def pad_left_def)

lemma length_fmt_d_4: "0 \<le> n \<Longrightarrow> n < 10000 \<Longrightarrow> length (fmt_d 4 n) = 4"
  using dec_nat_length [of "nat n" 4] by (simp add: fmt_d_def pad_left_def dec_int_def)

text \<open>A calendar time in the documented ranges of \<^verbatim>\<open>struct tm\<close>, with a year of at most four digits.\<close>

definition tm_ok :: "tm \<Rightarrow> bool" where
  "tm_ok t \<longleftrightarrow> 0 \<le> tm_year t + 1900 \<and> tm_year t + 1900 < 10000 \<and> 0 \<le> tm_mon t \<and> tm_mon t \<le> 11 \<and>
     1 \<le> tm_mday t \<and> tm_mday t \<le> 31 \<and> 0 \<le> tm_hour t \<and> tm_hour t \<le> 23 \<and> 0 \<le> tm_min t \<and> tm_min t \<le> 59 \<and>
     0 \<le> tm_sec t \<and> tm_sec t \<le> 60"

definition minute_text :: "tm \<Rightarrow> string" where
  "minute_text t = fmt_d 4 (tm_year t + 1900) @ ''/'' @ fmt_0d 2 (tm_mon t + 1) @ ''/'' @ fmt_0d 2 (tm_mday t) @
     '' '' @ fmt_0d 2 (tm_hour t) @ '':'' @ fmt_0d 2 (tm_min t) @ '':''"

lemma calendar_text_split:
  assumes "tm_ok t"
  shows "calendar_text t = minute_text t @ fmt_0d 2 (tm_sec t)" and "length (minute_text t) = 17"
    and "length (calendar_text t) = 19"
  using assms
  by (simp_all add: calendar_text_def minute_text_def tm_ok_def length_fmt_d_4 length_fmt_0d_2)

lemma toFormattedString_prefix:
  assumes "tm_ok (localtime (c_div us kMicroSecondsPerSecond))"
  shows "toFormattedString localtime False us = calendar_text (localtime (c_div us kMicroSecondsPerSecond))"
    and "take 20 (toFormattedString localtime True us) = toFormattedString localtime False us @ ''.''"
  using calendar_text_split(3) [OF assms] by (simp_all add: toFormattedString_def Let_def)

text \<open>The pieces that one statement puts into its stream, and their text.\<close>

definition header_args :: "(int \<Rightarrow> tm) \<Rightarrow> int \<Rightarrow> thread_info \<Rightarrow> string \<Rightarrow> stream_arg list" where
  "header_args localtime now ti name =
     [SGeneral (snprintf_to (t_timer ti) (calendar_text (localtime (c_div now kMicroSecondsPerSecond)))) 17,
      SGeneral (snprintf_to (replicate 32 (char_of (0::nat))) (fmt_0d 6 (c_mod now kMicroSecondsPerSecond) @ '' '')) 7,
      SGeneral name 6]"

definition trailer_args :: "string \<Rightarrow> int \<Rightarrow> stream_arg list" where
  "trailer_args base ln = [SCstr '' - '', SGeneral base (length base), SChar (CHR '':''), SInt ln, SChar (CHR 0x0A)]"

lemma log_statement_pieces:
  assumes "getLevelName lvl = Inr name"
  shows "log_statement localtime strerror_r now ti memory filename ln lvl args =
    bind_result (LogStream_puts (FixedBuffer memory) (header_args localtime now ti name @ args @ trailer_args (SourceFile filename) ln))
      (\<lambda>s. Inr (FixedBuffer_toString s, lvl = FATAL))"
  using assms
  by (auto simp: log_statement_def Logger_def Impl_def formatTime_def Let_def header_args_def trailer_args_def
      Logger_dtor_def Logger_finish_def LogStream_puts_append bind_result_def simp del: LogStream_put.simps
      split: sum.splits)

lemma header_text:
  assumes "length (t_timer ti) = 64" and "tm_ok (localtime (c_div now kMicroSecondsPerSecond))" and "0 \<le> now"
    and "length name = 6"
  shows "concat (map arg_text (header_args localtime now ti name)) =
      minute_text (localtime (c_div now kMicroSecondsPerSecond)) @
      fmt_0d 6 (now mod kMicroSecondsPerSecond) @ '' '' @ name"
    and "\<forall>a\<in>set (header_args localtime now ti name). arg_legal a"
    and "length (concat (map arg_text (header_args localtime now ti name))) = 30"
proof -
  have m: "c_mod now kMicroSecondsPerSecond = now mod kMicroSecondsPerSecond"
    using assms(3) by (simp add: c_mod_nonneg kMicroSecondsPerSecond_def)
  have l6: "length (fmt_0d 6 (now mod kMicroSecondsPerSecond)) = 6"
    by (rule length_fmt_0d_6) (simp_all add: kMicroSecondsPerSecond_def)
  let ?t = "localtime (c_div now kMicroSecondsPerSecond)"
  have c17: "take 17 (snprintf_to (t_timer ti) (calendar_text ?t)) = minute_text ?t"
    using assms(1) calendar_text_split [OF assms(2)] by (simp add: take_snprintf_to)
  have c7: "take 7 (snprintf_to (replicate 32 (char_of (0::nat))) (fmt_0d 6 (now mod kMicroSecondsPerSecond) @ '' '')) =
      fmt_0d 6 (now mod kMicroSecondsPerSecond) @ '' ''"
    using l6 by (simp add: take_snprintf_to)
  show eq: "concat (map arg_text (header_args localtime now ti name)) =
      minute_text ?t @ fmt_0d 6 (now mod kMicroSecondsPerSecond) @ '' '' @ name"
    using assms(4) c17 c7 by (simp add: header_args_def m)
  show "length (concat (map arg_text (header_args localtime now ti name))) = 30"
    unfolding eq using l6 calendar_text_split(2) [OF assms(2)] assms(4) by simp
  have "length (snprintf_to (t_timer ti) s) = 64" for s
    using assms(1) length_snprintf_to [of "t_timer ti" s] by fastforce
  then show "\<forall>a\<in>set (header_args localtime now ti name). arg_legal a"
    using assms(4) length_snprintf_to [of "replicate 32 (char_of (0::nat))"] by (simp add: header_args_def m)
qed

lemma trailer_text:
  "concat (map arg_text (trailer_args base ln)) = '' - '' @ base @ '':'' @ dec_int ln @ [CHR 0x0A]"
  "builtin_int ln \<Longrightarrow> \<forall>a\<in>set (trailer_args base ln). arg_legal a"
  by (simp_all add: trailer_args_def c_str_def char_of_def)

lemma getLevelName_length: "getLevelName lvl = Inr name \<Longrightarrow> length name = 6"
  by (cases lvl) auto

lemma log_statement_line:
  assumes mem: "length memory = kSmallBufferSize" and ti: "length (t_timer ti) = 64"
    and t: "tm_ok (localtime (now div kMicroSecondsPerSecond))" "0 \<le> now"
    and lvl: "getLevelName lvl = Inr name" and args: "\<forall>a\<in>set args. arg_legal a" and ln: "builtin_int ln"
    and len: "length (concat (map arg_text args)) + length (SourceFile filename) \<le> 3900"
  shows "log_statement localtime strerror_r now ti memory filename ln lvl args =
    Inr (minute_text (localtime (now div kMicroSecondsPerSecond)) @ fmt_0d 6 (now mod kMicroSecondsPerSecond) @ '' '' @ name @
         concat (map arg_text args) @ '' - '' @ SourceFile filename @ '':'' @ dec_int ln @ [CHR 0x0A], lvl = FATAL)"
proof -
  have d: "c_div now kMicroSecondsPerSecond = now div kMicroSecondsPerSecond"
    using t(2) by (simp add: c_div_nonneg kMicroSecondsPerSecond_def)
  let ?hd = "header_args localtime now ti name"
  let ?as = "?hd @ args @ trailer_args (SourceFile filename) ln"
  note h = header_text [OF ti _ t(2) getLevelName_length [OF lvl], of localtime, unfolded d, OF t(1)]
  have ok: "fixed_ok (FixedBuffer memory)" "FixedBuffer_toString (FixedBuffer memory) = []"
    using FixedBuffer_fixed_ok [of memory] mem by (fastforce simp: kSmallBufferSize_def)+
  have legal: "\<forall>a\<in>set ?as. arg_legal a" using h(2) args trailer_text(2) [OF ln] by auto
  have "length (concat (map arg_text ?as)) + kMaxNumberSize \<le> 4000"
    using h(3) len trailer_text(1) dec_int_length [OF ln] by (simp add: kMaxNumberSize_def)
  moreover have "avail (FixedBuffer memory) = 4000"
    using avail_ok [OF ok(1)] mem by (simp add: FixedBuffer_def kSmallBufferSize_def)
  ultimately have fit: "args_fit (avail (FixedBuffer memory)) ?as"
    using args_fit_total [OF legal] by simp
  obtain s where "LogStream_puts (FixedBuffer memory) ?as = Inr s"
    "FixedBuffer_toString s = concat (map arg_text ?as)"
    using LogStream_puts_fits [OF ok(1) legal fit] ok(2) by (metis append_Nil)
  then show ?thesis
    unfolding log_statement_pieces [OF lvl] by (simp add: h(1) trailer_text(1))
qed

section \<open>Properties\<close>

text \<open>
  a log statement whose pieces are not too long hands exactly one complete line to the output:
  the date up to the minute, the microseconds, the level, the inserted pieces in order, the name
  of the source file without its directories, the line number and a newline; the process ends
  after it exactly for a fatal line.
\<close>

theorem log_line_complete:
  assumes "length memory = kSmallBufferSize" and "length (t_timer ti) = 64"
    and "tm_ok (localtime (now div kMicroSecondsPerSecond))" and "0 \<le> now"
    and "getLevelName lvl = Inr name" and "\<forall>a\<in>set args. arg_legal a" and "builtin_int ln"
    and "length (concat (map arg_text args)) + length (SourceFile filename) \<le> 3900"
  shows "\<exists>head dir base. log_statement localtime strerror_r now ti memory filename ln lvl args =
      Inr (head @ name @ concat (map arg_text args) @ '' - '' @ base @ '':'' @ dec_int ln @ [CHR 0x0A], lvl = FATAL) \<and>
    head = minute_text (localtime (now div kMicroSecondsPerSecond)) @ fmt_0d 6 (now mod kMicroSecondsPerSecond) @ '' '' \<and>
    length head = 24 \<and> filename = dir @ base \<and> CHR ''/'' \<notin> set base"
proof -
  obtain dir where "filename = dir @ SourceFile filename" "CHR ''/'' \<notin> set (SourceFile filename)"
    using SourceFile_ok by blast
  moreover have "length (minute_text (localtime (now div kMicroSecondsPerSecond))) = 17"
    using calendar_text_split(2) [OF assms(3)] .
  moreover have "length (fmt_0d 6 (now mod kMicroSecondsPerSecond)) = 6"
    by (rule length_fmt_0d_6) (simp_all add: kMicroSecondsPerSecond_def)
  ultimately show ?thesis
    using log_statement_line [where localtime = localtime and now = now, OF assms, of strerror_r]
    by (intro exI [of _ "minute_text (localtime (now div kMicroSecondsPerSecond)) @ fmt_0d 6 (now mod kMicroSecondsPerSecond) @ '' ''"]
        exI [of _ dir] exI [of _ "SourceFile filename"]) simp
qed

definition sample_tm :: tm where
  "sample_tm = \<lparr>tm_year = 125, tm_mon = 4, tm_mday = 13, tm_hour = 13, tm_min = 44, tm_sec = 52\<rparr>"

theorem log_line_complete_witness:
  "\<exists>head dir base. log_statement (\<lambda>_. sample_tm) (\<lambda>_. []) 1747143892002120 \<lparr>t_timer = replicate 64 (CHR 0x00), t_lastSecond = 0\<rparr>
      (replicate 4000 (CHR 0x00)) ''src/Channel.cc'' 73 INFO [SCstr ''revents:'', SInt 1] =
      Inr (head @ ''INFO  '' @ ''revents:'' @ ''1'' @ '' - '' @ base @ '':'' @ dec_int 73 @ [CHR 0x0A], False) \<and>
    ''src/Channel.cc'' = dir @ base \<and> CHR ''/'' \<notin> set base \<and> length head = 24"
proof -
  let ?args = "[SCstr ''revents:'', SInt 1]"
  have ok: "tm_ok sample_tm" by (simp add: tm_ok_def sample_tm_def)
  have shown: "concat (map arg_text ?args) = ''revents:'' @ ''1''"
    by (simp add: c_str_def dec_int_def dec_nat.simps digit_char_def char_of_def bit_0)
  let ?ti = "\<lparr>t_timer = replicate 64 (CHR 0x00), t_lastSecond = 0\<rparr>"
  let ?mem = "replicate 4000 (CHR 0x00)"
  have h: "length ?mem = kSmallBufferSize" "length (t_timer ?ti) = 64" "(0::int) \<le> 1747143892002120"
    "getLevelName INFO = Inr ''INFO  ''" "\<forall>a\<in>set ?args. arg_legal a" "builtin_int 73"
    "length (concat (map arg_text ?args)) + length (SourceFile ''src/Channel.cc'') \<le> 3900"
    unfolding shown by (simp_all add: kSmallBufferSize_def builtin_int_def SourceFile_def)
  obtain head dir base where "log_statement (\<lambda>_. sample_tm) (\<lambda>_. []) 1747143892002120 ?ti ?mem ''src/Channel.cc'' 73 INFO ?args =
      Inr (head @ ''INFO  '' @ concat (map arg_text ?args) @ '' - '' @ base @ '':'' @ dec_int 73 @ [CHR 0x0A], INFO = FATAL)"
    "length head = 24" "''src/Channel.cc'' = dir @ base" "CHR ''/'' \<notin> set base"
    using log_line_complete [where localtime = "\<lambda>_. sample_tm" and now = 1747143892002120 and strerror_r = "\<lambda>_. []",
        OF h(1,2) ok h(3-7)] by blast
  then show ?thesis unfolding shown by (intro exI [of _ head] exI [of _ dir] exI [of _ base]) simp
qed

text \<open>
  the seconds never reach the log. The calendar text has 19 characters, the logger copies 17 of
  them, so two statements whose times differ in the seconds only produce the same line.
\<close>

theorem log_line_without_seconds:
  assumes "length memory = kSmallBufferSize" and "length (t_timer ti) = 64"
    and "tm_ok (localtime (now div kMicroSecondsPerSecond))" and "tm_ok (localtime (now' div kMicroSecondsPerSecond))"
    and "0 \<le> now" and "0 \<le> now'" and "getLevelName lvl = Inr name" and "\<forall>a\<in>set args. arg_legal a" and "builtin_int ln"
    and "length (concat (map arg_text args)) + length (SourceFile filename) \<le> 3900"
    and "now mod kMicroSecondsPerSecond = now' mod kMicroSecondsPerSecond"
    and "localtime (now' div kMicroSecondsPerSecond) = (localtime (now div kMicroSecondsPerSecond))\<lparr>tm_sec := s'\<rparr>"
  shows "log_statement localtime strerror_r now ti memory filename ln lvl args =
    log_statement localtime strerror_r now' ti memory filename ln lvl args"
proof -
  have "minute_text (t\<lparr>tm_sec := s'\<rparr>) = minute_text t" for t by (simp add: minute_text_def)
  then show ?thesis
    using log_statement_line [where localtime = localtime and now = now, OF assms(1-3,5,7-10), of strerror_r]
      log_statement_line [where localtime = localtime and now = now', OF assms(1,2,4,6,7-10), of strerror_r] assms(11,12) by simp
qed

theorem log_line_without_seconds_witness:
  "log_statement (\<lambda>s. sample_tm\<lparr>tm_sec := s mod 60\<rparr>) (\<lambda>_. []) 1000007 \<lparr>t_timer = replicate 64 (CHR 0x00), t_lastSecond = 0\<rparr>
      (replicate 4000 (CHR 0x00)) ''main.cc'' 40 INFO [] =
   log_statement (\<lambda>s. sample_tm\<lparr>tm_sec := s mod 60\<rparr>) (\<lambda>_. []) 42000007 \<lparr>t_timer = replicate 64 (CHR 0x00), t_lastSecond = 0\<rparr>
      (replicate 4000 (CHR 0x00)) ''main.cc'' 40 INFO []"
proof (rule log_line_without_seconds)
  show "length (concat (map arg_text [])) + length (SourceFile ''main.cc'') \<le> 3900"
    by (simp add: SourceFile_def)
  show "sample_tm\<lparr>tm_sec := 42000007 div kMicroSecondsPerSecond mod 60\<rparr> =
      (sample_tm\<lparr>tm_sec := 1000007 div kMicroSecondsPerSecond mod 60\<rparr>)\<lparr>tm_sec := 42\<rparr>"
    by (simp add: kMicroSecondsPerSecond_def)
qed (auto simp: kSmallBufferSize_def tm_ok_def sample_tm_def builtin_int_def kMicroSecondsPerSecond_def)

end
