(* ===== verification/LogFile.thy ===== *)
theory LogFile
  imports Prelude
begin

text \<open>
  The log file of the back end: \<^verbatim>\<open>FileUtil\<close> (\<^verbatim>\<open>include/FileUtil.h\<close>, \<^verbatim>\<open>log/FileUtil.cc\<close>) writes through
  \<^verbatim>\<open>stdio\<close>, \<^verbatim>\<open>LogFile\<close> (\<^verbatim>\<open>include/LogFile.h\<close>, \<^verbatim>\<open>log/LogFile.cc\<close>) rolls to a new file by size and by day and
  flushes by time. What \<^verbatim>\<open>fwrite_unlocked\<close> accepts, whether \<^verbatim>\<open>fopen\<close> succeeds, the readings of the
  clock and the text of \<^verbatim>\<open>strftime\<close> are parameters. The files that were closed by rolling are kept in
  the model, so that nothing that was written disappears from sight.
\<close>

section \<open>FileUtil\<close>

record file_util =
  file_name :: string
  contents :: "char list"        \<comment> \<open>bytes accepted by the stream\<close>
  flushed :: nat                 \<comment> \<open>how many of them were passed on by \<^verbatim>\<open>fflush\<close>\<close>
  writtenBytes :: nat

definition FileUtil :: "(string \<Rightarrow> bool) \<Rightarrow> string \<Rightarrow> file_util result" where
  "FileUtil fopen name =
     (if fopen name then Inr \<lparr>file_name = name, contents = [], flushed = 0, writtenBytes = 0\<rparr>
      else Inl Null_deref)"

definition FileUtil_flush :: "file_util \<Rightarrow> file_util" where
  "FileUtil_flush f = f\<lparr>flushed := length (contents f)\<rparr>"

text \<open>
  The loop of \<open>append\<close>. \<open>fwrite remain\<close> gives the number of bytes accepted of \<open>remain\<close> offered ones and
  the error flag of the stream. The loop may run forever if the stream keeps accepting nothing
  without an error; \<open>None\<close> stands for that.
\<close>

partial_function (option) append_loop ::
    "(nat \<Rightarrow> nat \<times> bool) \<Rightarrow> char list \<Rightarrow> nat \<Rightarrow> file_util \<Rightarrow> (nat \<times> file_util) option" where
  "append_loop fwrite d writen f =
     (if writen \<noteq> length d
      then let remain = length d - writen; n = fst (fwrite remain); err = snd (fwrite remain);
               f' = f\<lparr>contents := contents f @ take n (drop writen d)\<rparr>
           in if n \<noteq> remain \<and> err then Some (writen, f')
              else append_loop fwrite d (writen + n) f'
      else Some (writen, f))"

definition FileUtil_append :: "(nat \<Rightarrow> nat \<times> bool) \<Rightarrow> char list \<Rightarrow> file_util \<Rightarrow> file_util option" where
  "FileUtil_append fwrite d f =
     map_option (\<lambda>(writen, f'). f'\<lparr>writtenBytes := writtenBytes f' + writen\<rparr>) (append_loop fwrite d 0 f)"

section \<open>LogFile\<close>

definition kRollPerSeconds :: int where "kRollPerSeconds = 60 * 60 * 24"

record log_file =
  basename_of :: string
  rollsize :: int
  flushInterval :: int
  checkEveryN :: int
  count :: int
  startOfPeriod :: int
  lastRoll :: int
  lastFlush :: int
  file_ptr :: "file_util option"
  closed :: "file_util list"

definition getLogFileName :: "(int \<Rightarrow> string) \<Rightarrow> string \<Rightarrow> int \<Rightarrow> string" where
  "getLogFileName strftime base now = base @ strftime now @ ''.log''"

text \<open>
  \<open>rollFile\<close> at clock reading \<open>now\<close>; \<^verbatim>\<open>file_.reset\<close> opens the new file and closes the old one, which
  flushes it.
\<close>

definition rollFile ::
    "(string \<Rightarrow> bool) \<Rightarrow> (int \<Rightarrow> string) \<Rightarrow> int \<Rightarrow> log_file \<Rightarrow> (bool \<times> log_file) result" where
  "rollFile fopen strftime now lf =
     (let filename = getLogFileName strftime (basename_of lf) now;
          start = c_div now kRollPerSeconds * kRollPerSeconds
      in if now > lastRoll lf
         then bind_result (FileUtil fopen filename)
                (\<lambda>f. Inr (True, lf\<lparr>lastFlush := now, lastRoll := now, startOfPeriod := start,
                     closed := closed lf @ (case file_ptr lf of None \<Rightarrow> [] | Some g \<Rightarrow> [FileUtil_flush g]),
                     file_ptr := Some f\<rparr>))
         else Inr (False, lf))"

text \<open>The constructor does not initialise \<open>count_\<close>; \<open>garbage\<close> is what the memory held.\<close>

definition LogFile ::
    "(string \<Rightarrow> bool) \<Rightarrow> (int \<Rightarrow> string) \<Rightarrow> int \<Rightarrow> string \<Rightarrow> int \<Rightarrow> int \<Rightarrow> int \<Rightarrow> int \<Rightarrow> log_file result" where
  "LogFile fopen strftime now base roll flushInt everyN garbage =
     bind_result (rollFile fopen strftime now
       \<lparr>basename_of = base, rollsize = roll, flushInterval = flushInt, checkEveryN = everyN, count = garbage,
        startOfPeriod = 0, lastRoll = 0, lastFlush = 0, file_ptr = None, closed = []\<rparr>)
     (\<lambda>(rolled, lf). Inr lf)"

definition LogFile_flush :: "log_file \<Rightarrow> log_file result" where
  "LogFile_flush lf = (case file_ptr lf of None \<Rightarrow> Inl Null_deref | Some f \<Rightarrow> Inr (lf\<lparr>file_ptr := Some (FileUtil_flush f)\<rparr>))"

text \<open>
  \<open>appendInlock\<close>: \<open>now\<close> is the reading it takes, \<open>now'\<close> the one a roll takes later. \<open>None\<close>: the write
  loop does not end. The check whether to roll is \<open>roll_check\<close>. The counter is taken unbounded; the code's \<^verbatim>\<open>int\<close> would overflow at its maximum.
\<close>

definition roll_check ::
    "(string \<Rightarrow> bool) \<Rightarrow> (int \<Rightarrow> string) \<Rightarrow> int \<Rightarrow> int \<Rightarrow> file_util \<Rightarrow> log_file \<Rightarrow> log_file result" where
  "roll_check fopen strftime now now' f lf =
     (if int (writtenBytes f) > rollsize lf
      then bind_result (rollFile fopen strftime now' lf) (\<lambda>(b, lf'). Inr lf')
      else if count lf \<ge> checkEveryN lf
      then let lf' = lf\<lparr>count := 0\<rparr>; thisPeriod = c_div now kRollPerSeconds * kRollPerSeconds
           in if thisPeriod \<noteq> startOfPeriod lf'
              then bind_result (rollFile fopen strftime now' lf') (\<lambda>(b, lf''). Inr lf'')
              else Inr lf'
      else Inr lf)"

definition appendInlock ::
    "(nat \<Rightarrow> nat \<times> bool) \<Rightarrow> (string \<Rightarrow> bool) \<Rightarrow> (int \<Rightarrow> string) \<Rightarrow> int \<Rightarrow> int \<Rightarrow> char list \<Rightarrow> log_file
      \<Rightarrow> log_file result option" where
  "appendInlock fwrite fopen strftime now now' d lf =
     (case file_ptr lf of None \<Rightarrow> Some (Inl Null_deref)
      | Some f \<Rightarrow>
        (case FileUtil_append fwrite d f of None \<Rightarrow> None
         | Some f' \<Rightarrow> Some (
             bind_result (roll_check fopen strftime now now' f' (lf\<lparr>file_ptr := Some f', count := count lf + 1\<rparr>))
               (\<lambda>lf'. if now - lastFlush lf' > flushInterval lf'
                      then LogFile_flush (lf'\<lparr>lastFlush := now\<rparr>) else Inr lf'))))"

section \<open>Lemmas\<close>

text \<open>The documented contract of \<^verbatim>\<open>fwrite\<close>: a short count only with the error flag set.\<close>

definition fwrite_contract :: "(nat \<Rightarrow> nat \<times> bool) \<Rightarrow> bool" where
  "fwrite_contract fwrite \<longleftrightarrow> (\<forall>r. fst (fwrite r) \<le> r \<and> (fst (fwrite r) < r \<longrightarrow> snd (fwrite r)))"

definition fwrite_all :: "(nat \<Rightarrow> nat \<times> bool) \<Rightarrow> bool" where
  "fwrite_all fwrite \<longleftrightarrow> (\<forall>r. fst (fwrite r) = r)"

lemma append_loop_contract:
  assumes "fwrite_contract fwrite"
  shows "FileUtil_append fwrite d f =
    (let n = fst (fwrite (length d))
     in if d = [] then Some f
        else if n = length d then Some (f\<lparr>contents := contents f @ d, writtenBytes := writtenBytes f + length d\<rparr>)
        else Some (f\<lparr>contents := contents f @ take n d\<rparr>))"
proof (cases "d = []")
  case True
  then show ?thesis by (simp add: FileUtil_append_def append_loop.simps Let_def)
next
  case False
  have "fst (fwrite (length d)) \<noteq> length d \<Longrightarrow> snd (fwrite (length d))"
    using assms by (auto simp: fwrite_contract_def dest: le_neq_implies_less)
  with False show ?thesis
    by (auto simp: FileUtil_append_def append_loop.simps Let_def)
qed

text \<open>All bytes the log file has accepted, over all the files it was rolled to.\<close>

definition all_contents :: "log_file \<Rightarrow> char list" where
  "all_contents lf = concat (map contents (closed lf)) @ (case file_ptr lf of None \<Rightarrow> [] | Some f \<Rightarrow> contents f)"

lemma rollFile_ok:
  assumes "\<forall>n. fopen n" and "file_ptr lf \<noteq> None"
  shows "\<exists>lf'. bind_result (rollFile fopen strftime now lf) (\<lambda>(b, lf'). Inr lf') = Inr lf' \<and>
    file_ptr lf' \<noteq> None \<and> all_contents lf' = all_contents lf"
  using assms
  by (auto simp: rollFile_def Let_def FileUtil_def all_contents_def FileUtil_flush_def)

lemma FileUtil_append_all:
  assumes "fwrite_all fwrite"
  shows "FileUtil_append fwrite d f = Some (f\<lparr>contents := contents f @ d, writtenBytes := writtenBytes f + length d\<rparr>)"
proof -
  have "fwrite_contract fwrite" using assms by (simp add: fwrite_contract_def fwrite_all_def)
  from append_loop_contract [OF this] show ?thesis using assms by (auto simp: fwrite_all_def Let_def)
qed

lemma LogFile_flush_ok:
  assumes "file_ptr lf \<noteq> None"
  obtains lf' where "LogFile_flush lf = Inr lf'" and "file_ptr lf' \<noteq> None" and "all_contents lf' = all_contents lf"
    and "case file_ptr lf' of Some f \<Rightarrow> flushed f = length (contents f) | None \<Rightarrow> False"
  using assms by (auto simp: LogFile_flush_def all_contents_def FileUtil_flush_def)

lemma roll_check_ok:
  assumes "\<forall>n. fopen n" and "file_ptr lf \<noteq> None"
  shows "\<exists>lf'. roll_check fopen strftime now now' f lf = Inr lf' \<and> file_ptr lf' \<noteq> None \<and>
    all_contents lf' = all_contents lf"
proof -
  have lf': "file_ptr (lf\<lparr>count := 0\<rparr>) \<noteq> None" "all_contents (lf\<lparr>count := 0\<rparr>) = all_contents lf"
    using assms(2) by (simp_all add: all_contents_def)
  show ?thesis
    using rollFile_ok [OF assms(1) assms(2)] rollFile_ok [OF assms(1) lf'(1)] lf' assms(2)
    by (simp add: roll_check_def Let_def)
qed

lemma appendInlock_ok:
  assumes env: "fwrite_all fwrite" "\<forall>n. fopen n" and fp: "file_ptr lf \<noteq> None"
  obtains lf' where "appendInlock fwrite fopen strftime now now' d lf = Some (Inr lf')" and "file_ptr lf' \<noteq> None"
    and "all_contents lf' = all_contents lf @ d"
proof -
  obtain f where f: "file_ptr lf = Some f" using fp by blast
  define f1 where "f1 = f\<lparr>contents := contents f @ d, writtenBytes := writtenBytes f + length d\<rparr>"
  define lf1 where "lf1 = lf\<lparr>file_ptr := Some f1, count := count lf + 1\<rparr>"
  have lf1: "file_ptr lf1 \<noteq> None" "all_contents lf1 = all_contents lf @ d"
    by (simp_all add: lf1_def f1_def all_contents_def f)
  obtain lf2 where lf2: "roll_check fopen strftime now now' f1 lf1 = Inr lf2" "file_ptr lf2 \<noteq> None"
    "all_contents lf2 = all_contents lf @ d"
    using roll_check_ok [OF env(2) lf1(1)] lf1(2) by metis
  obtain g where g: "LogFile_flush (lf2\<lparr>lastFlush := now\<rparr>) = Inr g" "file_ptr g \<noteq> None" "all_contents g = all_contents lf2"
    using LogFile_flush_ok [of "lf2\<lparr>lastFlush := now\<rparr>"] lf2(2) by (auto simp: all_contents_def)
  have "appendInlock fwrite fopen strftime now now' d lf =
      Some (if now - lastFlush lf2 > flushInterval lf2 then LogFile_flush (lf2\<lparr>lastFlush := now\<rparr>) else Inr lf2)"
    using f lf2(1)
    by (simp add: appendInlock_def FileUtil_append_all [OF env(1)] f1_def [symmetric] lf1_def [symmetric])
  then show ?thesis using that g lf2 by (cases "now - lastFlush lf2 > flushInterval lf2") auto
qed

section \<open>Properties\<close>

text \<open>
  C37: writing a log record always ends when \<^verbatim>\<open>fwrite\<close> keeps its contract. The record is then in the
  file completely and counted, or the stream reported an error, some prefix of it is in the file
  and none of it is counted.
\<close>

theorem file_append_ends:
  assumes "fwrite_contract fwrite"
  shows "\<exists>f'. FileUtil_append fwrite d f = Some f' \<and>
    (contents f' = contents f @ d \<and> writtenBytes f' = writtenBytes f + length d \<or>
     snd (fwrite (length d)) \<and> (\<exists>n < length d. contents f' = contents f @ take n d) \<and> writtenBytes f' = writtenBytes f)"
proof -
  have "fst (fwrite (length d)) = length d \<or> fst (fwrite (length d)) < length d \<and> snd (fwrite (length d))"
    using assms by (auto simp: fwrite_contract_def dest: le_neq_implies_less)
  then show ?thesis
    by (auto simp: append_loop_contract [OF assms] Let_def)
qed

theorem file_append_ends_witness:
  "\<exists>f'. FileUtil_append (\<lambda>r. (min r 3, True)) ''record'' \<lparr>file_name = ''a'', contents = [], flushed = 0, writtenBytes = 0\<rparr> = Some f' \<and>
     (\<exists>n < 6. contents f' = take n ''record'') \<and> writtenBytes f' = 0"
proof -
  let ?f = "\<lparr>file_name = ''a'', contents = [], flushed = 0, writtenBytes = 0\<rparr>"
  have c: "fwrite_contract (\<lambda>r. (min r 3, True))" by (simp add: fwrite_contract_def)
  have "append_loop (\<lambda>r. (min r 3, True)) ''record'' 0 ?f = Some (0, ?f\<lparr>contents := ''rec''\<rparr>)"
    by (simp add: append_loop.simps)
  then have "FileUtil_append (\<lambda>r. (min r 3, True)) ''record'' ?f = Some (?f\<lparr>contents := ''rec''\<rparr>)"
    by (simp add: FileUtil_append_def)
  with file_append_ends [OF c, of "''record''" ?f] show ?thesis by (simp add: eval_nat_numeral)
qed

text \<open>The start of the day, in UTC, of a reading of the clock.\<close>

definition day_of :: "int \<Rightarrow> int" where
  "day_of t = c_div t kRollPerSeconds * kRollPerSeconds"

text \<open>
  C36: with a working file system an append to an open log file never fails, loses nothing and rolls exactly when it must. The record goes to the
  open file. If this file then holds more than \<open>rollsize\<close> bytes, or else the \<open>checkEveryN\<close>-th record since the last check falls into another day than
  the last roll, the file is closed, flushed, and an empty one named after the clock is opened, provided that the clock has advanced since the last
  roll; otherwise the same file stays open. The count starts again exactly when it has triggered a check, and the file that is open in the
  end is flushed exactly when the last flush is more than \<open>flushInterval\<close> seconds ago.
\<close>

theorem log_append_lossless:
  assumes "fwrite_all fwrite" and "\<forall>n. fopen n" and "file_ptr lf = Some f"
    and "f1 = f\<lparr>contents := contents f @ d, writtenBytes := writtenBytes f + length d\<rparr>"
    and "full = (int (writtenBytes f + length d) > rollsize lf)" and "checked = (\<not> full \<and> count lf + 1 \<ge> checkEveryN lf)"
    and "rolls = ((full \<or> checked \<and> day_of now \<noteq> startOfPeriod lf) \<and> lastRoll lf < now')"
    and "g = (if rolls then \<lparr>file_name = basename_of lf @ strftime now' @ ''.log'', contents = [], flushed = 0, writtenBytes = 0\<rparr> else f1)"
    and "late = (flushInterval lf < now - (if rolls then now' else lastFlush lf))"
  shows "\<exists>lf'. appendInlock fwrite fopen strftime now now' d lf = Some (Inr lf') \<and>
    all_contents lf' = all_contents lf @ d \<and>
    closed lf' = (if rolls then closed lf @ [FileUtil_flush f1] else closed lf) \<and>
    file_ptr lf' = Some (if late then FileUtil_flush g else g) \<and>
    count lf' = (if checked then 0 else count lf + 1) \<and>
    lastRoll lf' = (if rolls then now' else lastRoll lf) \<and> startOfPeriod lf' = (if rolls then day_of now' else startOfPeriod lf) \<and>
    lastFlush lf' = (if late then now else if rolls then now' else lastFlush lf)"
proof -
  define lf1 where "lf1 = lf\<lparr>file_ptr := Some f1, count := count lf + 1\<rparr>"
  define lf2 where "lf2 = (if checked then lf1\<lparr>count := 0\<rparr> else lf1)"
  define lf3 where "lf3 = (if rolls then lf2\<lparr>lastFlush := now', lastRoll := now', startOfPeriod := day_of now',
    closed := closed lf @ [FileUtil_flush f1], file_ptr := Some g\<rparr> else lf2)"
  have roll: "bind_result (rollFile fopen strftime now' lf2) (\<lambda>(b, lf'). Inr lf') = Inr lf3" if "full \<or> checked \<and> day_of now \<noteq> startOfPeriod lf"
    using that assms(2,7,8) by (auto simp: rollFile_def getLogFileName_def FileUtil_def day_of_def lf1_def lf2_def lf3_def Let_def)
  have "roll_check fopen strftime now now' f1 lf1 = Inr lf3"
  proof (cases "full \<or> checked \<and> day_of now \<noteq> startOfPeriod lf")
    case True
    from roll [OF True] True assms(4-6) show ?thesis by (auto simp: roll_check_def Let_def lf1_def lf2_def day_of_def)
  next
    case False
    then show ?thesis using assms(4-7) by (auto simp: roll_check_def Let_def lf1_def lf2_def lf3_def day_of_def)
  qed
  then have app: "appendInlock fwrite fopen strftime now now' d lf =
      Some (if now - lastFlush lf3 > flushInterval lf3 then LogFile_flush (lf3\<lparr>lastFlush := now\<rparr>) else Inr lf3)"
    by (simp add: appendInlock_def assms(3) FileUtil_append_all [OF assms(1)] assms(4) [symmetric] lf1_def [symmetric])
  have fields: "lastFlush lf3 = (if rolls then now' else lastFlush lf)" "flushInterval lf3 = flushInterval lf" "file_ptr lf3 = Some g"
    "closed lf3 = (if rolls then closed lf @ [FileUtil_flush f1] else closed lf)" "count lf3 = (if checked then 0 else count lf + 1)"
    "lastRoll lf3 = (if rolls then now' else lastRoll lf)" "startOfPeriod lf3 = (if rolls then day_of now' else startOfPeriod lf)"
    using assms(8) by (simp_all add: lf3_def lf2_def lf1_def)
  define lf4 where "lf4 = (if late then lf3\<lparr>lastFlush := now, file_ptr := Some (FileUtil_flush g)\<rparr> else lf3)"
  have "appendInlock fwrite fopen strftime now now' d lf = Some (Inr lf4)"
    using app fields assms(9) by (simp add: LogFile_flush_def lf4_def)
  moreover have "all_contents lf4 = all_contents lf @ d"
    using fields assms(3,4,8) by (auto simp: all_contents_def lf4_def FileUtil_flush_def)
  ultimately show ?thesis using fields by (intro exI [where x = lf4]) (simp add: lf4_def)
qed

definition sample_log :: log_file where
  "sample_log = \<lparr>basename_of = ''logs/main'', rollsize = 10, flushInterval = 3, checkEveryN = 1024, count = 0,
     startOfPeriod = 0, lastRoll = 5, lastFlush = 5,
     file_ptr = Some \<lparr>file_name = ''logs/main.5.log'', contents = ''hello '', flushed = 0, writtenBytes = 6\<rparr>, closed = []\<rparr>"

theorem log_append_lossless_witness:
  "\<exists>lf' g. appendInlock (\<lambda>r. (r, False)) (\<lambda>_. True) (\<lambda>t. ''.t'') 7 8 ''world!'' sample_log = Some (Inr lf') \<and>
     all_contents lf' = ''hello world!'' \<and> length (closed lf') = 1 \<and> file_ptr lf' = Some g \<and> contents g = [] \<and> lastRoll lf' = 8"
proof -
  let ?f = "\<lparr>file_name = ''logs/main.5.log'', contents = ''hello '', flushed = 0, writtenBytes = 6\<rparr>"
  have "fwrite_all (\<lambda>r. (r, False))" "\<forall>n. (\<lambda>_::string. True) n" "file_ptr sample_log = Some ?f"
    by (simp_all add: fwrite_all_def sample_log_def)
  from log_append_lossless [OF this refl refl refl refl refl refl, where d = "''world!''" and now = 7 and now' = 8 and strftime = "\<lambda>t. ''.t''"]
  show ?thesis by (auto simp: all_contents_def sample_log_def)
qed

text \<open>
  the size limit. After an append the open file holds at most \<open>rollsize\<close> counted bytes, or the
  clock has not advanced since the last roll; in that case the record stays in the old file.
\<close>

theorem log_append_size_bound:
  assumes "fwrite_all fwrite" and "\<forall>n. fopen n" and "file_ptr lf = Some f" and "0 \<le> rollsize lf"
    and "appendInlock fwrite fopen strftime now now' d lf = Some (Inr lf')"
  shows "\<exists>g. file_ptr lf' = Some g \<and> (int (writtenBytes g) \<le> rollsize lf' \<or> now' \<le> lastRoll lf)"
  using assms(2-5)
  by (auto simp: appendInlock_def FileUtil_append_all [OF assms(1)] roll_check_def rollFile_def FileUtil_def
      LogFile_flush_def FileUtil_flush_def Let_def split: if_splits)

theorem log_append_size_bound_witness:
  "\<exists>lf' g. appendInlock (\<lambda>r. (r, False)) (\<lambda>_. True) (\<lambda>t. ''.t'') 7 8 ''world!'' sample_log = Some (Inr lf') \<and>
     file_ptr lf' = Some g \<and> (int (writtenBytes g) \<le> rollsize lf' \<or> (8::int) \<le> 5)"
proof -
  have env: "fwrite_all (\<lambda>r. (r, False))" "\<forall>n. (\<lambda>_::string. True) n"
    by (simp_all add: fwrite_all_def)
  obtain lf' where r: "appendInlock (\<lambda>r. (r, False)) (\<lambda>_. True) (\<lambda>t. ''.t'') 7 8 ''world!'' sample_log = Some (Inr lf')"
  proof -
    have "file_ptr sample_log \<noteq> None" by (simp add: sample_log_def)
    from appendInlock_ok [OF env this] that show thesis by metis
  qed
  have "file_ptr sample_log = Some \<lparr>file_name = ''logs/main.5.log'', contents = ''hello '', flushed = 0, writtenBytes = 6\<rparr>"
    "0 \<le> rollsize sample_log" by (simp_all add: sample_log_def)
  from log_append_size_bound [OF env this r] r show ?thesis by (auto simp: sample_log_def)
qed

end
