(* ===== verification/AsyncLog.thy ===== *)
theory AsyncLog
  imports LogStream LogFile
begin

text \<open>
  Asynchronous logging, \<^verbatim>\<open>include/AsyncLogging.h\<close> and \<^verbatim>\<open>log/AsyncLogging.cc\<close>: front-end threads append
  lines to a current buffer under a mutex, the back-end thread exchanges the filled buffers for its
  two spare ones and writes them out. The back end is a step machine whose steps interleave with
  the appends and with \<^verbatim>\<open>stop\<close>; the two theories it builds on give the buffers and the file.
\<close>

section \<open>Shared state and the front end\<close>

record async =
  running :: bool
  currentBuffer :: fixed_buffer
  nextBuffer :: "fixed_buffer option"
  buffers :: "fixed_buffer list"

text \<open>The constructor; \<open>m1\<close> and \<open>m2\<close> are the memory of the two new buffers.\<close>

definition AsyncLogging :: "char list \<Rightarrow> char list \<Rightarrow> async" where
  "AsyncLogging m1 m2 = \<lparr>running = False, currentBuffer = FixedBuffer_bzero (FixedBuffer m1),
     nextBuffer = Some (FixedBuffer_bzero (FixedBuffer m2)), buffers = []\<rparr>"

text \<open>
  \<open>append(logline, len)\<close>, the critical section of a front-end thread; \<open>mem\<close> is the memory of the
  buffer that may be allocated. The result says whether the back end is notified.
\<close>

definition AsyncLogging_append :: "char list \<Rightarrow> async \<Rightarrow> char list \<Rightarrow> int \<Rightarrow> (bool \<times> async) result" where
  "AsyncLogging_append mem a logline len =
     (let n = nat (len mod 2 ^ 64) in
      if avail (currentBuffer a) > n
      then bind_result (FixedBuffer_append (currentBuffer a) logline n)
             (\<lambda>b. Inr (False, a\<lparr>currentBuffer := b\<rparr>))
      else let a1 = a\<lparr>buffers := buffers a @ [currentBuffer a]\<rparr>;
               a2 = (case nextBuffer a1 of
                       Some nb \<Rightarrow> a1\<lparr>currentBuffer := nb, nextBuffer := None\<rparr>
                     | None \<Rightarrow> a1\<lparr>currentBuffer := FixedBuffer mem\<rparr>)
           in bind_result (FixedBuffer_append (currentBuffer a2) logline n)
                (\<lambda>b. Inr (True, a2\<lparr>currentBuffer := b\<rparr>)))"

definition AsyncLogging_start :: "async \<Rightarrow> async" where
  "AsyncLogging_start a = a\<lparr>running := True\<rparr>"

definition AsyncLogging_stop :: "async \<Rightarrow> async" where
  "AsyncLogging_stop a = a\<lparr>running := False\<rparr>"

section \<open>The back-end thread\<close>

record backend =
  newbuffer1 :: "fixed_buffer option"
  newbuffer2 :: "fixed_buffer option"
  buffersToWrite :: "fixed_buffer list"
  outfile :: log_file

definition backend_init :: "char list \<Rightarrow> char list \<Rightarrow> log_file \<Rightarrow> backend" where
  "backend_init m1 m2 lf = \<lparr>newbuffer1 = Some (FixedBuffer_bzero (FixedBuffer m1)),
     newbuffer2 = Some (FixedBuffer_bzero (FixedBuffer m2)), buffersToWrite = [], outfile = lf\<rparr>"

text \<open>
  The rest of the critical section of one round: the current buffer joins the filled ones, the
  spare buffers take its place, and the filled ones are swapped into the back end. A moved-from
  spare is empty; taking an empty one would leave a null pointer where the front end writes.
\<close>

definition swap_buffers :: "async \<Rightarrow> backend \<Rightarrow> (async \<times> backend) result" where
  "swap_buffers a k =
     (case newbuffer1 k of None \<Rightarrow> Inl Null_deref
      | Some nb1 \<Rightarrow>
        let filled = buffers a @ [currentBuffer a];
            a1 = a\<lparr>currentBuffer := nb1\<rparr>;
            k1 = k\<lparr>newbuffer1 := None\<rparr>;
            (a2, k2) = (case nextBuffer a1 of
                          Some nb \<Rightarrow> (a1, k1)
                        | None \<Rightarrow> (a1\<lparr>nextBuffer := newbuffer2 k1\<rparr>, k1\<lparr>newbuffer2 := None\<rparr>))
        in Inr (a2\<lparr>buffers := buffersToWrite k2\<rparr>, k2\<lparr>buffersToWrite := filled\<rparr>))"

text \<open>Writing all filled buffers; \<open>ts\<close> are the clock readings of the appends.\<close>

fun write_buffers ::
    "(nat \<Rightarrow> nat \<times> bool) \<Rightarrow> (string \<Rightarrow> bool) \<Rightarrow> (int \<Rightarrow> string) \<Rightarrow> (nat \<Rightarrow> int \<times> int) \<Rightarrow> fixed_buffer list \<Rightarrow> log_file
      \<Rightarrow> log_file result option" where
  "write_buffers fwrite fopen strftime ts [] lf = Some (Inr lf)"
| "write_buffers fwrite fopen strftime ts (b # bs) lf =
     (case appendInlock fwrite fopen strftime (fst (ts 0)) (snd (ts 0)) (FixedBuffer_toString b) lf of
        None \<Rightarrow> None
      | Some (Inl e) \<Rightarrow> Some (Inl e)
      | Some (Inr lf') \<Rightarrow> write_buffers fwrite fopen strftime (\<lambda>n. ts (Suc n)) bs lf')"

text \<open>One \<^verbatim>\<open>if (!newbuffer) { newbuffer = back(); pop_back(); reset(); }\<close>: an empty vector has no back.\<close>

definition take_back :: "fixed_buffer option \<Rightarrow> fixed_buffer list \<Rightarrow> (fixed_buffer option \<times> fixed_buffer list) result" where
  "take_back nb bs =
     (case nb of Some b \<Rightarrow> Inr (nb, bs)
      | None \<Rightarrow> if bs = [] then Inl Out_of_bounds else Inr (Some (FixedBuffer_reset (last bs)), butlast bs))"

definition recycle_buffers :: "backend \<Rightarrow> backend result" where
  "recycle_buffers k =
     (let bs = (if length (buffersToWrite k) > 2 then take 2 (buffersToWrite k) else buffersToWrite k)
      in bind_result (take_back (newbuffer1 k) bs) (\<lambda>(nb1, bs1).
         bind_result (take_back (newbuffer2 k) bs1) (\<lambda>(nb2, bs2).
         bind_result (LogFile_flush (outfile k)) (\<lambda>lf.
         Inr (k\<lparr>newbuffer1 := nb1, newbuffer2 := nb2, buffersToWrite := [], outfile := lf\<rparr>)))))"

section \<open>The interleaved system\<close>

text \<open>
  Positions of the back-end thread: before the test of \<open>running_\<close>, about to lock, waiting on the
  condition variable (with the mutex released), writing, recycling, finished. \<open>failed\<close> stands for
  an operation that went wrong or did not end. \<open>lines\<close> records the lines the front end appended.
\<close>

datatype bpc = Top | Lock | Waiting | Writing | Recycling | Finished | Failed

record async_sys =
  shared :: async
  worker :: backend
  pc :: bpc
  lines :: "string list"

definition sys_swap :: "async_sys \<Rightarrow> async_sys" where
  "sys_swap s = (case swap_buffers (shared s) (worker s) of
      Inl e \<Rightarrow> s\<lparr>pc := Failed\<rparr> | Inr (a, k) \<Rightarrow> s\<lparr>shared := a, worker := k, pc := Writing\<rparr>)"

definition sys_write ::
    "(nat \<Rightarrow> nat \<times> bool) \<Rightarrow> (string \<Rightarrow> bool) \<Rightarrow> (int \<Rightarrow> string) \<Rightarrow> (nat \<Rightarrow> int \<times> int) \<Rightarrow> async_sys \<Rightarrow> async_sys" where
  "sys_write fwrite fopen strftime ts s =
     (case write_buffers fwrite fopen strftime ts (buffersToWrite (worker s)) (outfile (worker s)) of
        Some (Inr lf) \<Rightarrow> s\<lparr>worker := (worker s)\<lparr>outfile := lf\<rparr>, pc := Recycling\<rparr>
      | _ \<Rightarrow> s\<lparr>pc := Failed\<rparr>)"

definition sys_recycle :: "async_sys \<Rightarrow> async_sys" where
  "sys_recycle s = (case recycle_buffers (worker s) of
      Inl e \<Rightarrow> s\<lparr>pc := Failed\<rparr> | Inr k \<Rightarrow> s\<lparr>worker := k, pc := Top\<rparr>)"

definition sys_finish :: "async_sys \<Rightarrow> async_sys" where
  "sys_finish s = (case LogFile_flush (outfile (worker s)) of
      Inl e \<Rightarrow> s\<lparr>pc := Failed\<rparr> | Inr lf \<Rightarrow> s\<lparr>worker := (worker s)\<lparr>outfile := lf\<rparr>, pc := Finished\<rparr>)"

definition sys_append :: "char list \<Rightarrow> string \<Rightarrow> async_sys \<Rightarrow> async_sys" where
  "sys_append mem l s = (case AsyncLogging_append mem (shared s) l (int (length l)) of
      Inl e \<Rightarrow> s\<lparr>pc := Failed\<rparr> | Inr (n, a) \<Rightarrow> s\<lparr>shared := a, lines := lines s @ [l]\<rparr>)"

inductive async_step ::
    "(nat \<Rightarrow> nat \<times> bool) \<Rightarrow> (string \<Rightarrow> bool) \<Rightarrow> (int \<Rightarrow> string) \<Rightarrow> async_sys \<Rightarrow> async_sys \<Rightarrow> bool"
  for fwrite fopen strftime where
  front: "length l < kLargeBufferSize \<Longrightarrow> length mem = kLargeBufferSize \<Longrightarrow>
      async_step fwrite fopen strftime s (sys_append mem l s)"
| stop: "async_step fwrite fopen strftime s (s\<lparr>shared := AsyncLogging_stop (shared s)\<rparr>)"
| test_on: "pc s = Top \<Longrightarrow> running (shared s) \<Longrightarrow> async_step fwrite fopen strftime s (s\<lparr>pc := Lock\<rparr>)"
| test_off: "pc s = Top \<Longrightarrow> \<not> running (shared s) \<Longrightarrow> async_step fwrite fopen strftime s (sys_finish s)"
| lock_wait: "pc s = Lock \<Longrightarrow> buffers (shared s) = [] \<Longrightarrow> async_step fwrite fopen strftime s (s\<lparr>pc := Waiting\<rparr>)"
| lock_swap: "pc s = Lock \<Longrightarrow> buffers (shared s) \<noteq> [] \<Longrightarrow> async_step fwrite fopen strftime s (sys_swap s)"
| wake: "pc s = Waiting \<Longrightarrow> async_step fwrite fopen strftime s (sys_swap s)"
| write_out: "pc s = Writing \<Longrightarrow> async_step fwrite fopen strftime s (sys_write fwrite fopen strftime ts s)"
| recycle: "pc s = Recycling \<Longrightarrow> async_step fwrite fopen strftime s (sys_recycle s)"

text \<open>After the constructors and \<open>start()\<close>, with an open output file.\<close>

definition async_init :: "async_sys \<Rightarrow> bool" where
  "async_init s \<longleftrightarrow> (\<exists>m1 m2 m3 m4 lf. length m1 = kLargeBufferSize \<and> length m2 = kLargeBufferSize \<and>
     length m3 = kLargeBufferSize \<and> length m4 = kLargeBufferSize \<and> file_ptr lf \<noteq> None \<and> all_contents lf = [] \<and>
     s = \<lparr>shared = AsyncLogging_start (AsyncLogging m1 m2), worker = backend_init m3 m4 lf, pc = Top, lines = []\<rparr>)"

section \<open>Invariant\<close>

definition large_ok :: "fixed_buffer \<Rightarrow> bool" where
  "large_ok b \<longleftrightarrow> fixed_ok b \<and> length (data b) = kLargeBufferSize"

definition spare :: "fixed_buffer \<Rightarrow> bool" where
  "spare b \<longleftrightarrow> large_ok b \<and> FixedBuffer_toString b = []"

definition texts :: "fixed_buffer list \<Rightarrow> string" where
  "texts bs = concat (map FixedBuffer_toString bs)"

lemma texts_simps [simp]: "texts [] = []" "texts (b # bs) = FixedBuffer_toString b @ texts bs"
  "texts (bs @ bs') = texts bs @ texts bs'"
  by (simp_all add: texts_def)

text \<open>The front end: the current buffer is usable, and the reserve is missing only while buffers wait.\<close>

definition front_inv :: "async \<Rightarrow> bool" where
  "front_inv a \<longleftrightarrow> large_ok (currentBuffer a) \<and> (\<forall>b\<in>set (buffers a). large_ok b) \<and>
     (case nextBuffer a of None \<Rightarrow> buffers a \<noteq> [] | Some b \<Rightarrow> spare b)"

definition front_text :: "async \<Rightarrow> string" where
  "front_text a = texts (buffers a) @ FixedBuffer_toString (currentBuffer a)"

definition back_inv :: "bpc \<Rightarrow> backend \<Rightarrow> bool" where
  "back_inv p k \<longleftrightarrow> file_ptr (outfile k) \<noteq> None \<and>
     (if p = Writing \<or> p = Recycling
      then newbuffer1 k = None \<and> buffersToWrite k \<noteq> [] \<and> (\<forall>b\<in>set (buffersToWrite k). large_ok b) \<and>
           (case newbuffer2 k of None \<Rightarrow> 2 \<le> length (buffersToWrite k) | Some b \<Rightarrow> spare b)
      else buffersToWrite k = [] \<and> (\<exists>b1 b2. newbuffer1 k = Some b1 \<and> spare b1 \<and> newbuffer2 k = Some b2 \<and> spare b2))"

definition unwritten :: "bpc \<Rightarrow> backend \<Rightarrow> string" where
  "unwritten p k = (if p = Writing then texts (buffersToWrite k) else [])"

definition async_inv :: "async_sys \<Rightarrow> bool" where
  "async_inv s \<longleftrightarrow> pc s \<noteq> Failed \<and> front_inv (shared s) \<and> back_inv (pc s) (worker s) \<and>
     all_contents (outfile (worker s)) @ unwritten (pc s) (worker s) @ front_text (shared s) = concat (lines s)"

lemma spare_new: "length m = kLargeBufferSize \<Longrightarrow> spare (FixedBuffer m)"
  using FixedBuffer_fixed_ok [of m] by (fastforce simp: spare_def large_ok_def kLargeBufferSize_def FixedBuffer_def)

lemma spare_bzero: "length m = kLargeBufferSize \<Longrightarrow> spare (FixedBuffer_bzero (FixedBuffer m))"
  using spare_new [of "replicate kLargeBufferSize (char_of (0::nat))"]
  by (simp add: FixedBuffer_bzero_def FixedBuffer_def)

lemma spare_reset: "large_ok b \<Longrightarrow> spare (FixedBuffer_reset b)"
  using FixedBuffer_reset_ok [of b] by (simp add: spare_def large_ok_def)

lemma spare_avail: "spare b \<Longrightarrow> avail b = kLargeBufferSize"
  by (metis avail_ok diff_zero large_ok_def list.size(3) spare_def toString_length)

interpretation large_buffer: log_sink large_ok FixedBuffer_toString avail
  "\<lambda>b d. FixedBuffer_append b d (length d)" "\<lambda>_. True" "\<lambda>d. d" "\<lambda>d. Suc (length d)"
proof unfold_locales
  fix b and d :: string
  assume ok: "large_ok b" and room: "Suc (length d) \<le> avail b"
  then have ok': "fixed_ok b" and "length d < avail b" by (auto simp: large_ok_def)
  from append_stored [OF this] obtain b' where b': "FixedBuffer_append b d (length d) = Inr b'" "fixed_ok b'"
    "FixedBuffer_toString b' = FixedBuffer_toString b @ d" "length (data b') = length (data b)"
    by (metis order_refl take_all)
  have "cur b' = cur b + length d" "cur b' < length (data b')"
    using toString_length [OF ok'] toString_length [OF b'(2)] b'(2,3) by (auto simp: fixed_ok_def)
  then have "avail b' + length d = avail b" using avail_ok [OF ok'] avail_ok [OF b'(2)] b'(4) by simp
  then show "\<exists>b'. FixedBuffer_append b d (length d) = Inr b' \<and> large_ok b' \<and>
      FixedBuffer_toString b' = FixedBuffer_toString b @ d \<and> avail b' + length d = avail b"
    using b' ok by (auto simp: large_ok_def)
qed (simp add: append_dropped)

lemma large_append:
  assumes "large_ok b" and "length d < avail b"
  obtains b' where "FixedBuffer_append b d (length d) = Inr b'" and "large_ok b'"
    and "FixedBuffer_toString b' = FixedBuffer_toString b @ d"
  using large_buffer.put_whole [OF assms(1), of d] assms(2) by auto

lemma append_front:
  assumes inv: "front_inv a" and len: "length l < kLargeBufferSize" and mem: "length mem = kLargeBufferSize"
  obtains n a' where "AsyncLogging_append mem a l (int (length l)) = Inr (n, a')" and "front_inv a'"
    and "front_text a' = front_text a @ l" and "running a' = running a"
proof (cases "avail (currentBuffer a) > length l")
  case True
  then obtain b where "FixedBuffer_append (currentBuffer a) l (length l) = Inr b" "large_ok b"
    "FixedBuffer_toString b = FixedBuffer_toString (currentBuffer a) @ l"
    using large_append [of "currentBuffer a" l] inv by (auto simp: front_inv_def)
  then show ?thesis
    using that [of False "a\<lparr>currentBuffer := b\<rparr>"] True inv len
    by (auto simp: AsyncLogging_append_def front_inv_def front_text_def kLargeBufferSize_def nat_mod_distrib
        split: option.splits)
next
  case False
  define nb where "nb = (case nextBuffer a of Some nb \<Rightarrow> nb | None \<Rightarrow> FixedBuffer mem)"
  have sp: "spare nb"
    using inv spare_new [OF mem] by (auto simp: nb_def front_inv_def split: option.splits)
  then obtain b where b: "FixedBuffer_append nb l (length l) = Inr b" "large_ok b" "FixedBuffer_toString b = l"
    using large_append [of nb l] spare_avail [OF sp] len by (auto simp: spare_def)
  let ?a = "a\<lparr>buffers := buffers a @ [currentBuffer a], currentBuffer := b, nextBuffer := None\<rparr>"
  have "AsyncLogging_append mem a l (int (length l)) = Inr (True, ?a)"
    using False b(1) len
    by (auto simp: AsyncLogging_append_def nb_def Let_def kLargeBufferSize_def nat_mod_distrib split: option.splits)
  then show ?thesis
    using that b inv by (auto simp: front_inv_def front_text_def)
qed

lemma swap_ok:
  assumes "front_inv a" and "back_inv p k" and "p = Lock \<or> p = Waiting"
  obtains a' k' where "swap_buffers a k = Inr (a', k')" and "front_inv a'" and "back_inv Writing k'"
    and "outfile k' = outfile k" and "texts (buffersToWrite k') = front_text a" and "front_text a' = []"
proof -
  obtain b1 b2 where k: "newbuffer1 k = Some b1" "spare b1" "newbuffer2 k = Some b2" "spare b2"
    "buffersToWrite k = []" "file_ptr (outfile k) \<noteq> None"
    using assms(2,3) by (auto simp: back_inv_def)
  show ?thesis
  proof (cases "nextBuffer a")
    case None
    then show ?thesis
      using that [of "a\<lparr>currentBuffer := b1, nextBuffer := Some b2, buffers := []\<rparr>"
          "k\<lparr>newbuffer1 := None, newbuffer2 := None, buffersToWrite := buffers a @ [currentBuffer a]\<rparr>"] k assms(1)
      by (auto simp: swap_buffers_def front_inv_def back_inv_def front_text_def spare_def neq_Nil_conv)
  next
    case (Some nb)
    then show ?thesis
      using that [of "a\<lparr>currentBuffer := b1, buffers := []\<rparr>"
          "k\<lparr>newbuffer1 := None, buffersToWrite := buffers a @ [currentBuffer a]\<rparr>"] k assms(1)
      by (auto simp: swap_buffers_def front_inv_def back_inv_def front_text_def spare_def)
  qed
qed

lemma write_buffers_ok:
  assumes "fwrite_all fwrite" and "\<forall>n. fopen n"
  shows "file_ptr lf \<noteq> None \<Longrightarrow> \<exists>lf'. write_buffers fwrite fopen strftime ts bs lf = Some (Inr lf') \<and>
     file_ptr lf' \<noteq> None \<and> all_contents lf' = all_contents lf @ texts bs"
proof (induction bs arbitrary: lf ts)
  case (Cons b bs)
  obtain lf1 where lf1: "appendInlock fwrite fopen strftime (fst (ts 0)) (snd (ts 0)) (FixedBuffer_toString b) lf = Some (Inr lf1)"
    "file_ptr lf1 \<noteq> None" "all_contents lf1 = all_contents lf @ FixedBuffer_toString b"
    using appendInlock_ok [OF assms Cons.prems] by metis
  with Cons.IH [OF lf1(2), of "\<lambda>n. ts (Suc n)"] show ?case by auto
qed simp

lemma take_back_ok:
  assumes "case nb of None \<Rightarrow> bs \<noteq> [] | Some b \<Rightarrow> spare b" and "\<forall>b\<in>set bs. large_ok b"
  obtains b bs' where "take_back nb bs = Inr (Some b, bs')" and "spare b" and "\<forall>b\<in>set bs'. large_ok b"
    and "length bs \<le> Suc (length bs')"
  using assms by (cases nb) (auto simp: take_back_def spare_reset dest: in_set_butlastD)

lemma recycle_ok:
  assumes "back_inv Recycling k"
  obtains k' where "recycle_buffers k = Inr k'" and "back_inv Top k'" and "all_contents (outfile k') = all_contents (outfile k)"
proof -
  define bs where "bs = (if length (buffersToWrite k) > 2 then take 2 (buffersToWrite k) else buffersToWrite k)"
  have k: "newbuffer1 k = None" "file_ptr (outfile k) \<noteq> None" "bs \<noteq> []" "\<forall>b\<in>set bs. large_ok b"
    "case newbuffer2 k of None \<Rightarrow> 2 \<le> length bs | Some b \<Rightarrow> spare b"
    using assms by (auto simp: back_inv_def bs_def split: option.splits dest: in_set_takeD)
  obtain b1 bs1 where t1: "take_back (newbuffer1 k) bs = Inr (Some b1, bs1)" "spare b1" "\<forall>b\<in>set bs1. large_ok b"
    "length bs \<le> Suc (length bs1)"
    using take_back_ok [where nb = "newbuffer1 k" and bs = bs] k by auto
  have "case newbuffer2 k of None \<Rightarrow> bs1 \<noteq> [] | Some b \<Rightarrow> spare b"
    using k(5) t1(4) by (auto split: option.splits)
  then obtain b2 bs2 where t2: "take_back (newbuffer2 k) bs1 = Inr (Some b2, bs2)" "spare b2"
    using take_back_ok [where nb = "newbuffer2 k" and bs = bs1] t1(3) by metis
  obtain lf where lf: "LogFile_flush (outfile k) = Inr lf" "file_ptr lf \<noteq> None" "all_contents lf = all_contents (outfile k)"
    using LogFile_flush_ok [OF k(2)] .
  show ?thesis
    using that [of "k\<lparr>newbuffer1 := Some b1, newbuffer2 := Some b2, buffersToWrite := [], outfile := lf\<rparr>"] t1 t2 lf
    by (simp add: recycle_buffers_def bs_def [symmetric] back_inv_def)
qed

lemma back_inv_idle: "back_inv p k \<Longrightarrow> p \<noteq> Writing \<Longrightarrow> p \<noteq> Recycling \<Longrightarrow> q \<noteq> Writing \<Longrightarrow> q \<noteq> Recycling \<Longrightarrow> back_inv q k"
  by (simp add: back_inv_def)

lemma sys_append_inv:
  assumes "async_inv s" and "length l < kLargeBufferSize" and "length mem = kLargeBufferSize"
  shows "async_inv (sys_append mem l s)" and "lines (sys_append mem l s) = lines s @ [l]"
proof -
  have f: "front_inv (shared s)" using assms(1) by (simp add: async_inv_def)
  obtain n a' where a': "AsyncLogging_append mem (shared s) l (int (length l)) = Inr (n, a')" "front_inv a'"
    "front_text a' = front_text (shared s) @ l"
    using append_front [OF f assms(2,3)] by blast
  show "lines (sys_append mem l s) = lines s @ [l]" using a' by (simp add: sys_append_def)
  have "all_contents (outfile (worker s)) @ unwritten (pc s) (worker s) @ front_text (shared s) @ l = concat (lines s) @ l"
    using assms(1) unfolding async_inv_def by (metis append.assoc)
  then show "async_inv (sys_append mem l s)" using a' assms(1) by (simp add: sys_append_def async_inv_def)
qed

lemma sys_swap_inv:
  assumes "async_inv s" and "pc s = Lock \<or> pc s = Waiting"
  shows "async_inv (sys_swap s)"
proof -
  obtain a' k' where "swap_buffers (shared s) (worker s) = Inr (a', k')" "front_inv a'" "back_inv Writing k'"
    "outfile k' = outfile (worker s)" "texts (buffersToWrite k') = front_text (shared s)" "front_text a' = []"
    using swap_ok [of "shared s" "pc s" "worker s"] assms by (auto simp: async_inv_def)
  then show ?thesis using assms by (auto simp: sys_swap_def async_inv_def unwritten_def)
qed

lemma sys_write_inv:
  assumes "fwrite_all fwrite" and "\<forall>n. fopen n" and "async_inv s" and "pc s = Writing"
  shows "async_inv (sys_write fwrite fopen strftime ts s)"
proof -
  have "file_ptr (outfile (worker s)) \<noteq> None" using assms by (simp add: async_inv_def back_inv_def)
  from write_buffers_ok [OF assms(1,2) this] obtain lf where
    "write_buffers fwrite fopen strftime ts (buffersToWrite (worker s)) (outfile (worker s)) = Some (Inr lf)"
    "file_ptr lf \<noteq> None" "all_contents lf = all_contents (outfile (worker s)) @ texts (buffersToWrite (worker s))" by blast
  then show ?thesis using assms(3,4) by (auto simp: sys_write_def async_inv_def back_inv_def unwritten_def split: option.splits)
qed

lemma sys_recycle_inv:
  assumes "async_inv s" and "pc s = Recycling"
  shows "async_inv (sys_recycle s)"
proof -
  obtain k' where "recycle_buffers (worker s) = Inr k'" "back_inv Top k'" "all_contents (outfile k') = all_contents (outfile (worker s))"
    using recycle_ok [of "worker s"] assms by (auto simp: async_inv_def)
  then show ?thesis using assms by (auto simp: sys_recycle_def async_inv_def unwritten_def)
qed

lemma sys_finish_inv:
  assumes "async_inv s" and "pc s = Top"
  shows "async_inv (sys_finish s)"
proof -
  have "file_ptr (outfile (worker s)) \<noteq> None" using assms by (simp add: async_inv_def back_inv_def)
  then obtain lf where "LogFile_flush (outfile (worker s)) = Inr lf" "file_ptr lf \<noteq> None"
    "all_contents lf = all_contents (outfile (worker s))" using LogFile_flush_ok by metis
  then show ?thesis using assms by (auto simp: sys_finish_def async_inv_def back_inv_def unwritten_def)
qed

lemma sys_stop_inv: "async_inv s \<Longrightarrow> async_inv (s\<lparr>shared := AsyncLogging_stop (shared s)\<rparr>)"
  by (auto simp: async_inv_def front_inv_def front_text_def AsyncLogging_stop_def split: option.splits)

lemma sys_move_inv:
  "async_inv s \<Longrightarrow> pc s \<in> {Top, Lock} \<Longrightarrow> q \<in> {Lock, Waiting} \<Longrightarrow> async_inv (s\<lparr>pc := q\<rparr>)"
  by (auto simp: async_inv_def back_inv_def unwritten_def)

lemma async_step_inv:
  assumes "async_step fwrite fopen strftime s t" and "fwrite_all fwrite" and "\<forall>n. fopen n" and "async_inv s"
  shows "async_inv t"
  using assms(1)
  by (cases rule: async_step.cases)
    (simp_all add: assms(2-4) sys_append_inv sys_write_inv sys_swap_inv sys_recycle_inv sys_finish_inv
      sys_stop_inv sys_move_inv)

lemma async_init_inv: "async_init s \<Longrightarrow> async_inv s"
  unfolding async_init_def
  using spare_bzero
  by (auto simp: async_inv_def AsyncLogging_def AsyncLogging_start_def backend_init_def front_inv_def back_inv_def
      front_text_def unwritten_def spare_def)

lemma async_reach_inv:
  assumes "fwrite_all fwrite" and "\<forall>n. fopen n" and "reach async_init (async_step fwrite fopen strftime) s"
  shows "async_inv s"
  by (rule reach_invariant [where I = async_inv, OF assms(3)])
    (use async_init_inv async_step_inv assms(1,2) in blast)+

section \<open>Properties\<close>

text \<open>
  C14: in every interleaving of appending front-end threads, of \<open>stop()\<close> and of the back-end thread,
  over a working file system, no operation of the logging system fails: no spare buffer is missing
  when it is needed and nothing is written outside a buffer. The bytes in the log files, followed
  by those handed to the back end and not yet written and by those in the front-end buffers, are
  exactly all appended lines in order: none is lost, duplicated or reordered.
\<close>

theorem async_log_conserves:
  assumes "fwrite_all fwrite" and "\<forall>n. fopen n" and "reach async_init (async_step fwrite fopen strftime) s"
  shows "pc s \<noteq> Failed \<and>
    all_contents (outfile (worker s)) @ (if pc s = Writing then texts (buffersToWrite (worker s)) else []) @
      texts (buffers (shared s)) @ FixedBuffer_toString (currentBuffer (shared s)) = concat (lines s)"
  using async_reach_inv [OF assms] by (simp add: async_inv_def front_text_def unwritten_def)

definition sample_sys :: async_sys where
  "sample_sys = \<lparr>shared = AsyncLogging_start (AsyncLogging (replicate kLargeBufferSize (CHR 0x00)) (replicate kLargeBufferSize (CHR 0x00))),
     worker = backend_init (replicate kLargeBufferSize (CHR 0x00)) (replicate kLargeBufferSize (CHR 0x00))
       (sample_log\<lparr>file_ptr := Some \<lparr>file_name = ''logs/main.log'', contents = [], flushed = 0, writtenBytes = 0\<rparr>\<rparr>),
     pc = Top, lines = []\<rparr>"

definition sample_mem :: "char list" where "sample_mem = replicate kLargeBufferSize (CHR 0x00)"

lemma sample_sys_init: "async_init sample_sys"
  unfolding async_init_def
  by (intro exI [of _ sample_mem] exI [of _ "sample_log\<lparr>file_ptr := Some \<lparr>file_name = ''logs/main.log'', contents = [], flushed = 0, writtenBytes = 0\<rparr>\<rparr>"])
     (simp add: sample_sys_def sample_mem_def all_contents_def sample_log_def)

lemma sample_sys_reach: "reach async_init (async_step fwrite fopen strftime) sample_sys"
  by (rule reach.reach_init) (rule sample_sys_init)

theorem async_log_conserves_witness:
  "pc (sys_append sample_mem ''one line'' sample_sys) \<noteq> Failed \<and>
   lines (sys_append sample_mem ''one line'' sample_sys) = [''one line'']"
proof -
  let ?fw = "\<lambda>r::nat. (r, False)" and ?fo = "\<lambda>_::string. True" and ?st = "\<lambda>_::int. ''.t''"
  have len: "length ''one line'' < kLargeBufferSize" "length sample_mem = kLargeBufferSize"
    by (simp_all add: kLargeBufferSize_def sample_mem_def)
  have "reach async_init (async_step ?fw ?fo ?st) (sys_append sample_mem ''one line'' sample_sys)"
    by (rule reach.reach_step, rule sample_sys_reach, rule async_step.front) (rule len)+
  from async_log_conserves [OF _ _ this] have "pc (sys_append sample_mem ''one line'' sample_sys) \<noteq> Failed"
    by (simp add: fwrite_all_def)
  moreover have "lines (sys_append sample_mem ''one line'' sample_sys) = [''one line'']"
    using sys_append_inv(2) [OF async_init_inv [OF sample_sys_init] len] by (simp add: sample_sys_def)
  ultimately show ?thesis by simp
qed

text \<open>
  one round of the back end writes everything that was appended before it took the buffers:
  from any reachable state at the lock, exchanging and writing brings all lines appended so far
  into the log files.
\<close>

theorem async_round_writes_all:
  assumes "fwrite_all fwrite" and "\<forall>n. fopen n" and "reach async_init (async_step fwrite fopen strftime) s"
    and "pc s = Lock \<or> pc s = Waiting"
  shows "pc (sys_write fwrite fopen strftime ts (sys_swap s)) = Recycling \<and>
    all_contents (outfile (worker (sys_write fwrite fopen strftime ts (sys_swap s)))) = concat (lines s)"
proof -
  have inv: "async_inv s" using async_reach_inv [OF assms(1-3)] .
  obtain a' k' where k': "swap_buffers (shared s) (worker s) = Inr (a', k')" "back_inv Writing k'"
    "outfile k' = outfile (worker s)" "texts (buffersToWrite k') = front_text (shared s)"
    using swap_ok [of "shared s" "pc s" "worker s"] inv assms(4) unfolding async_inv_def by metis
  have "file_ptr (outfile k') \<noteq> None" using k'(2) by (simp add: back_inv_def)
  from write_buffers_ok [OF assms(1,2) this] obtain lf where
    "write_buffers fwrite fopen strftime ts (buffersToWrite k') (outfile k') = Some (Inr lf)"
    "all_contents lf = all_contents (outfile k') @ texts (buffersToWrite k')" by blast
  then show ?thesis
    using k' inv assms(4) by (auto simp: sys_swap_def sys_write_def async_inv_def unwritten_def)
qed

theorem async_round_writes_all_witness:
  "all_contents (outfile (worker (sys_write (\<lambda>r. (r, False)) (\<lambda>_. True) (\<lambda>_. ''.t'') (\<lambda>_. (9, 9))
     (sys_swap (sample_sys\<lparr>pc := Lock\<rparr>))))) = []"
proof -
  let ?fw = "\<lambda>r::nat. (r, False)" and ?fo = "\<lambda>_::string. True" and ?st = "\<lambda>_::int. ''.t''"
  have "reach async_init (async_step ?fw ?fo ?st) (sample_sys\<lparr>pc := Lock\<rparr>)"
    by (rule reach.reach_step [OF sample_sys_reach async_step.test_on])
       (simp_all add: sample_sys_def AsyncLogging_start_def)
  from async_round_writes_all [OF _ _ this] show ?thesis
    by (simp add: fwrite_all_def sample_sys_def)
qed

text \<open>
  the end of the log can be lost. There is a run over a working file system in which a line is
  appended, \<open>stop()\<close> is called and the back-end thread finishes normally, and the line is in no
  file: the thread leaves its loop without taking the buffers once more.
\<close>

theorem async_stop_loses_lines:
  "\<exists>s. reach async_init (async_step (\<lambda>r. (r, False)) (\<lambda>_. True) (\<lambda>_. ''.t'')) s \<and>
     pc s = Finished \<and> lines s = [''last words''] \<and> all_contents (outfile (worker s)) = []"
proof -
  let ?step = "async_step (\<lambda>r. (r, False)) (\<lambda>_. True) (\<lambda>_. ''.t'')"
  let ?s1 = "sys_append sample_mem ''last words'' sample_sys"
  let ?s2 = "?s1\<lparr>shared := AsyncLogging_stop (shared ?s1)\<rparr>"
  have len: "length ''last words'' < kLargeBufferSize" "length sample_mem = kLargeBufferSize"
    by (simp_all add: kLargeBufferSize_def sample_mem_def)
  note app = sys_append_inv [OF async_init_inv [OF sample_sys_init] len]
  have s1: "reach async_init ?step ?s1"
    by (rule reach.reach_step, rule sample_sys_reach, rule async_step.front) (rule len)+
  have s2: "reach async_init ?step ?s2" by (rule reach.reach_step [OF s1 async_step.stop])
  have same: "pc ?s1 = Top" "worker ?s1 = worker sample_sys"
    using app(1) by (auto simp: sys_append_def async_inv_def sample_sys_def split: sum.splits)
  have s3: "reach async_init ?step (sys_finish ?s2)"
    by (rule reach.reach_step [OF s2 async_step.test_off]) (simp_all add: same AsyncLogging_stop_def)
  moreover have "pc (sys_finish ?s2) = Finished" "all_contents (outfile (worker (sys_finish ?s2))) = []"
    using same by (simp_all add: sys_finish_def LogFile_flush_def FileUtil_flush_def sample_sys_def backend_init_def all_contents_def sample_log_def)
  moreover have "lines (sys_finish ?s2) = [''last words'']"
    using app(2) by (simp add: sys_finish_def sample_sys_def split: sum.splits)
  ultimately show ?thesis by blast
qed

end
