(* ===== verification/LogPipeline.thy ===== *)
theory LogPipeline
  imports Logger AsyncLog
begin

text \<open>
  The logging subsystem put together as \<^verbatim>\<open>src/main.cc\<close> does it: the output function of \<^verbatim>\<open>Logger\<close> is \<^verbatim>\<open>asyncLog\<close>, which appends the finished
  line to the global \<^verbatim>\<open>AsyncLogging\<close>; its back-end thread writes the lines to the log files. Log statements of any number of threads interleave
  with the steps of the back end.
\<close>

section \<open>The output function\<close>

text \<open>\<open>g_asyncLog\<close> is null until \<^verbatim>\<open>main\<close> has set it; \<open>mem\<close> is the memory of a buffer the append may allocate.\<close>

definition asyncLog :: "char list \<Rightarrow> async option \<Rightarrow> string \<Rightarrow> int \<Rightarrow> async option result" where
  "asyncLog mem g_asyncLog msg len =
     (case g_asyncLog of None \<Rightarrow> Inr None
      | Some logging \<Rightarrow> bind_result (AsyncLogging_append mem logging msg len) (\<lambda>(notified, a). Inr (Some a)))"

section \<open>Log statements\<close>

text \<open>What a statement \<^verbatim>\<open>LOG_XXX << a1 << a2 ...\<close> at a place in the source sees: the clock, the place, the level, the inserted values.\<close>

record statement =
  st_now :: int
  st_file :: string
  st_line :: int
  st_level :: LogLevel
  st_args :: "stream_arg list"

text \<open>
  A statement of the program: not fatal (that one ends the process), a calendar date within four-digit years, pieces that fit the
  line buffer.
\<close>

definition statement_ok :: "(int \<Rightarrow> tm) \<Rightarrow> statement \<Rightarrow> bool" where
  "statement_ok localtime st \<longleftrightarrow> st_level st \<noteq> FATAL \<and> st_level st \<noteq> LEVEL_COUNT \<and> 0 \<le> st_now st \<and>
     tm_ok (localtime (st_now st div kMicroSecondsPerSecond)) \<and> (\<forall>a\<in>set (st_args st). arg_legal a) \<and> builtin_int (st_line st) \<and>
     length (concat (map arg_text (st_args st))) + length (SourceFile (st_file st)) \<le> 3900"

text \<open>The line the statement is to leave in the log.\<close>

definition rendered :: "(int \<Rightarrow> tm) \<Rightarrow> statement \<Rightarrow> string" where
  "rendered localtime st =
     minute_text (localtime (st_now st div kMicroSecondsPerSecond)) @ fmt_0d 6 (st_now st mod kMicroSecondsPerSecond) @ '' '' @
     (case getLevelName (st_level st) of Inl e \<Rightarrow> [] | Inr name \<Rightarrow> name) @ concat (map arg_text (st_args st)) @
     '' - '' @ SourceFile (st_file st) @ '':'' @ dec_int (st_line st) @ [CHR 0x0A]"

text \<open>A front-end thread runs the statement: \<open>ti\<close> and \<open>memory\<close> are its thread-local data and the line buffer on its stack.\<close>

definition run_statement ::
    "(int \<Rightarrow> tm) \<Rightarrow> (int \<Rightarrow> string) \<Rightarrow> thread_info \<Rightarrow> char list \<Rightarrow> char list \<Rightarrow> statement \<Rightarrow> async_sys \<Rightarrow> async_sys result" where
  "run_statement localtime strerror_r ti memory mem st s =
     bind_result (log_statement localtime strerror_r (st_now st) ti memory (st_file st) (st_line st) (st_level st) (st_args st)) (\<lambda>(l, fatal).
     bind_result (asyncLog mem (Some (shared s)) l (int (length l))) (\<lambda>a.
       if fatal then Inl Fatal_abort
       else Inr (case a of None \<Rightarrow> s | Some a' \<Rightarrow> s\<lparr>shared := a', lines := lines s @ [l]\<rparr>)))"

text \<open>The system: statements of the front end, and all steps of the back end and \<open>stop\<close>; the second component records the statements.\<close>

inductive pipeline_step ::
    "(int \<Rightarrow> tm) \<Rightarrow> (int \<Rightarrow> string) \<Rightarrow> (nat \<Rightarrow> nat \<times> bool) \<Rightarrow> (string \<Rightarrow> bool) \<Rightarrow> (int \<Rightarrow> string) \<Rightarrow>
     async_sys \<times> statement list \<Rightarrow> async_sys \<times> statement list \<Rightarrow> bool"
  for localtime strerror_r fwrite fopen strftime where
  log: "statement_ok localtime st \<Longrightarrow> length (t_timer ti) = 64 \<Longrightarrow> length memory = kSmallBufferSize \<Longrightarrow> length mem = kLargeBufferSize \<Longrightarrow>
    run_statement localtime strerror_r ti memory mem st s = Inr s' \<Longrightarrow>
    pipeline_step localtime strerror_r fwrite fopen strftime (s, h) (s', h @ [st])"
| other: "async_step fwrite fopen strftime s s' \<Longrightarrow> lines s' = lines s \<Longrightarrow> pipeline_step localtime strerror_r fwrite fopen strftime (s, h) (s', h)"

section \<open>Lemmas\<close>

lemma rendered_short:
  assumes "statement_ok localtime st"
  shows "length (rendered localtime st) < kLargeBufferSize"
proof -
  obtain name where name: "getLevelName (st_level st) = Inr name" "length name = 6"
    using assms getLevelName_length by (cases "st_level st") (auto simp: statement_ok_def)
  have "length (minute_text (localtime (st_now st div kMicroSecondsPerSecond))) = 17"
    using assms calendar_text_split(2) by (simp add: statement_ok_def)
  moreover have "length (fmt_0d 6 (st_now st mod kMicroSecondsPerSecond)) = 6"
    by (rule length_fmt_0d_6) (simp_all add: kMicroSecondsPerSecond_def)
  moreover have "length (dec_int (st_line st)) \<le> 20" using assms dec_int_length [of "st_line st"] by (simp add: statement_ok_def)
  ultimately show ?thesis using assms name by (simp add: rendered_def statement_ok_def kLargeBufferSize_def)
qed

text \<open>A statement is one append of its line by the front end.\<close>

lemma run_statement_ok:
  assumes st: "statement_ok localtime st" and ti: "length (t_timer ti) = 64" and m: "length memory = kSmallBufferSize"
    and mem: "length mem = kLargeBufferSize" and inv: "async_inv s"
  shows "run_statement localtime strerror_r ti memory mem st s = Inr (sys_append mem (rendered localtime st) s)"
proof -
  let ?l = "rendered localtime st"
  obtain name where name: "getLevelName (st_level st) = Inr name" using st by (cases "st_level st") (auto simp: statement_ok_def)
  have "log_statement localtime strerror_r (st_now st) ti memory (st_file st) (st_line st) (st_level st) (st_args st) = Inr (?l, False)"
    using log_statement_line [where localtime = localtime and now = "st_now st", OF m ti _ _ name] st
    by (simp add: statement_ok_def rendered_def name)
  moreover obtain n a' where a': "AsyncLogging_append mem (shared s) ?l (int (length ?l)) = Inr (n, a')"
  proof -
    have "front_inv (shared s)" using inv by (simp add: async_inv_def)
    from append_front [OF this rendered_short [OF st] mem] that show thesis by metis
  qed
  ultimately show ?thesis by (simp add: run_statement_def asyncLog_def sys_append_def)
qed

lemma pipeline_reach_inv:
  assumes "fwrite_all fwrite" and "\<forall>n. fopen n"
    and "reach (\<lambda>(s, h). async_init s \<and> h = []) (pipeline_step localtime strerror_r fwrite fopen strftime) sh"
  shows "async_inv (fst sh) \<and> lines (fst sh) = map (rendered localtime) (snd sh)"
  using assms(3)
proof (rule reach_invariant)
  show "async_inv (fst sh) \<and> lines (fst sh) = map (rendered localtime) (snd sh)" if "case sh of (s, h) \<Rightarrow> async_init s \<and> h = []" for sh
  proof (cases sh)
    case (Pair s h)
    then have s: "async_init s" "h = []" using that by simp_all
    have "lines s = []" using s(1) by (auto simp: async_init_def)
    then show ?thesis using Pair s async_init_inv [OF s(1)] by simp
  qed
next
  fix sh th assume inv: "async_inv (fst sh) \<and> lines (fst sh) = map (rendered localtime) (snd sh)"
    and step: "pipeline_step localtime strerror_r fwrite fopen strftime sh th"
  from step show "async_inv (fst th) \<and> lines (fst th) = map (rendered localtime) (snd th)"
  proof cases
    case (log st ti memory mem s s' h)
    have i: "async_inv s" using inv log(1) by simp
    have s': "s' = sys_append mem (rendered localtime st) s" using run_statement_ok [OF log(3-6) i, of strerror_r] log(7) by simp
    show ?thesis using sys_append_inv [OF i rendered_short [OF log(3)] log(6)] inv log(1,2) s' by simp
  next
    case (other s s' h)
    then show ?thesis using async_step_inv [OF other(3) assms(1,2)] inv by simp
  qed
qed

section \<open>Property\<close>

text \<open>
  C11: The whole logging path, from the statement in the source to the file. In every interleaving of log statements with the back end, over a working
  file system, no statement and no step of the back end fails, and the bytes in the log files followed by those still in buffers are exactly the complete lines of the
  statements executed so far, in the order in which they were executed: no line is cut, mixed with another, lost or repeated.
\<close>

theorem log_pipeline_complete:
  assumes "fwrite_all fwrite" and "\<forall>n. fopen n"
    and "reach (\<lambda>(s, h). async_init s \<and> h = []) (pipeline_step localtime strerror_r fwrite fopen strftime) (s, h)"
  shows "pc s \<noteq> Failed \<and>
    all_contents (outfile (worker s)) @ (if pc s = Writing then texts (buffersToWrite (worker s)) else []) @
      texts (buffers (shared s)) @ FixedBuffer_toString (currentBuffer (shared s)) = concat (map (rendered localtime) h) \<and>
    (\<forall>st ti memory mem. statement_ok localtime st \<and> length (t_timer ti) = 64 \<and> length memory = kSmallBufferSize \<and> length mem = kLargeBufferSize \<longrightarrow>
       (\<exists>s'. run_statement localtime strerror_r ti memory mem st s = Inr s'))"
proof -
  have inv: "async_inv s" "lines s = map (rendered localtime) h" using pipeline_reach_inv [OF assms] by simp_all
  then show ?thesis using run_statement_ok by (auto simp: async_inv_def front_text_def unwritten_def)
qed

definition sample_statement :: statement where
  "sample_statement = \<lparr>st_now = 1747143892002120, st_file = ''src/Channel.cc'', st_line = 73, st_level = INFO, st_args = [SCstr ''up'']\<rparr>"

theorem log_pipeline_complete_witness:
  "\<exists>s. reach (\<lambda>(s, h). async_init s \<and> h = []) (pipeline_step (\<lambda>_. sample_tm) (\<lambda>_. []) (\<lambda>r. (r, False)) (\<lambda>_. True) (\<lambda>_. ''.t'')) (s, [sample_statement]) \<and>
     pc s \<noteq> Failed"
proof -
  let ?step = "pipeline_step (\<lambda>_. sample_tm) (\<lambda>_. []) (\<lambda>r::nat. (r, False)) (\<lambda>_::string. True) (\<lambda>_::int. ''.t'')"
  let ?init = "\<lambda>(s, h). async_init s \<and> h = []"
  have st: "statement_ok (\<lambda>_. sample_tm) sample_statement"
    by (simp add: statement_ok_def sample_statement_def tm_ok_def sample_tm_def builtin_int_def SourceFile_def c_str_def)
  let ?s = "sys_append sample_mem (rendered (\<lambda>_. sample_tm) sample_statement) sample_sys"
  let ?ti = "\<lparr>t_timer = replicate 64 (CHR 0x00), t_lastSecond = 0\<rparr>" and ?mem = "replicate 4000 (CHR 0x00)"
  have sizes: "length (t_timer ?ti) = 64" "length ?mem = kSmallBufferSize" "length sample_mem = kLargeBufferSize"
    by (simp_all add: kSmallBufferSize_def sample_mem_def)
  have "reach ?init ?step (sample_sys, [])" by (rule reach_init) (simp add: sample_sys_init)
  from reach_step [OF this pipeline_step.log [OF st sizes run_statement_ok [OF st sizes async_init_inv [OF sample_sys_init]]]]
  have r: "reach ?init ?step (?s, [sample_statement])" by simp
  from log_pipeline_complete [OF _ _ r] have "pc ?s \<noteq> Failed" by (simp add: fwrite_all_def)
  with r show ?thesis by blast
qed

end
