(* ===== verification/MemoryPools.thy ===== *)
theory MemoryPools
  imports Prelude
begin

text \<open>
  The memory pools of \<^verbatim>\<open>include/memoryPool.h\<close> and \<^verbatim>\<open>memory/memoryPool.cc\<close>. An address is a number and \<open>0\<close> the null pointer; \<open>memory\<close> is the word stored
  at an address, which is what a \<^verbatim>\<open>Slot\<close> has in its \<open>next\<close> field. The address that \<^verbatim>\<open>operator new\<close> returns is an argument. The two critical
  sections of \<^verbatim>\<open>allocate\<close> are separate steps, since other threads may run between them.
\<close>

section \<open>MemoryPool\<close>

type_synonym addr = nat
type_synonym memory = "addr \<Rightarrow> addr"

record pool =
  BlockSize :: nat
  SlotSize :: nat
  firstBlock :: addr
  curSlot :: addr
  freeList :: addr
  lastSlot :: addr

text \<open>The pools are static, so the fields the constructor does not set are zero.\<close>

definition MemoryPool :: "nat \<Rightarrow> pool" where
  "MemoryPool B = \<lparr>BlockSize = B, SlotSize = 0, firstBlock = 0, curSlot = 0, freeList = 0, lastSlot = 0\<rparr>"

definition pool_init :: "nat \<Rightarrow> pool \<Rightarrow> pool" where
  "pool_init sz p = p\<lparr>SlotSize := sz, firstBlock := 0, curSlot := 0, freeList := 0, lastSlot := 0\<rparr>"

text \<open>\<^verbatim>\<open>sizeof(Slot)\<close>, which is also \<^verbatim>\<open>sizeof(Slot*)\<close>.\<close>

definition sizeof_Slot :: nat where "sizeof_Slot = 8"

definition padPointer :: "addr \<Rightarrow> nat \<Rightarrow> nat result" where
  "padPointer p align = (if align = 0 then Inl Div_by_zero else Inr (subsz align p mod align))"

definition allocateNewBlock :: "addr \<Rightarrow> pool \<Rightarrow> memory \<Rightarrow> (pool \<times> memory) result" where
  "allocateNewBlock newBlock p m =
     (let body = addsz newBlock sizeof_Slot
      in bind_result (padPointer body (SlotSize p)) (\<lambda>paddingSize.
         Inr (p\<lparr>firstBlock := newBlock, curSlot := addsz body paddingSize,
                lastSlot := addsz (subsz (addsz newBlock (BlockSize p)) (SlotSize p)) 1, freeList := 0\<rparr>,
              m(newBlock := firstBlock p))))"

text \<open>The critical section of \<open>mutexForFreeList_\<close> in \<^verbatim>\<open>allocate\<close>.\<close>

definition try_free_list :: "pool \<Rightarrow> memory \<Rightarrow> (addr \<times> pool) option" where
  "try_free_list p m = (if freeList p \<noteq> 0 then Some (freeList p, p\<lparr>freeList := m (freeList p)\<rparr>) else None)"

text \<open>The critical section of \<open>mutexForBlock_\<close>; adding to a \<^verbatim>\<open>Slot*\<close> counts in units of \<^verbatim>\<open>sizeof(Slot)\<close>.\<close>

definition take_slot :: "addr \<Rightarrow> pool \<Rightarrow> memory \<Rightarrow> (addr \<times> pool \<times> memory) result" where
  "take_slot newBlock p m =
     bind_result (if curSlot p \<ge> lastSlot p then allocateNewBlock newBlock p m else Inr (p, m)) (\<lambda>(p1, m1).
       Inr (curSlot p1, p1\<lparr>curSlot := addsz (curSlot p1) (SlotSize p1 div sizeof_Slot * sizeof_Slot)\<rparr>, m1))"

definition allocate :: "addr \<Rightarrow> pool \<Rightarrow> memory \<Rightarrow> (addr \<times> pool \<times> memory) result" where
  "allocate newBlock p m =
     (case try_free_list p m of
        Some (t, p') \<Rightarrow> Inr (t, p', m)
      | None \<Rightarrow> take_slot newBlock p m)"

definition deallocate :: "addr \<Rightarrow> pool \<Rightarrow> memory \<Rightarrow> pool \<times> memory" where
  "deallocate ptr p m = (if ptr \<noteq> 0 then (p\<lparr>freeList := ptr\<rparr>, m(ptr := freeList p)) else (p, m))"

text \<open>The destructor walks the blocks; it returns the addresses it deletes, or \<open>None\<close> when \<open>n\<close> of them are not enough.\<close>

fun pool_dtor :: "nat \<Rightarrow> memory \<Rightarrow> addr \<Rightarrow> addr list option" where
  "pool_dtor n m cur =
     (if cur = 0 then Some []
      else case n of 0 \<Rightarrow> None | Suc k \<Rightarrow> map_option (Cons cur) (pool_dtor k m (m cur)))"

declare pool_dtor.simps [simp del]

section \<open>HashBucket\<close>

definition MEMORY_POOL_NUM :: nat where "MEMORY_POOL_NUM = 64"
definition SLOT_BASE_SIZE :: nat where "SLOT_BASE_SIZE = 8"
definition MAX_SLOT_SIZE :: nat where "MAX_SLOT_SIZE = 512"

definition initMemoryPool :: "pool list \<Rightarrow> pool list" where
  "initMemoryPool ps = map (\<lambda>i. pool_init ((i + 1) * SLOT_BASE_SIZE) (ps ! i)) [0..<MEMORY_POOL_NUM]"

text \<open>The index expression is a \<open>size_t\<close> that becomes an \<^verbatim>\<open>int\<close>; indexing outside the array is undefined.\<close>

definition pool_index :: "nat \<Rightarrow> nat" where
  "pool_index sz = subsz (addsz sz 7 div SLOT_BASE_SIZE) 1"

definition getMemoryPool :: "nat \<Rightarrow> pool list \<Rightarrow> pool result" where
  "getMemoryPool i ps = (if i < MEMORY_POOL_NUM then Inr (ps ! i) else Inl Out_of_bounds)"

text \<open>\<open>big\<close> is the address \<^verbatim>\<open>operator new(size)\<close> returns for a large request, \<open>newBlock\<close> the one for a new block of a pool.\<close>

definition useMemory :: "addr \<Rightarrow> addr \<Rightarrow> nat \<Rightarrow> pool list \<Rightarrow> memory \<Rightarrow> (addr \<times> pool list \<times> memory) result" where
  "useMemory big newBlock sz ps m =
     (if sz = 0 then Inr (0, ps, m)
      else if sz > MAX_SLOT_SIZE then Inr (big, ps, m)
      else let i = pool_index sz
           in bind_result (getMemoryPool i ps) (\<lambda>p.
              bind_result (allocate newBlock p m) (\<lambda>(t, p', m'). Inr (t, ps[i := p'], m'))))"

text \<open>\<^verbatim>\<open>freeMemory\<close> returns the address it hands to \<^verbatim>\<open>operator delete\<close>, if any.\<close>

definition freeMemory :: "addr \<Rightarrow> nat \<Rightarrow> pool list \<Rightarrow> memory \<Rightarrow> (addr option \<times> pool list \<times> memory) result" where
  "freeMemory ptr sz ps m =
     (if ptr = 0 then Inr (None, ps, m)
      else if sz > MAX_SLOT_SIZE then Inr (Some ptr, ps, m)
      else let i = pool_index sz
           in bind_result (getMemoryPool i ps) (\<lambda>p.
              let (p', m') = deallocate ptr p m in Inr (None, ps[i := p'], m')))"

section \<open>Elements\<close>

text \<open>\<open>live\<close> are the constructed objects by address; a constructor call puts the object there and a destructor call takes it away.\<close>

record 'a elements =
  pools :: "pool list"
  mem :: memory
  live :: "addr \<rightharpoonup> 'a"

definition newElement :: "addr \<Rightarrow> addr \<Rightarrow> nat \<Rightarrow> 'a \<Rightarrow> 'a elements \<Rightarrow> (addr \<times> 'a elements) result" where
  "newElement big newBlock sizeof_T v e =
     bind_result (useMemory big newBlock sizeof_T (pools e) (mem e)) (\<lambda>(p, ps, m).
       Inr (p, if p \<noteq> 0 then e\<lparr>pools := ps, mem := m, live := (live e)(p \<mapsto> v)\<rparr> else e\<lparr>pools := ps, mem := m\<rparr>))"

definition deleteElement :: "nat \<Rightarrow> addr \<Rightarrow> 'a elements \<Rightarrow> (addr option \<times> 'a elements) result" where
  "deleteElement sizeof_T p e =
     (if p \<noteq> 0
      then let e1 = e\<lparr>live := (live e)(p := None)\<rparr>
           in bind_result (freeMemory p sizeof_T (pools e1) (mem e1)) (\<lambda>(d, ps, m). Inr (d, e1\<lparr>pools := ps, mem := m\<rparr>))
      else Inr (None, e))"

section \<open>Regions of memory\<close>

text \<open>Addresses whose regions of \<open>n\<close> bytes do not overlap.\<close>

definition apart :: "nat \<Rightarrow> addr list \<Rightarrow> bool" where
  "apart n xs \<longleftrightarrow> distinct xs \<and> (\<forall>x\<in>set xs. \<forall>y\<in>set xs. x \<noteq> y \<longrightarrow> x + n \<le> y \<or> y + n \<le> x)"

text \<open>The linked list that starts at \<open>f\<close> consists of the addresses \<open>xs\<close>.\<close>

fun linked :: "memory \<Rightarrow> addr list \<Rightarrow> addr \<Rightarrow> bool" where
  "linked m [] f \<longleftrightarrow> f = 0"
| "linked m (x # xs) f \<longleftrightarrow> f = x \<and> x \<noteq> 0 \<and> linked m xs (m x)"

lemma linked_upd: "a \<notin> set xs \<Longrightarrow> linked (m(a := v)) xs f = linked m xs f"
  by (induction xs arbitrary: f) auto

lemma pool_dtor_linked: "linked m xs f \<Longrightarrow> length xs \<le> n \<Longrightarrow> pool_dtor n m f = Some xs"
proof (induction xs arbitrary: f n)
  case Nil
  then show ?case by (simp add: pool_dtor.simps)
next
  case (Cons x xs)
  then obtain k where "n = Suc k" by (cases n) auto
  with Cons show ?case by (subst pool_dtor.simps) simp
qed

lemma apart_Cons: "apart n (x # xs) \<longleftrightarrow> x \<notin> set xs \<and> (\<forall>y\<in>set xs. x + n \<le> y \<or> y + n \<le> x) \<and> apart n xs"
  unfolding apart_def by (auto; metis)

lemma apart_mset: "apart n xs \<Longrightarrow> mset xs = mset ys \<Longrightarrow> apart n ys"
  unfolding apart_def by (metis mset_eq_imp_distinct_iff mset_eq_setD)

section \<open>A pool shared by threads\<close>

text \<open>
  Beside the pool and the memory the state records the blocks obtained so far and the slots that are in use. A thread that found the free
  list empty goes on to \<open>take_slot\<close> whatever other threads have done since; the holders of slots write into them as they please.
\<close>

record pstate =
  the_pool :: pool
  words :: memory
  blocks :: "addr list"
  used :: "addr list"

text \<open>What \<^verbatim>\<open>operator new\<close> promises: memory that is not null, aligned for a pointer, within the address space and in nobody's use.\<close>

definition fresh_block :: "pstate \<Rightarrow> addr \<Rightarrow> bool" where
  "fresh_block s b \<longleftrightarrow> 0 < b \<and> 8 dvd b \<and> b + BlockSize (the_pool s) < 2 ^ 64 \<and> apart (BlockSize (the_pool s)) (b # blocks s)"

definition is_full :: "pool \<Rightarrow> bool" where
  "is_full p \<longleftrightarrow> curSlot p \<ge> lastSlot p"

inductive pool_step :: "pstate \<Rightarrow> pstate \<Rightarrow> bool" where
  pop: "try_free_list (the_pool s) (words s) = Some (t, p') \<Longrightarrow> pool_step s (s\<lparr>the_pool := p', used := t # used s\<rparr>)"
| bump: "\<not> is_full (the_pool s) \<Longrightarrow> take_slot 0 (the_pool s) (words s) = Inr (t, p', m') \<Longrightarrow>
    pool_step s (s\<lparr>the_pool := p', words := m', used := t # used s\<rparr>)"
| grow: "is_full (the_pool s) \<Longrightarrow> fresh_block s b \<Longrightarrow> take_slot b (the_pool s) (words s) = Inr (t, p', m') \<Longrightarrow>
    pool_step s (s\<lparr>the_pool := p', words := m', blocks := b # blocks s, used := t # used s\<rparr>)"
| free: "t \<in> set (used s) \<Longrightarrow> deallocate t (the_pool s) (words s) = (p', m') \<Longrightarrow>
    pool_step s (s\<lparr>the_pool := p', words := m', used := remove1 t (used s)\<rparr>)"
| write_slot: "t \<in> set (used s) \<Longrightarrow> t \<le> a \<Longrightarrow> a < t + SlotSize (the_pool s) \<Longrightarrow> pool_step s (s\<lparr>words := (words s)(a := v)\<rparr>)"

definition fresh_pool :: "nat \<Rightarrow> memory \<Rightarrow> pstate" where
  "fresh_pool sz m = \<lparr>the_pool = pool_init sz (MemoryPool 4096), words = m, blocks = [], used = []\<rparr>"

text \<open>The slot size is a multiple of a word and at least two slots fit into a block behind its header.\<close>

definition size_ok :: "pool \<Rightarrow> bool" where
  "size_ok p \<longleftrightarrow> 8 dvd SlotSize p \<and> 8 \<le> SlotSize p \<and> 8 + 2 * SlotSize p \<le> BlockSize p"

definition in_block :: "pool \<Rightarrow> addr \<Rightarrow> addr \<Rightarrow> bool" where
  "in_block p b x \<longleftrightarrow> b + 8 \<le> x \<and> x + SlotSize p \<le> b + BlockSize p"

definition slots_ok :: "pool \<Rightarrow> addr list \<Rightarrow> addr list \<Rightarrow> bool" where
  "slots_ok p bs xs \<longleftrightarrow> (\<forall>x\<in>set xs. 8 dvd x \<and> (\<exists>b\<in>set bs. in_block p b x))"

text \<open>The rest of the current block, from \<open>curSlot_\<close> on, belongs to no slot.\<close>

definition rest_ok :: "pool \<Rightarrow> addr list \<Rightarrow> addr list \<Rightarrow> bool" where
  "rest_ok p bs xs \<longleftrightarrow> is_full p \<or>
     (\<exists>b\<in>set bs. b + 8 \<le> curSlot p \<and> 8 dvd curSlot p \<and> lastSlot p = b + BlockSize p - SlotSize p + 1 \<and>
        (\<forall>x\<in>set xs. x + SlotSize p \<le> curSlot p \<or> b + BlockSize p \<le> x))"

definition pool_ok :: "pstate \<Rightarrow> addr list \<Rightarrow> bool" where
  "pool_ok s fs \<longleftrightarrow> size_ok (the_pool s) \<and> apart (BlockSize (the_pool s)) (blocks s) \<and>
     (\<forall>b\<in>set (blocks s). 0 < b \<and> 8 dvd b \<and> b + BlockSize (the_pool s) < 2 ^ 64) \<and>
     linked (words s) (blocks s) (firstBlock (the_pool s)) \<and> linked (words s) fs (freeList (the_pool s)) \<and>
     apart (SlotSize (the_pool s)) (used s @ fs) \<and>
     slots_ok (the_pool s) (blocks s) (used s @ fs) \<and>
     rest_ok (the_pool s) (blocks s) (used s @ fs)"

text \<open>A slot of one block is no block itself, and overlaps no other block.\<close>

lemma apartD: "apart n xs \<Longrightarrow> x \<in> set xs \<Longrightarrow> y \<in> set xs \<Longrightarrow> x \<noteq> y \<Longrightarrow> x + n \<le> y \<or> y + n \<le> x"
  unfolding apart_def by blast

lemma slot_block:
  assumes "pool_ok s fs" and "x \<in> set (used s @ fs)"
  obtains b where "b \<in> set (blocks s)" and "in_block (the_pool s) b x" and "8 dvd x"
  using assms unfolding pool_ok_def slots_ok_def by blast

text \<open>Only the set of the slots and the sizes matter.\<close>

lemma slots_cong:
  assumes "set ys = set xs" and "SlotSize p' = SlotSize p" and "BlockSize p' = BlockSize p"
  shows "slots_ok p' bs ys = slots_ok p bs xs"
    and "curSlot p' = curSlot p \<Longrightarrow> lastSlot p' = lastSlot p \<Longrightarrow> rest_ok p' bs ys = rest_ok p bs xs"
  using assms by (simp_all add: slots_ok_def in_block_def size_ok_def rest_ok_def is_full_def)

lemma word_not_block:
  assumes "apart (BlockSize p) bs" and "b \<in> set bs" and "in_block p b x" and "x \<le> a" and "a < x + SlotSize p"
  shows "a \<notin> set bs"
proof
  assume "a \<in> set bs"
  moreover have "b < a" "a < b + BlockSize p" using assms by (auto simp: in_block_def)
  ultimately show False using apartD [OF assms(1,2), of a] by auto
qed

lemma word_not_free:
  assumes "apart n (us @ fs)" and "t \<in> set us" and "t \<le> a" and "a < t + n"
  shows "a \<notin> set fs"
proof
  assume a: "a \<in> set fs"
  have "set us \<inter> set fs = {}" using assms(1) by (auto simp: apart_def)
  then have "a \<noteq> t" using a assms(2) by auto
  then show False using apartD [OF assms(1), of t a] a assms by auto
qed

lemma padPointer_ok:
  assumes "0 < align"
  shows "\<exists>r. padPointer a align = Inr r \<and> r < align"
  using assms by (auto simp: padPointer_def)

lemma padPointer_words:
  assumes "8 dvd align" and "8 dvd a" and "a < 2 ^ 64" and "padPointer a align = Inr r"
  shows "8 dvd r"
proof -
  have "8 dvd (2 ^ 64 :: nat)" by (simp add: dvd_def)
  moreover have "8 dvd 2 ^ 64 - a" using assms(2) calculation by (rule dvd_diff_nat [rotated])
  ultimately have "8 dvd subsz align a" unfolding subsz_def using assms(1) by (simp add: dvd_mod)
  then show ?thesis using assms(1,4) by (auto simp: padPointer_def dvd_mod split: if_splits)
qed

text \<open>The first slot of a new block.\<close>

lemma new_block_slot:
  assumes sz: "size_ok p" and b: "8 dvd b" "b + BlockSize p < 2 ^ 64"
  shows "\<exists>p' r. allocateNewBlock b p m = Inr (p', m(b := firstBlock p)) \<and> r < SlotSize p \<and> 8 dvd r \<and>
    p' = p\<lparr>firstBlock := b, curSlot := b + 8 + r, lastSlot := b + BlockSize p - SlotSize p + 1, freeList := 0\<rparr>"
proof -
  have s: "8 dvd SlotSize p" "8 \<le> SlotSize p" "8 + 2 * SlotSize p \<le> BlockSize p" using sz by (simp_all add: size_ok_def)
  have body: "addsz b sizeof_Slot = b + 8" using b s by (simp add: sizeof_Slot_def addsz_nowrap)
  obtain r where r: "padPointer (b + 8) (SlotSize p) = Inr r" "r < SlotSize p" using padPointer_ok [of "SlotSize p" "b + 8"] s by auto
  have "8 dvd r" using padPointer_words [OF s(1) _ _ r(1)] b s by simp
  moreover have "addsz (b + 8) r = b + 8 + r" using r(2) b s by (simp add: addsz_nowrap)
  moreover have "addsz (subsz (addsz b (BlockSize p)) (SlotSize p)) 1 = b + BlockSize p - SlotSize p + 1"
    using b s by (simp add: addsz_nowrap subsz_nowrap)
  ultimately show ?thesis using r body by (auto simp: allocateNewBlock_def Let_def)
qed

lemma slot_step: "size_ok p \<Longrightarrow> SlotSize p div sizeof_Slot * sizeof_Slot = SlotSize p"
  by (simp add: size_ok_def sizeof_Slot_def)

lemma take_slot_ok:
  assumes ok: "pool_ok s fs" and nf: "\<not> is_full (the_pool s)" and t: "take_slot b0 (the_pool s) (words s) = Inr (t, p', m')"
  shows "pool_ok (s\<lparr>the_pool := p', words := m', used := t # used s\<rparr>) fs"
proof -
  let ?p = "the_pool s" and ?xs = "used s @ fs"
  let ?S = "SlotSize ?p" and ?B = "BlockSize ?p"
  have sz: "size_ok ?p" using ok by (simp add: pool_ok_def)
  obtain b where b: "b \<in> set (blocks s)" "b + 8 \<le> curSlot ?p" "8 dvd curSlot ?p" "lastSlot ?p = b + ?B - ?S + 1"
    "\<forall>x\<in>set ?xs. x + ?S \<le> curSlot ?p \<or> b + ?B \<le> x"
    using ok nf by (auto simp: pool_ok_def rest_ok_def)
  have fit: "curSlot ?p + ?S \<le> b + ?B" using nf b(4) sz by (auto simp: is_full_def size_ok_def)
  have "b + ?B < 2 ^ 64" using ok b(1) by (auto simp: pool_ok_def)
  then have "addsz (curSlot ?p) ?S = curSlot ?p + ?S" using fit by (simp add: addsz_nowrap)
  then have p': "t = curSlot ?p" "p' = ?p\<lparr>curSlot := curSlot ?p + ?S\<rparr>" "m' = words s"
    using t nf slot_step [OF sz] by (auto simp: take_slot_def is_full_def)
  have far: "\<forall>x\<in>set ?xs. t + ?S \<le> x \<or> x + ?S \<le> t" using b(5) fit p'(1) by auto
  moreover have "0 < ?S" using sz by (auto simp: size_ok_def)
  ultimately have "t \<notin> set ?xs" by fastforce
  then have "apart ?S (t # used s @ fs)" using ok far by (auto simp: apart_Cons pool_ok_def)
  moreover have "rest_ok p' (blocks s) (t # ?xs)"
  proof -
    have "x + ?S \<le> curSlot ?p + ?S \<or> b + ?B \<le> x" if "x \<in> set (t # ?xs)" for x
    proof (cases "x = t")
      case False
      then have "x + ?S \<le> curSlot ?p \<or> b + ?B \<le> x" using that b(5) by simp
      then show ?thesis by linarith
    qed (use p'(1) in simp)
    then show ?thesis using b(1,2,3,4) sz p'(2) unfolding rest_ok_def size_ok_def by (intro disjI2 bexI [of _ b]) auto
  qed
  moreover have "in_block ?p b t" using b(2) fit p' by (simp add: in_block_def)
  then have "slots_ok p' (blocks s) (t # ?xs)" using ok b(1,3) p' by (auto simp: pool_ok_def slots_ok_def in_block_def)
  ultimately show ?thesis using ok p' by (simp add: pool_ok_def size_ok_def)
qed

lemma grow_ok:
  assumes ok: "pool_ok s fs" and full: "is_full (the_pool s)" and fr: "fresh_block s b" and t: "take_slot b (the_pool s) (words s) = Inr (t, p', m')"
  shows "pool_ok (s\<lparr>the_pool := p', words := m', blocks := b # blocks s, used := t # used s\<rparr>) []"
proof -
  let ?p = "the_pool s"
  let ?S = "SlotSize ?p" and ?B = "BlockSize ?p"
  have sz: "size_ok ?p" "8 \<le> ?S" "8 + 2 * ?S \<le> ?B" using ok by (simp_all add: pool_ok_def size_ok_def)
  have f: "0 < b" "8 dvd b" "b + ?B < 2 ^ 64" "apart ?B (b # blocks s)" using fr by (simp_all add: fresh_block_def)
  obtain p1 r where n: "allocateNewBlock b ?p (words s) = Inr (p1, (words s)(b := firstBlock ?p))" "r < ?S" "8 dvd r"
    "p1 = ?p\<lparr>firstBlock := b, curSlot := b + 8 + r, lastSlot := b + ?B - ?S + 1, freeList := 0\<rparr>"
    using new_block_slot [OF sz(1) f(2,3)] by blast
  have "addsz (b + 8 + r) ?S = b + 8 + r + ?S" using n(2) sz f(3) by (simp add: addsz_nowrap)
  then have p': "t = b + 8 + r" "p' = p1\<lparr>curSlot := b + 8 + r + ?S\<rparr>" "m' = (words s)(b := firstBlock ?p)"
    using t full n slot_step [OF sz(1)] by (auto simp: take_slot_def is_full_def)
  have tb: "in_block ?p b t" "8 dvd t" using p'(1) n(2,3) sz f(2) by (simp_all add: in_block_def)
  have out: "x + ?S \<le> b \<or> b + ?B \<le> x" if "x \<in> set (used s @ fs)" for x
  proof -
    obtain b' where b': "b' \<in> set (blocks s)" "in_block ?p b' x" using slot_block [OF ok \<open>x \<in> set (used s @ fs)\<close>] .
    then have "b + ?B \<le> b' \<or> b' + ?B \<le> b" using f(4) by (auto simp: apart_Cons)
    then show ?thesis using b'(2) by (auto simp: in_block_def)
  qed
  have far: "t + ?S \<le> x \<or> x + ?S \<le> t" "t \<noteq> x" if "x \<in> set (used s @ fs)" for x
    using out [OF that] tb(1) sz by (auto simp: in_block_def)
  have ap: "apart ?S (used s @ fs)" using ok by (simp add: pool_ok_def)
  then have ap': "apart ?S (used s)" by (auto simp: apart_def)
  have "apart ?S (t # used s)" unfolding apart_Cons using far ap' by fastforce
  moreover have "b \<notin> set (blocks s)" using f(4) by (simp add: apart_Cons)
  then have "linked m' (b # blocks s) b" using ok f(1) p'(3) by (simp add: pool_ok_def linked_upd)
  moreover have "rest_ok p' (b # blocks s) (t # used s)"
  proof -
    have "x + ?S \<le> b + 8 + r + ?S \<or> b + ?B \<le> x" if "x \<in> set (t # used s)" for x using that out [of x] p'(1) by auto
    moreover have "8 dvd b + 8 + r + ?S" using f(2) n(3) sz(1) by (simp add: size_ok_def)
    ultimately show ?thesis using p'(2) n(4) unfolding rest_ok_def by (intro disjI2 bexI [of _ b]) auto
  qed
  moreover have "slots_ok p' (b # blocks s) (t # used s)"
    using ok tb p'(2) n(4) by (auto simp: pool_ok_def slots_ok_def in_block_def)
  ultimately show ?thesis using ok f p'(2) n(4) by (simp add: pool_ok_def size_ok_def)
qed

lemma free_ok:
  assumes ok: "pool_ok s fs" and t: "t \<in> set (used s)" and d: "deallocate t (the_pool s) (words s) = (p', m')"
  shows "pool_ok (s\<lparr>the_pool := p', words := m', used := remove1 t (used s)\<rparr>) (t # fs)"
proof -
  let ?p = "the_pool s"
  let ?S = "SlotSize ?p"
  have sz: "8 \<le> ?S" using ok by (simp add: pool_ok_def size_ok_def)
  have "t \<in> set (used s @ fs)" using t by simp
  then obtain b where b: "b \<in> set (blocks s)" "in_block ?p b t" using slot_block [OF ok] by metis
  then have t0: "t \<noteq> 0" by (auto simp: in_block_def)
  then have p': "p' = ?p\<lparr>freeList := t\<rparr>" "m' = (words s)(t := freeList ?p)" using d by (simp_all add: deallocate_def)
  have ap: "apart ?S (used s @ fs)" and bl: "apart (BlockSize ?p) (blocks s)" using ok by (simp_all add: pool_ok_def)
  have "t \<notin> set (blocks s)" using word_not_block [OF bl b, of t] sz by simp
  moreover have "t \<notin> set fs" using word_not_free [OF ap t, of t] sz by simp
  ultimately have l: "linked m' (blocks s) (firstBlock p')" "linked m' (t # fs) (freeList p')"
    using ok p' t0 by (simp_all add: pool_ok_def linked_upd)
  have ms: "mset (used s @ fs) = mset (remove1 t (used s) @ t # fs)" using t by simp
  then have set: "set (remove1 t (used s) @ t # fs) = set (used s @ fs)" by (rule mset_eq_setD [symmetric])
  have "apart ?S (remove1 t (used s) @ t # fs)" using apart_mset [OF ap ms] .
  moreover have "size_ok p' = size_ok ?p" using p'(1) by (simp add: size_ok_def)
  moreover have "slots_ok p' (blocks s) (remove1 t (used s) @ t # fs)" "rest_ok p' (blocks s) (remove1 t (used s) @ t # fs)"
    using ok slots_cong [OF set, of p' ?p "blocks s"] p'(1) by (simp_all add: pool_ok_def)
  ultimately show ?thesis using ok l p'(1) by (simp add: pool_ok_def)
qed

lemma pop_ok:
  assumes ok: "pool_ok s fs" and t: "try_free_list (the_pool s) (words s) = Some (t, p')"
  shows "\<exists>fs'. fs = t # fs' \<and> pool_ok (s\<lparr>the_pool := p', used := t # used s\<rparr>) fs'"
proof -
  let ?p = "the_pool s"
  have f: "freeList ?p \<noteq> 0" "t = freeList ?p" "p' = ?p\<lparr>freeList := words s t\<rparr>" using t by (auto simp: try_free_list_def split: if_splits)
  have "linked (words s) fs (freeList ?p)" using ok by (simp add: pool_ok_def)
  then obtain fs' where fs: "fs = t # fs'" "linked (words s) fs' (words s t)" using f by (cases fs) auto
  have ms: "mset (used s @ fs) = mset ((t # used s) @ fs')" using fs(1) by simp
  then have set: "set ((t # used s) @ fs') = set (used s @ fs)" by (rule mset_eq_setD [symmetric])
  have "apart (SlotSize ?p) ((t # used s) @ fs')" using ok apart_mset [OF _ ms] by (simp add: pool_ok_def)
  moreover have "size_ok p' = size_ok ?p" using f(3) by (simp add: size_ok_def)
  moreover have "slots_ok p' (blocks s) ((t # used s) @ fs')" "rest_ok p' (blocks s) ((t # used s) @ fs')"
    using ok slots_cong [OF set, of p' ?p "blocks s"] f(3) by (simp_all add: pool_ok_def)
  ultimately have "pool_ok (s\<lparr>the_pool := p', used := t # used s\<rparr>) fs'" using ok fs(2) f(3) by (simp add: pool_ok_def)
  then show ?thesis using fs(1) by blast
qed

lemma write_ok:
  assumes ok: "pool_ok s fs" and t: "t \<in> set (used s)" "t \<le> a" "a < t + SlotSize (the_pool s)"
  shows "pool_ok (s\<lparr>words := (words s)(a := v)\<rparr>) fs"
proof -
  let ?p = "the_pool s"
  have ap: "apart (SlotSize ?p) (used s @ fs)" and bl: "apart (BlockSize ?p) (blocks s)" using ok by (simp_all add: pool_ok_def)
  have "t \<in> set (used s @ fs)" using t by simp
  then obtain b where b: "b \<in> set (blocks s)" "in_block ?p b t" using slot_block [OF ok] by metis
  have "a \<notin> set (blocks s)" using word_not_block [OF bl b t(2,3)] .
  moreover have "a \<notin> set fs" using word_not_free [OF ap t] .
  ultimately show ?thesis using ok by (simp add: pool_ok_def linked_upd)
qed

lemma pool_step_ok:
  assumes "pool_step s s'" and "\<exists>fs. pool_ok s fs"
  shows "\<exists>fs. pool_ok s' fs"
  using assms
proof (cases rule: pool_step.cases)
  case (pop t p')
  then show ?thesis using assms(2) pop_ok by blast
next
  case (bump t p' m')
  then show ?thesis using assms(2) take_slot_ok by blast
next
  case (grow b t p' m')
  then show ?thesis using assms(2) grow_ok by blast
next
  case (free t p' m')
  then show ?thesis using assms(2) free_ok by blast
next
  case (write_slot t a v)
  then show ?thesis using assms(2) write_ok by blast
qed

lemma fresh_pool_ok:
  assumes "8 dvd sz" and "8 \<le> sz" and "sz \<le> 512"
  shows "pool_ok (fresh_pool sz m) []"
  using assms by (simp add: pool_ok_def fresh_pool_def pool_init_def MemoryPool_def size_ok_def apart_def rest_ok_def is_full_def slots_ok_def)

definition pool_reach :: "nat \<Rightarrow> memory \<Rightarrow> pstate \<Rightarrow> bool" where
  "pool_reach sz m = reach (\<lambda>s. s = fresh_pool sz m) pool_step"

lemma pool_reach_ok:
  assumes "pool_reach sz m s" and "8 dvd sz" and "8 \<le> sz" and "sz \<le> 512"
  shows "\<exists>fs. pool_ok s fs"
  using assms(1) unfolding pool_reach_def
proof (rule reach_invariant)
  show "\<exists>fs. pool_ok s fs" if "s = fresh_pool sz m" for s using that fresh_pool_ok [OF assms(2-4)] by blast
  show "\<exists>fs. pool_ok t fs" if "\<exists>fs. pool_ok s fs" "pool_step s t" for s t using pool_step_ok that by blast
qed

lemma pool_step_settings:
  assumes "pool_step s s'"
  shows "SlotSize (the_pool s') = SlotSize (the_pool s) \<and> BlockSize (the_pool s') = BlockSize (the_pool s)"
  using assms
  by (cases rule: pool_step.cases)
    (auto simp: try_free_list_def take_slot_def allocateNewBlock_def deallocate_def Let_def split: if_splits)

lemma pool_reach_settings:
  assumes "pool_reach sz m s"
  shows "SlotSize (the_pool s) = sz \<and> BlockSize (the_pool s) = 4096"
  using assms unfolding pool_reach_def
proof (rule reach_invariant)
  show "SlotSize (the_pool s) = sz \<and> BlockSize (the_pool s) = 4096" if "s = fresh_pool sz m" for s
    using that by (simp add: fresh_pool_def pool_init_def MemoryPool_def)
  show "SlotSize (the_pool t) = sz \<and> BlockSize (the_pool t) = 4096" if "SlotSize (the_pool s) = sz \<and> BlockSize (the_pool s) = 4096" "pool_step s t" for s t
    using pool_step_settings [OF that(2)] that(1) by simp
qed

section \<open>What the pools guarantee\<close>

text \<open>
  C22: However threads interleave the critical sections of \<^verbatim>\<open>allocate\<close> and \<^verbatim>\<open>deallocate\<close> and write into their slots, two slots in use never overlap,
  every one is aligned for a pointer and lies inside a block that the pool obtained, behind the block's header.
\<close>

theorem pool_slots_disjoint:
  assumes "pool_reach sz m s" and "8 dvd sz" and "8 \<le> sz" and "sz \<le> 512"
  shows "apart sz (used s) \<and> (\<forall>x\<in>set (used s). 8 dvd x \<and> (\<exists>b\<in>set (blocks s). b + 8 \<le> x \<and> x + sz \<le> b + 4096))"
proof -
  obtain fs where ok: "pool_ok s fs" using pool_reach_ok [OF assms] by blast
  have set: "SlotSize (the_pool s) = sz" "BlockSize (the_pool s) = 4096" using pool_reach_settings [OF assms(1)] by simp_all
  have "apart sz (used s)" using ok set by (auto simp: pool_ok_def apart_def)
  moreover have "\<forall>x\<in>set (used s). 8 dvd x \<and> (\<exists>b\<in>set (blocks s). b + 8 \<le> x \<and> x + sz \<le> b + 4096)"
    using ok set by (simp add: pool_ok_def slots_ok_def in_block_def)
  ultimately show ?thesis ..
qed

text \<open>One thread takes two slots of 24 bytes.\<close>

lemma two_slots:
  "\<exists>s. pool_reach 24 (\<lambda>_. 0) s \<and> used s = [4144, 4120] \<and> blocks s = [4096]"
proof -
  define s0 where "s0 = fresh_pool 24 (\<lambda>_. 0)"
  define p1 where "p1 = \<lparr>BlockSize = 4096, SlotSize = 24, firstBlock = 4096, curSlot = 4144, freeList = 0, lastSlot = 8169\<rparr>"
  define w :: memory where "w = (\<lambda>_. 0)(4096 := 0)"
  define s1 where "s1 = s0\<lparr>the_pool := p1, words := w, blocks := 4096 # blocks s0, used := 4120 # used s0\<rparr>"
  define s2 where "s2 = s1\<lparr>the_pool := p1\<lparr>curSlot := 4168\<rparr>, words := w, used := 4144 # used s1\<rparr>"
  have start: "the_pool s0 = \<lparr>BlockSize = 4096, SlotSize = 24, firstBlock = 0, curSlot = 0, freeList = 0, lastSlot = 0\<rparr>" "words s0 = (\<lambda>_. 0)"
    "blocks s0 = []" "used s0 = []"
    by (simp_all add: s0_def fresh_pool_def pool_init_def MemoryPool_def)
  have "pool_step s0 s1" unfolding s1_def
  proof (rule pool_step.grow)
    show "is_full (the_pool s0)" "fresh_block s0 4096" by (simp_all add: is_full_def fresh_block_def apart_def start)
    show "take_slot 4096 (the_pool s0) (words s0) = Inr (4120, p1, w)"
      by (simp add: start take_slot_def allocateNewBlock_def Let_def padPointer_def addsz_def subsz_def sizeof_Slot_def p1_def w_def)
  qed
  moreover have "pool_step s1 s2" unfolding s2_def
  proof (rule pool_step.bump)
    show "\<not> is_full (the_pool s1)" by (simp add: s1_def p1_def is_full_def)
    show "take_slot 0 (the_pool s1) (words s1) = Inr (4144, p1\<lparr>curSlot := 4168\<rparr>, w)"
      by (simp add: s1_def p1_def take_slot_def addsz_def sizeof_Slot_def)
  qed
  moreover have "reach (\<lambda>s. s = fresh_pool 24 (\<lambda>_. 0)) pool_step s0" by (rule reach_init) (simp add: s0_def)
  ultimately have "pool_reach 24 (\<lambda>_. 0) s2" unfolding pool_reach_def by (blast intro: reach_step)
  moreover have "used s2 = [4144, 4120]" "blocks s2 = [4096]" by (simp_all add: s2_def s1_def start)
  ultimately show ?thesis by blast
qed

theorem pool_slots_disjoint_witness:
  "\<exists>s. pool_reach 24 (\<lambda>_. 0) s \<and> used s = [4144, 4120] \<and> apart 24 (used s)"
proof -
  obtain s where s: "pool_reach 24 (\<lambda>_. 0) s" "used s = [4144, 4120]" using two_slots by blast
  from pool_slots_disjoint [OF s(1)] s show ?thesis by auto
qed

text \<open>
  C30: The destructor ends and returns every block to the system exactly once, whatever has been written into the slots.
\<close>

theorem pool_dtor_releases_blocks:
  assumes "pool_reach sz m s" and "8 dvd sz" and "8 \<le> sz" and "sz \<le> 512"
  shows "\<exists>n. pool_dtor n (words s) (firstBlock (the_pool s)) = Some (blocks s) \<and> distinct (blocks s)"
proof -
  obtain fs where ok: "pool_ok s fs" using pool_reach_ok [OF assms] by blast
  then have "linked (words s) (blocks s) (firstBlock (the_pool s))" "distinct (blocks s)" by (simp_all add: pool_ok_def apart_def)
  then show ?thesis using pool_dtor_linked [OF _ order_refl] by blast
qed

theorem pool_dtor_releases_blocks_witness:
  "\<exists>s n. pool_reach 24 (\<lambda>_. 0) s \<and> pool_dtor n (words s) (firstBlock (the_pool s)) = Some [4096]"
proof -
  obtain s where s: "pool_reach 24 (\<lambda>_. 0) s" "blocks s = [4096]" using two_slots by blast
  from pool_dtor_releases_blocks [OF s(1)] s show ?thesis by auto
qed

lemma pool_index_eq:
  assumes "0 < sz" and "sz \<le> 512"
  shows "pool_index sz = (sz + 7) div 8 - 1" and "pool_index sz < 64"
proof -
  have "addsz sz 7 = sz + 7" using assms by (simp add: addsz_def)
  moreover have "1 \<le> (sz + 7) div 8" "(sz + 7) div 8 \<le> 64" using assms by (simp_all add: div_le_mono [of _ 519 8, simplified] Suc_le_eq div_greater_zero_iff)
  moreover have "subsz x 1 = x - 1" if "1 \<le> x" "x \<le> 64" for x using that by (simp add: subsz_nowrap)
  ultimately show "pool_index sz = (sz + 7) div 8 - 1" "pool_index sz < 64" by (simp_all add: pool_index_def SLOT_BASE_SIZE_def)
qed

text \<open>
  C31: A request of up to 512 bytes goes to a pool whose slots are large enough and less than eight bytes too large, and an address freed with
  the size it was requested with is the next one that pool hands out.
\<close>

theorem size_class_fits:
  assumes "0 < sz" and "sz \<le> 512" and "ptr \<noteq> 0" and "length ps = 64"
  shows "sz \<le> SlotSize (initMemoryPool ps ! pool_index sz) \<and> SlotSize (initMemoryPool ps ! pool_index sz) < sz + 8 \<and>
    (\<exists>ps' m'. freeMemory ptr sz ps m = Inr (None, ps', m') \<and> useMemory big blk sz ps' m' = Inr (ptr, ps, m'))"
proof -
  note i = pool_index_eq [OF assms(1,2)]
  have "initMemoryPool ps ! pool_index sz = pool_init ((pool_index sz + 1) * 8) (ps ! pool_index sz)"
    using i(2) by (simp add: initMemoryPool_def MEMORY_POOL_NUM_def SLOT_BASE_SIZE_def)
  then have ss: "SlotSize (initMemoryPool ps ! pool_index sz) = (sz + 7) div 8 * 8" using i(1) assms(1) by (simp add: pool_init_def)
  let ?p = "ps ! pool_index sz"
  let ?ps = "ps[pool_index sz := ?p\<lparr>freeList := ptr\<rparr>]" and ?m = "m(ptr := freeList ?p)"
  have "freeMemory ptr sz ps m = Inr (None, ?ps, ?m)"
    using assms i(2) by (simp add: freeMemory_def MAX_SLOT_SIZE_def getMemoryPool_def MEMORY_POOL_NUM_def deallocate_def Let_def)
  moreover have "useMemory big blk sz ?ps ?m = Inr (ptr, ps, ?m)"
    using assms i(2) by (simp add: useMemory_def MAX_SLOT_SIZE_def getMemoryPool_def MEMORY_POOL_NUM_def Let_def allocate_def try_free_list_def)
  moreover have "sz \<le> (sz + 7) div 8 * 8" "(sz + 7) div 8 * 8 < sz + 8" by presburger+
  ultimately show ?thesis using ss by auto
qed

theorem size_class_fits_witness:
  "SlotSize (initMemoryPool (replicate 64 (MemoryPool 4096)) ! pool_index 20) < 28 \<and>
   (\<exists>ps m. freeMemory 4128 20 (replicate 64 (MemoryPool 4096)) (\<lambda>_. 0) = Inr (None, ps, m) \<and>
      useMemory 0 0 20 ps m = Inr (4128, replicate 64 (MemoryPool 4096), m))"
  using size_class_fits [of 20 4128 "replicate 64 (MemoryPool 4096)" "\<lambda>_. 0" 0 0] by simp

text \<open>
  Deleting an element of at most 512 bytes destroys that object and no other, gives nothing back to the system, and the next element of its
  size class is built in its place.
\<close>

lemma delete_then_new:
  assumes "0 < sz" and "sz \<le> 512" and "p \<noteq> 0" and "length (pools e) = 64"
  shows "\<exists>e1 e2. deleteElement sz p e = Inr (None, e1) \<and> live e1 = (live e)(p := None) \<and>
    newElement big blk sz v e1 = Inr (p, e2) \<and> live e2 = (live e)(p \<mapsto> v) \<and> pools e2 = pools e"
proof -
  note i = pool_index_eq [OF assms(1,2)]
  let ?q = "pools e ! pool_index sz"
  let ?e1 = "e\<lparr>live := (live e)(p := None), pools := (pools e)[pool_index sz := ?q\<lparr>freeList := p\<rparr>], mem := (mem e)(p := freeList ?q)\<rparr>"
  have "deleteElement sz p e = Inr (None, ?e1)"
    using assms i(2) by (simp add: deleteElement_def freeMemory_def MAX_SLOT_SIZE_def getMemoryPool_def MEMORY_POOL_NUM_def deallocate_def Let_def)
  moreover have "newElement big blk sz v ?e1 = Inr (p, ?e1\<lparr>pools := pools e, live := (live e)(p \<mapsto> v)\<rparr>)"
    using assms i(2) by (simp add: newElement_def useMemory_def MAX_SLOT_SIZE_def getMemoryPool_def MEMORY_POOL_NUM_def Let_def allocate_def try_free_list_def)
  ultimately show ?thesis by simp
qed

text \<open>\<^verbatim>\<open>freeMemory(p, 0)\<close>, the counterpart of the null pointer that \<^verbatim>\<open>useMemory(0)\<close> returns, indexes the array of pools at \<open>-1\<close>.\<close>

lemma freeMemory_zero: "ptr \<noteq> 0 \<Longrightarrow> freeMemory ptr 0 ps m = Inl Out_of_bounds"
  by (simp add: freeMemory_def MAX_SLOT_SIZE_def getMemoryPool_def MEMORY_POOL_NUM_def pool_index_def SLOT_BASE_SIZE_def addsz_def subsz_def Let_def)

text \<open>\<^verbatim>\<open>padPointer\<close> aligns to powers of two only: for a slot size of 24 the first slot of a block at 4096 is at address 4120.\<close>

lemma padPointer_aligns:
  assumes "align dvd 2 ^ 64" and "a < 2 ^ 64" and "padPointer a align = Inr r"
  shows "align dvd a + r"
proof -
  have al: "0 < align" using assms(1) by (cases align) auto
  then have r: "r = subsz align a mod align" using assms(3) by (auto simp: padPointer_def split: if_splits)
  have "(a + subsz align a) mod align = (a + (align + (2 ^ 64 - a))) mod align"
    unfolding subsz_def using assms(1) by (metis mod_add_right_eq mod_mod_cancel)
  also have "\<dots> = (2 ^ 64 + align) mod align" using assms(2) by (simp add: add.commute add.left_commute)
  also have "\<dots> = 0" using assms(1) by (simp add: dvd_imp_mod_0)
  finally show ?thesis using r by (simp add: mod_add_right_eq dvd_eq_mod_eq_0)
qed

lemma padPointer_misaligns: "padPointer 4104 24 = Inr 16 \<and> \<not> 24 dvd (4104 + 16 :: nat)"
  by (simp add: padPointer_def subsz_def)

text \<open>
  A new block empties the free list. A thread that found the list empty and then, after other threads have freed slots, obtains a new
  block drops those slots: they are neither in use nor on the list.
\<close>

theorem new_block_drops_free_slots:
  assumes "pool_ok s fs" and "is_full (the_pool s)" and "fresh_block s b"
  shows "\<exists>t p' m'. take_slot b (the_pool s) (words s) = Inr (t, p', m') \<and> freeList p' = 0 \<and> t \<notin> set fs"
proof -
  have sz: "size_ok (the_pool s)" using assms(1) by (simp add: pool_ok_def)
  have b: "8 dvd b" "b + BlockSize (the_pool s) < 2 ^ 64" "apart (BlockSize (the_pool s)) (b # blocks s)" using assms(3) by (simp_all add: fresh_block_def)
  obtain p1 r where n: "allocateNewBlock b (the_pool s) (words s) = Inr (p1, (words s)(b := firstBlock (the_pool s)))" "r < SlotSize (the_pool s)"
    "p1 = (the_pool s)\<lparr>firstBlock := b, curSlot := b + 8 + r, lastSlot := b + BlockSize (the_pool s) - SlotSize (the_pool s) + 1, freeList := 0\<rparr>"
    using new_block_slot [OF sz b(1,2)] by blast
  have "b + 8 + r \<notin> set fs"
  proof
    assume "b + 8 + r \<in> set fs"
    then have "b + 8 + r \<in> set (used s @ fs)" by simp
    then obtain b' where b': "b' \<in> set (blocks s)" "in_block (the_pool s) b' (b + 8 + r)" using slot_block [OF assms(1)] by metis
    then have "b + BlockSize (the_pool s) \<le> b' \<or> b' + BlockSize (the_pool s) \<le> b" using b(3) by (auto simp: apart_Cons)
    then show False using b'(2) n(2) sz by (auto simp: in_block_def size_ok_def)
  qed
  then show ?thesis using assms(2) n by (simp add: take_slot_def is_full_def)
qed

end
