(* ===== verification/FreqLists.thy ===== *)
theory FreqLists
  imports Prelude
begin

text \<open>
  The doubly linked lists of the LFU cache, \<^verbatim>\<open>class FreqList\<close> of \<^verbatim>\<open>include/LFU.h\<close>. Nodes live in an explicit heap, since the list of
  a frequency, the map of the cache and the neighbours of a node all point to the same object. The operations
  on the pointers are shown to be the operations on the sequence of the nodes between the two sentinels.
\<close>

section \<open>Nodes and the heap\<close>

type_synonym ptr = nat

record ('k, 'v) node =
  nfreq :: int
  nkey :: 'k
  nvalue :: 'v
  npre :: "ptr option"
  nnext :: "ptr option"

text \<open>\<open>brk\<close> is the address the next \<^verbatim>\<open>make_shared\<close> returns: no object lives there or above.\<close>

record ('k, 'v) heap =
  cells :: "ptr \<rightharpoonup> ('k, 'v) node"
  brk :: ptr

definition Node :: "'k \<Rightarrow> 'v \<Rightarrow> ('k, 'v) node" where
  "Node k v = \<lparr>nfreq = 1, nkey = k, nvalue = v, npre = None, nnext = None\<rparr>"

definition make_node :: "('k, 'v) node \<Rightarrow> ('k, 'v) heap \<Rightarrow> ptr \<times> ('k, 'v) heap" where
  "make_node n h = (brk h, h\<lparr>cells := (cells h)(brk h \<mapsto> n), brk := Suc (brk h)\<rparr>)"

definition cell :: "ptr \<Rightarrow> ('k, 'v) heap \<Rightarrow> ('k, 'v) node result" where
  "cell p h = (case cells h p of None \<Rightarrow> Inl Null_deref | Some n \<Rightarrow> Inr n)"

definition deref :: "ptr option \<Rightarrow> ptr result" where
  "deref q = (case q of None \<Rightarrow> Inl Null_deref | Some p \<Rightarrow> Inr p)"

definition modify :: "ptr \<Rightarrow> (('k, 'v) node \<Rightarrow> ('k, 'v) node) \<Rightarrow> ('k, 'v) heap \<Rightarrow> ('k, 'v) heap result" where
  "modify p f h = bind_result (cell p h) (\<lambda>n. Inr (h\<lparr>cells := (cells h)(p \<mapsto> f n)\<rparr>))"

definition set_pre :: "ptr \<Rightarrow> ptr option \<Rightarrow> ('k, 'v) heap \<Rightarrow> ('k, 'v) heap result" where
  "set_pre p q = modify p (\<lambda>n. n\<lparr>npre := q\<rparr>)"

definition set_next :: "ptr \<Rightarrow> ptr option \<Rightarrow> ('k, 'v) heap \<Rightarrow> ('k, 'v) heap result" where
  "set_next p q = modify p (\<lambda>n. n\<lparr>nnext := q\<rparr>)"

section \<open>FreqList\<close>

record freq_list =
  list_freq :: int
  head :: ptr
  tail :: ptr

text \<open>The sentinels are default-constructed; \<open>k0\<close> and \<open>v0\<close> are the key and value they happen to hold.\<close>

definition FreqList :: "'k \<Rightarrow> 'v \<Rightarrow> int \<Rightarrow> ('k, 'v) heap \<Rightarrow> (freq_list \<times> ('k, 'v) heap) result" where
  "FreqList k0 v0 n h =
     (let (hd, h1) = make_node (Node k0 v0) h; (tl, h2) = make_node (Node k0 v0) h1
      in bind_result (set_next hd (Some tl) h2) (\<lambda>h3.
         bind_result (set_pre tl (Some hd) h3) (\<lambda>h4.
         Inr (\<lparr>list_freq = n, head = hd, tail = tl\<rparr>, h4))))"

definition isEmpty :: "freq_list \<Rightarrow> ('k, 'v) heap \<Rightarrow> bool result" where
  "isEmpty l h = bind_result (cell (head l) h) (\<lambda>n. Inr (nnext n = Some (tail l)))"

definition addNode :: "ptr \<Rightarrow> freq_list \<Rightarrow> ('k, 'v) heap \<Rightarrow> ('k, 'v) heap result" where
  "addNode p l h =
     bind_result (cell (tail l) h) (\<lambda>t.
     bind_result (set_pre p (npre t) h) (\<lambda>h1.
     bind_result (set_next p (Some (tail l)) h1) (\<lambda>h2.
     bind_result (deref (npre t)) (\<lambda>q.
     bind_result (set_next q (Some p) h2) (\<lambda>h3.
     set_pre (tail l) (Some p) h3)))))"

definition removeNode :: "ptr \<Rightarrow> ('k, 'v) heap \<Rightarrow> ('k, 'v) heap result" where
  "removeNode p h =
     bind_result (cell p h) (\<lambda>n.
       case (npre n, nnext n) of
         (Some a, Some b) \<Rightarrow>
           bind_result (set_next a (Some b) h) (\<lambda>h1.
           bind_result (set_pre b (Some a) h1) (\<lambda>h2.
           bind_result (set_pre p None h2) (\<lambda>h3.
           set_next p None h3)))
       | _ \<Rightarrow> Inr h)"

definition getFirstNode :: "freq_list \<Rightarrow> ('k, 'v) heap \<Rightarrow> ptr result" where
  "getFirstNode l h = bind_result (cell (head l) h) (\<lambda>n. deref (nnext n))"

section \<open>The sequence a list represents\<close>

definition next_of :: "('k, 'v) heap \<Rightarrow> ptr \<Rightarrow> ptr option" where
  "next_of h p = (case cells h p of None \<Rightarrow> None | Some n \<Rightarrow> nnext n)"

definition pre_of :: "('k, 'v) heap \<Rightarrow> ptr \<Rightarrow> ptr option" where
  "pre_of h p = (case cells h p of None \<Rightarrow> None | Some n \<Rightarrow> npre n)"

fun chain :: "('k, 'v) heap \<Rightarrow> ptr list \<Rightarrow> bool" where
  "chain h (p # q # ps) \<longleftrightarrow> next_of h p = Some q \<and> pre_of h q = Some p \<and> chain h (q # ps)"
| "chain h ps = True"

text \<open>The list \<open>l\<close> holds the nodes \<open>xs\<close>, in this order, between its sentinels.\<close>

definition holds :: "('k, 'v) heap \<Rightarrow> freq_list \<Rightarrow> ptr list \<Rightarrow> bool" where
  "holds h l xs \<longleftrightarrow> distinct (head l # xs @ [tail l]) \<and> set (head l # xs @ [tail l]) \<subseteq> dom (cells h) \<and>
     chain h (head l # xs @ [tail l]) \<and> pre_of h (head l) = None \<and> next_of h (tail l) = None"

abbreviation footprint :: "freq_list \<Rightarrow> ptr list \<Rightarrow> ptr set" where
  "footprint l xs \<equiv> set (head l # xs @ [tail l])"

text \<open>What a node carries besides its links.\<close>

definition payload :: "('k, 'v) heap \<Rightarrow> ptr \<Rightarrow> (int \<times> 'k \<times> 'v) option" where
  "payload h p = map_option (\<lambda>n. (nfreq n, nkey n, nvalue n)) (cells h p)"

lemma chain_append: "chain h (ps @ p # q # qs) \<longleftrightarrow> chain h (ps @ [p]) \<and> next_of h p = Some q \<and> pre_of h q = Some p \<and> chain h (q # qs)"
proof (induction ps)
  case (Cons a ps)
  then show ?case by (cases ps) auto
qed simp

lemma chain_frame:
  assumes "\<forall>p\<in>set ps. next_of h' p = next_of h p \<and> pre_of h' p = pre_of h p"
  shows "chain h' ps = chain h ps"
  using assms by (induction h ps rule: chain.induct) auto

lemma chain_cong:
  assumes "\<forall>p\<in>set (butlast ps). next_of h' p = next_of h p" and "\<forall>p\<in>set (tl ps). pre_of h' p = pre_of h p"
  shows "chain h' ps = chain h ps"
  using assms
proof (induction h ps rule: chain.induct)
  case (1 h p q ps)
  have "\<forall>p\<in>set (tl (q # ps)). pre_of h' p = pre_of h p" using 1(3) by (cases ps) auto
  with 1 show ?case by simp
qed simp_all

lemma holds_frame:
  assumes "holds h l xs" and "\<forall>p\<in>footprint l xs. cells h' p = cells h p"
  shows "holds h' l xs"
proof -
  have "\<forall>p\<in>set (head l # xs @ [tail l]). next_of h' p = next_of h p \<and> pre_of h' p = pre_of h p"
    using assms(2) by (simp add: next_of_def pre_of_def)
  from chain_frame [OF this] show ?thesis
    using assms by (auto simp: holds_def next_of_def pre_of_def dom_def)
qed

section \<open>The operations on the sequence\<close>

lemma modify_ok: "cells h p = Some n \<Longrightarrow> modify p f h = Inr (h\<lparr>cells := (cells h)(p \<mapsto> f n)\<rparr>)"
  by (simp add: modify_def cell_def)

lemma set_pre_ok:
  assumes "p \<in> dom (cells h)"
  obtains h' where "set_pre p q h = Inr h'" and "pre_of h' = (pre_of h)(p := q)" and "next_of h' = next_of h"
    and "payload h' = payload h" and "dom (cells h') = dom (cells h)" and "brk h' = brk h" and "\<forall>x. x \<noteq> p \<longrightarrow> cells h' x = cells h x"
proof -
  obtain n where n: "cells h p = Some n" using assms by auto
  let ?h = "h\<lparr>cells := (cells h)(p \<mapsto> n\<lparr>npre := q\<rparr>)\<rparr>"
  have "set_pre p q h = Inr ?h" using n by (simp add: set_pre_def modify_ok)
  moreover have "pre_of ?h = (pre_of h)(p := q)" "next_of ?h = next_of h" "payload ?h = payload h" "dom (cells ?h) = dom (cells h)"
    using n by (auto simp: fun_eq_iff pre_of_def next_of_def payload_def)
  ultimately show ?thesis using that by simp
qed

lemma set_next_ok:
  assumes "p \<in> dom (cells h)"
  obtains h' where "set_next p q h = Inr h'" and "next_of h' = (next_of h)(p := q)" and "pre_of h' = pre_of h"
    and "payload h' = payload h" and "dom (cells h') = dom (cells h)" and "brk h' = brk h" and "\<forall>x. x \<noteq> p \<longrightarrow> cells h' x = cells h x"
proof -
  obtain n where n: "cells h p = Some n" using assms by auto
  let ?h = "h\<lparr>cells := (cells h)(p \<mapsto> n\<lparr>nnext := q\<rparr>)\<rparr>"
  have "set_next p q h = Inr ?h" using n by (simp add: set_next_def modify_ok)
  moreover have "next_of ?h = (next_of h)(p := q)" "pre_of ?h = pre_of h" "payload ?h = payload h" "dom (cells ?h) = dom (cells h)"
    using n by (auto simp: fun_eq_iff pre_of_def next_of_def payload_def)
  ultimately show ?thesis using that by simp
qed

text \<open>Between its sentinels every node has its neighbours.\<close>

lemma holds_last:
  assumes "holds h l xs"
  obtains as q where "head l # xs = as @ [q]" and "next_of h q = Some (tail l)" and "pre_of h (tail l) = Some q"
    and "chain h (as @ [q])"
proof -
  obtain as q where aq: "head l # xs = as @ [q]" by (metis list.discI rev_exhaust)
  then have "head l # xs @ [tail l] = as @ q # tail l # []" by (metis append.assoc append_Cons append_Nil)
  with assms have "chain h (as @ q # tail l # [])" by (simp add: holds_def)
  then show ?thesis using that [OF aq] by (simp only: chain_append)
qed

lemma list_addNode_ok:
  assumes rep: "holds h l xs" and p: "p \<in> dom (cells h)" "p \<notin> footprint l xs"
  shows "\<exists>h'. addNode p l h = Inr h' \<and> holds h' l (xs @ [p]) \<and> payload h' = payload h \<and> dom (cells h') = dom (cells h) \<and> brk h' = brk h \<and>
    (\<forall>x. x \<notin> insert p (footprint l xs) \<longrightarrow> cells h' x = cells h x)"
proof -
  obtain as q where aq: "head l # xs = as @ [q]" "pre_of h (tail l) = Some q" "chain h (as @ [q])" using holds_last [OF rep] by metis
  have d: "distinct (as @ [q, tail l])" "set (as @ [q, tail l]) \<subseteq> dom (cells h)" "p \<notin> set (as @ [q, tail l])"
    "pre_of h (head l) = None" "next_of h (tail l) = None"
    using rep p(2) aq(1) unfolding holds_def by (metis append.assoc append_Cons append_Nil)+
  obtain t where t: "cells h (tail l) = Some t" "npre t = Some q" using aq(2) by (auto simp: pre_of_def split: option.splits)
  obtain h1 where h1: "set_pre p (Some q) h = Inr h1" "pre_of h1 = (pre_of h)(p := Some q)" "next_of h1 = next_of h" "payload h1 = payload h"
    "dom (cells h1) = dom (cells h)" "brk h1 = brk h" "\<forall>x. x \<noteq> p \<longrightarrow> cells h1 x = cells h x" by (rule set_pre_ok [OF p(1)])
  obtain h2 where h2: "set_next p (Some (tail l)) h1 = Inr h2" "next_of h2 = (next_of h1)(p := Some (tail l))" "pre_of h2 = pre_of h1" "payload h2 = payload h1"
    "dom (cells h2) = dom (cells h1)" "brk h2 = brk h1" "\<forall>x. x \<noteq> p \<longrightarrow> cells h2 x = cells h1 x"
    using set_next_ok [of p h1] p(1) h1(5) by metis
  obtain h3 where h3: "set_next q (Some p) h2 = Inr h3" "next_of h3 = (next_of h2)(q := Some p)" "pre_of h3 = pre_of h2" "payload h3 = payload h2"
    "dom (cells h3) = dom (cells h2)" "brk h3 = brk h2" "\<forall>x. x \<noteq> q \<longrightarrow> cells h3 x = cells h2 x"
  proof -
    have "q \<in> dom (cells h2)" using d(2) h1(5) h2(5) by auto
    from set_next_ok [OF this] that show ?thesis by metis
  qed
  obtain h4 where h4: "set_pre (tail l) (Some p) h3 = Inr h4" "pre_of h4 = (pre_of h3)(tail l := Some p)" "next_of h4 = next_of h3" "payload h4 = payload h3"
    "dom (cells h4) = dom (cells h3)" "brk h4 = brk h3" "\<forall>x. x \<noteq> tail l \<longrightarrow> cells h4 x = cells h3 x"
  proof -
    have "tail l \<in> dom (cells h3)" using d(2) h1(5) h2(5) h3(5) by auto
    from set_pre_ok [OF this] that show ?thesis by metis
  qed
  have "addNode p l h = Inr h4" using t h1(1) h2(1) h3(1) h4(1) by (simp add: addNode_def cell_def deref_def)
  moreover have "holds h4 l (xs @ [p])"
  proof -
    have n4: "next_of h4 = (next_of h)(p := Some (tail l), q := Some p)" and p4: "pre_of h4 = (pre_of h)(p := Some q, tail l := Some p)"
      using h1 h2 h3 h4 by simp_all
    have "chain h4 (as @ [q]) = chain h (as @ [q])"
    proof (rule chain_cong)
      show "\<forall>x\<in>set (butlast (as @ [q])). next_of h4 x = next_of h x" using d(1,3) n4 by auto
      have "set (tl (as @ [q])) \<subseteq> set (as @ [q])" by (cases as) auto
      then show "\<forall>x\<in>set (tl (as @ [q])). pre_of h4 x = pre_of h x" using d(1,3) p4 by auto
    qed
    then have "chain h4 (as @ q # p # tail l # [])" using aq(3) d n4 p4 by (simp only: chain_append) auto
    moreover have eq: "head l # (xs @ [p]) @ [tail l] = as @ q # p # tail l # []" using aq(1) by (metis append.assoc append_Cons append_Nil)
    moreover have "pre_of h4 (head l) = None"
    proof -
      have "head l \<in> set (as @ [q])" using aq(1) by (metis list.set_intros(1))
      then have "head l \<noteq> p" "head l \<noteq> tail l" using d(1,3) by auto
      then show ?thesis using p4 d(4) by simp
    qed
    moreover have "next_of h4 (tail l) = None" using n4 d by auto
    moreover have "dom (cells h4) = dom (cells h)" using h1 h2 h3 h4 by simp
    ultimately show ?thesis unfolding holds_def eq using d p(1) by auto
  qed
  moreover have "\<forall>x. x \<notin> insert p (footprint l xs) \<longrightarrow> cells h4 x = cells h x"
  proof (intro allI impI)
    fix x assume x: "x \<notin> insert p (footprint l xs)"
    have "q \<in> footprint l xs" using aq(1) by (metis UnCI append_Cons in_set_conv_decomp set_append)
    then have "x \<noteq> q" "x \<noteq> tail l" "x \<noteq> p" using x by auto
    then show "cells h4 x = cells h x" using h1(7) h2(7) h3(7) h4(7) by simp
  qed
  ultimately show ?thesis using h1 h2 h3 h4 by auto
qed

lemma list_removeNode_ok:
  assumes rep: "holds h l xs" and p: "p \<in> set xs"
  shows "\<exists>h'. removeNode p h = Inr h' \<and> holds h' l (remove1 p xs) \<and> payload h' = payload h \<and> dom (cells h') = dom (cells h) \<and> brk h' = brk h \<and>
    (\<forall>x. x \<notin> footprint l xs \<longrightarrow> cells h' x = cells h x)"
proof -
  obtain as bs where xs: "xs = as @ p # bs" "p \<notin> set as" using p split_list_first by metis
  then have rm: "remove1 p xs = as @ bs" by (simp add: remove1_append)
  obtain A a where A: "head l # as = A @ [a]" by (metis list.discI rev_exhaust)
  obtain b B where B: "bs @ [tail l] = b # B" by (cases bs) auto
  have all: "head l # xs @ [tail l] = A @ a # p # b # B" using xs(1) A B by (metis append.assoc append_Cons append_Nil)
  have new: "head l # remove1 p xs @ [tail l] = A @ a # b # B" using rm A B by (metis append.assoc append_Cons append_Nil)
  have d: "distinct (A @ a # p # b # B)" "set (A @ a # p # b # B) \<subseteq> dom (cells h)" "chain h (A @ a # p # b # B)"
    "pre_of h (head l) = None" "next_of h (tail l) = None"
    using rep unfolding holds_def all by simp_all
  have "chain h ((A @ [a]) @ p # b # B)" using d(3) by simp
  then have links: "next_of h p = Some b" "pre_of h b = Some p" "chain h (b # B)" by (simp_all only: chain_append)
  have left: "chain h (A @ [a])" "next_of h a = Some p" "pre_of h p = Some a" using d(3) by (simp_all only: chain_append)
  obtain n where n: "cells h p = Some n" "npre n = Some a" "nnext n = Some b"
    using links(1) left(3) by (auto simp: next_of_def pre_of_def split: option.splits)
  obtain h1 where h1: "set_next a (Some b) h = Inr h1" "next_of h1 = (next_of h)(a := Some b)" "pre_of h1 = pre_of h" "payload h1 = payload h"
    "dom (cells h1) = dom (cells h)" "brk h1 = brk h" "\<forall>x. x \<noteq> a \<longrightarrow> cells h1 x = cells h x"
    using set_next_ok [of a h] d(2) by auto
  obtain h2 where h2: "set_pre b (Some a) h1 = Inr h2" "pre_of h2 = (pre_of h1)(b := Some a)" "next_of h2 = next_of h1" "payload h2 = payload h1"
    "dom (cells h2) = dom (cells h1)" "brk h2 = brk h1" "\<forall>x. x \<noteq> b \<longrightarrow> cells h2 x = cells h1 x"
    using set_pre_ok [of b h1] d(2) h1(5) by auto
  obtain h3 where h3: "set_pre p None h2 = Inr h3" "pre_of h3 = (pre_of h2)(p := None)" "next_of h3 = next_of h2" "payload h3 = payload h2"
    "dom (cells h3) = dom (cells h2)" "brk h3 = brk h2" "\<forall>x. x \<noteq> p \<longrightarrow> cells h3 x = cells h2 x"
    using set_pre_ok [of p h2] d(2) h1(5) h2(5) by auto
  obtain h4 where h4: "set_next p None h3 = Inr h4" "next_of h4 = (next_of h3)(p := None)" "pre_of h4 = pre_of h3" "payload h4 = payload h3"
    "dom (cells h4) = dom (cells h3)" "brk h4 = brk h3" "\<forall>x. x \<noteq> p \<longrightarrow> cells h4 x = cells h3 x"
    using set_next_ok [of p h3] d(2) h1(5) h2(5) h3(5) by auto
  have "removeNode p h = Inr h4" using n h1(1) h2(1) h3(1) h4(1) by (simp add: removeNode_def cell_def)
  moreover have "holds h4 l (remove1 p xs)"
  proof -
    have n4: "next_of h4 = (next_of h)(a := Some b, p := None)" and p4: "pre_of h4 = (pre_of h)(b := Some a, p := None)"
      using h1 h2 h3 h4 by simp_all
    have "chain h4 (A @ [a]) = chain h (A @ [a])"
    proof (rule chain_cong)
      show "\<forall>x\<in>set (butlast (A @ [a])). next_of h4 x = next_of h x" using d(1) n4 by auto
      have "set (tl (A @ [a])) \<subseteq> set (A @ [a])" by (cases A) auto
      then show "\<forall>x\<in>set (tl (A @ [a])). pre_of h4 x = pre_of h x" using d(1) p4 by auto
    qed
    moreover have "chain h4 (b # B) = chain h (b # B)"
    proof (rule chain_cong)
      have "set (butlast (b # B)) \<subseteq> set (b # B)" by (meson in_set_butlastD subsetI)
      then show "\<forall>x\<in>set (butlast (b # B)). next_of h4 x = next_of h x" using d(1) n4 by auto
      show "\<forall>x\<in>set (tl (b # B)). pre_of h4 x = pre_of h x" using d(1) p4 by auto
    qed
    ultimately have "chain h4 (A @ a # b # B)" using left(1) links(3) d(1) n4 p4 by (simp only: chain_append) auto
    moreover have "pre_of h4 (head l) = None"
    proof -
      have "head l \<in> set (A @ [a])" using A by (metis list.set_intros(1))
      then have "head l \<noteq> p" "head l \<noteq> b" using d(1) by auto
      then show ?thesis using p4 d(4) by simp
    qed
    moreover have "next_of h4 (tail l) = None"
    proof -
      have "tail l \<in> set (b # B)" using B by (metis in_set_conv_decomp)
      then have "tail l \<noteq> a" using d(1) by auto
      then show ?thesis using n4 d(5) by simp
    qed
    moreover have "dom (cells h4) = dom (cells h)" using h1 h2 h3 h4 by simp
    ultimately show ?thesis unfolding holds_def new using d(1,2) by auto
  qed
  moreover have "\<forall>x. x \<notin> footprint l xs \<longrightarrow> cells h4 x = cells h x"
    using h1(7) h2(7) h3(7) h4(7) unfolding all by auto
  ultimately show ?thesis using h1 h2 h3 h4 by auto
qed

lemma holds_first:
  assumes "holds h l xs"
  shows "next_of h (head l) = Some (hd (xs @ [tail l]))"
  using assms by (cases xs) (auto simp: holds_def)

lemma isEmpty_ok:
  assumes "holds h l xs"
  shows "isEmpty l h = Inr (xs = [])"
proof -
  obtain n where n: "cells h (head l) = Some n" using assms by (auto simp: holds_def)
  then have "nnext n = Some (hd (xs @ [tail l]))" using holds_first [OF assms] by (simp add: next_of_def)
  moreover have "hd (xs @ [tail l]) = tail l \<longleftrightarrow> xs = []" using assms by (cases xs) (auto simp: holds_def)
  ultimately show ?thesis using n by (simp add: isEmpty_def cell_def)
qed

lemma getFirstNode_ok:
  assumes "holds h l xs"
  shows "getFirstNode l h = Inr (hd (xs @ [tail l]))"
proof -
  obtain n where n: "cells h (head l) = Some n" using assms by (auto simp: holds_def)
  then show ?thesis using holds_first [OF assms] by (simp add: getFirstNode_def cell_def deref_def next_of_def)
qed

definition heap_ok :: "('k, 'v) heap \<Rightarrow> bool" where
  "heap_ok h = (\<forall>p n. cells h p = Some n \<longrightarrow> p < brk h)"

lemma heap_ok_dom: "heap_ok h \<longleftrightarrow> (\<forall>p\<in>dom (cells h). p < brk h)"
  by (auto simp: heap_ok_def)

lemma make_node_ok:
  assumes "heap_ok h" and "make_node n h = (p, h')"
  shows "heap_ok h' \<and> p \<notin> dom (cells h) \<and> cells h' = (cells h)(p \<mapsto> n) \<and> dom (cells h') = insert p (dom (cells h))"
  using assms by (fastforce simp: make_node_def heap_ok_def less_Suc_eq)

lemma FreqList_ok:
  assumes "heap_ok h"
  shows "\<exists>l h'. FreqList k0 v0 f h = Inr (l, h') \<and> holds h' l [] \<and> list_freq l = f \<and> heap_ok h' \<and> dom (cells h') = dom (cells h) \<union> {head l, tail l} \<and>
    head l \<notin> dom (cells h) \<and> tail l \<notin> dom (cells h) \<and> (\<forall>x\<in>dom (cells h). cells h' x = cells h x)"
proof -
  let ?a = "brk h" and ?b = "Suc (brk h)" and ?n = "Node k0 v0"
  let ?h = "\<lparr>cells = (cells h)(?a \<mapsto> ?n\<lparr>nnext := Some ?b\<rparr>, ?b \<mapsto> ?n\<lparr>npre := Some ?a\<rparr>), brk = Suc ?b\<rparr>"
  let ?l = "\<lparr>list_freq = f, head = ?a, tail = ?b\<rparr>"
  have "((cells h)(?a \<mapsto> ?n, ?b \<mapsto> ?n, ?a \<mapsto> ?n\<lparr>nnext := Some ?b\<rparr>, ?b \<mapsto> ?n\<lparr>npre := Some ?a\<rparr>)) = cells ?h"
    by (simp add: fun_eq_iff)
  then have "FreqList k0 v0 f h = Inr (?l, ?h)"
    by (simp add: FreqList_def make_node_def Let_def set_next_def set_pre_def modify_def cell_def)
  moreover have "holds ?h ?l []" by (simp add: holds_def next_of_def pre_of_def Node_def)
  moreover have lt: "\<forall>p\<in>dom (cells h). p < ?a" using assms by (auto simp: heap_ok_def)
  moreover have "heap_ok ?h" using lt by (force simp: heap_ok_def less_Suc_eq)
  moreover have "?a \<notin> dom (cells h)" "?b \<notin> dom (cells h)" using lt by (meson less_irrefl lessI less_asym)+
  moreover have "dom (cells ?h) = dom (cells h) \<union> {?a, ?b}" "\<forall>x\<in>dom (cells h). cells ?h x = cells h x" using lt by fastforce+
  ultimately show ?thesis by (intro exI [of _ ?l] exI [of _ ?h]) simp
qed

text \<open>
  C28: The pointer surgery of \<^verbatim>\<open>FreqList\<close> implements a queue of nodes: a list that holds the nodes \<open>xs\<close> is empty exactly when \<open>xs\<close> is, its first
  node is the head of \<open>xs\<close>, adding a foreign node appends it, and removing a member takes it out wherever it stands; contents of nodes and all
  cells outside the list and the node are untouched.
\<close>

theorem freq_list_is_queue:
  assumes "holds h l xs"
  shows "isEmpty l h = Inr (xs = []) \<and> (xs \<noteq> [] \<longrightarrow> getFirstNode l h = Inr (hd xs)) \<and>
    (\<forall>p\<in>dom (cells h) - footprint l xs. \<exists>h'. addNode p l h = Inr h' \<and> holds h' l (xs @ [p]) \<and> payload h' = payload h \<and>
       (\<forall>x. x \<notin> insert p (footprint l xs) \<longrightarrow> cells h' x = cells h x)) \<and>
    (\<forall>p\<in>set xs. \<exists>h'. removeNode p h = Inr h' \<and> holds h' l (remove1 p xs) \<and> payload h' = payload h \<and>
       (\<forall>x. x \<notin> footprint l xs \<longrightarrow> cells h' x = cells h x))"
proof (intro conjI impI ballI)
  show "isEmpty l h = Inr (xs = [])" using assms by (rule isEmpty_ok)
  show "getFirstNode l h = Inr (hd xs)" if "xs \<noteq> []" using that getFirstNode_ok [OF assms] by simp
next
  fix p assume p: "p \<in> dom (cells h) - footprint l xs"
  show "\<exists>h'. addNode p l h = Inr h' \<and> holds h' l (xs @ [p]) \<and> payload h' = payload h \<and>
       (\<forall>x. x \<notin> insert p (footprint l xs) \<longrightarrow> cells h' x = cells h x)"
    using list_addNode_ok [OF assms, of p] p by blast
next
  fix p assume p: "p \<in> set xs"
  show "\<exists>h'. removeNode p h = Inr h' \<and> holds h' l (remove1 p xs) \<and> payload h' = payload h \<and>
       (\<forall>x. x \<notin> footprint l xs \<longrightarrow> cells h' x = cells h x)"
    using list_removeNode_ok [OF assms p] by blast
qed

theorem freq_list_is_queue_witness:
  "\<exists>l h. FreqList (0::nat) (0::nat) 1 \<lparr>cells = [7 \<mapsto> Node 5 6], brk = 8\<rparr> = Inr (l, h) \<and> isEmpty l h = Inr True \<and>
     (\<exists>h'. addNode 7 l h = Inr h' \<and> holds h' l [7])"
proof -
  let ?h = "\<lparr>cells = [7 \<mapsto> Node 5 6], brk = 8\<rparr> :: (nat, nat) heap"
  have "heap_ok ?h" by (simp add: heap_ok_def)
  from FreqList_ok [OF this, of 0 0 1] obtain l h where l: "FreqList 0 0 1 ?h = Inr (l, h)" "holds h l []"
    "dom (cells h) = dom (cells ?h) \<union> {head l, tail l}" "head l \<notin> dom (cells ?h)" "tail l \<notin> dom (cells ?h)" by blast
  then have "7 \<in> dom (cells h) - footprint l []" by auto
  then show ?thesis using freq_list_is_queue [OF l(2)] l(1) by (metis append_Nil)
qed

end
