(* ===== verification/LfuCache.thy ===== *)
theory LfuCache
  imports FreqLists "HOL-Library.AList"
begin

text \<open>
  The LFU cache \<^verbatim>\<open>RLfuCache\<close> and the sharded \<^verbatim>\<open>RHashLfuCache\<close> of \<^verbatim>\<open>include/LFU.h\<close>, on the linked lists of \<open>FreqLists\<close>. The hash maps are association lists;
  the order in which an iteration over \<open>nodeMap_\<close> visits its entries is a parameter \<open>ord\<close>, since \<^verbatim>\<open>std::unordered_map\<close> does not fix it.
  \<open>k0\<close> and \<open>v0\<close> are the contents of default-constructed sentinels.
\<close>

section \<open>RLfuCache\<close>

definition INT8_MAX :: int where "INT8_MAX = 127"
definition INT_MAX :: int where "INT_MAX = 2 ^ 31 - 1"

record ('k, 'v) lfu =
  capacity :: int
  minFreq :: int
  maxAverageNum :: int
  curAverageNum :: int
  curTotalNum :: int
  nodeMap :: "('k \<times> ptr) list"
  freqToFreqList :: "(int \<times> freq_list) list"
  mem :: "('k, 'v) heap"

definition RLfuCache :: "int \<Rightarrow> int \<Rightarrow> ('k, 'v) heap \<Rightarrow> ('k, 'v) lfu" where
  "RLfuCache cap maxAverage h =
     \<lparr>capacity = cap, minFreq = INT8_MAX, maxAverageNum = maxAverage, curAverageNum = 0, curTotalNum = 0,
      nodeMap = [], freqToFreqList = [], mem = h\<rparr>"

text \<open>\<^verbatim>\<open>freqToFreqList_[f]->\<close>: the index operator inserts a null pointer for a missing frequency.\<close>

definition list_at :: "int \<Rightarrow> ('k, 'v) lfu \<Rightarrow> freq_list result" where
  "list_at f c = (case map_of (freqToFreqList c) f of None \<Rightarrow> Inl Null_deref | Some l \<Rightarrow> Inr l)"

definition removeFromFreqList :: "ptr \<Rightarrow> ('k, 'v) lfu \<Rightarrow> ('k, 'v) lfu result" where
  "removeFromFreqList p c =
     bind_result (cell p (mem c)) (\<lambda>n.
     bind_result (list_at (nfreq n) c) (\<lambda>l.
     bind_result (removeNode p (mem c)) (\<lambda>h. Inr (c\<lparr>mem := h\<rparr>))))"

definition addToFreqList :: "'k \<Rightarrow> 'v \<Rightarrow> ptr \<Rightarrow> ('k, 'v) lfu \<Rightarrow> ('k, 'v) lfu result" where
  "addToFreqList k0 v0 p c =
     bind_result (cell p (mem c)) (\<lambda>n.
     bind_result
       (if map_of (freqToFreqList c) (nfreq n) = None
        then bind_result (FreqList k0 v0 (nfreq n) (mem c)) (\<lambda>(l, h).
               Inr (c\<lparr>freqToFreqList := (nfreq n, l) # freqToFreqList c, mem := h\<rparr>))
        else Inr c) (\<lambda>c1.
     bind_result (list_at (nfreq n) c1) (\<lambda>l.
     bind_result (addNode p l (mem c1)) (\<lambda>h. Inr (c1\<lparr>mem := h\<rparr>)))))"

definition set_freq :: "(int \<Rightarrow> int) \<Rightarrow> ptr \<Rightarrow> ('k, 'v) lfu \<Rightarrow> ('k, 'v) lfu result" where
  "set_freq g p c = bind_result (modify p (\<lambda>n. n\<lparr>nfreq := g (nfreq n)\<rparr>) (mem c)) (\<lambda>h. Inr (c\<lparr>mem := h\<rparr>))"

text \<open>A node leaves the list of its frequency, its frequency changes, and it joins the list of the new one.\<close>

definition requeue :: "'k \<Rightarrow> 'v \<Rightarrow> (int \<Rightarrow> int) \<Rightarrow> ptr \<Rightarrow> ('k, 'v) lfu \<Rightarrow> ('k, 'v) lfu result" where
  "requeue k0 v0 g p c =
     bind_result (removeFromFreqList p c) (\<lambda>c1.
     bind_result (set_freq g p c1) (\<lambda>c2. addToFreqList k0 v0 p c2))"

fun min_nonempty :: "('k, 'v) heap \<Rightarrow> (int \<times> freq_list) list \<Rightarrow> int \<Rightarrow> int result" where
  "min_nonempty h [] m = Inr m"
| "min_nonempty h ((f, l) # ls) m =
     bind_result (isEmpty l h) (\<lambda>e. min_nonempty h ls (if \<not> e then min m f else m))"

definition updateMinFreq :: "('k, 'v) lfu \<Rightarrow> ('k, 'v) lfu result" where
  "updateMinFreq c =
     bind_result (min_nonempty (mem c) (freqToFreqList c) INT8_MAX) (\<lambda>m.
       Inr (c\<lparr>minFreq := (if m = INT8_MAX then 1 else m)\<rparr>))"

definition aged :: "int \<Rightarrow> int \<Rightarrow> int" where
  "aged maxAverage f = (let f' = f - c_div maxAverage 2 in if f' < 1 then 1 else f')"

fun age_all :: "'k \<Rightarrow> 'v \<Rightarrow> ptr list \<Rightarrow> ('k, 'v) lfu \<Rightarrow> ('k, 'v) lfu result" where
  "age_all k0 v0 [] c = Inr c"
| "age_all k0 v0 (p # ps) c = bind_result (requeue k0 v0 (aged (maxAverageNum c)) p c) (age_all k0 v0 ps)"

definition handleOverMaxAverageNum ::
    "(('k \<times> ptr) list \<Rightarrow> ('k \<times> ptr) list) \<Rightarrow> 'k \<Rightarrow> 'v \<Rightarrow> ('k, 'v) lfu \<Rightarrow> ('k, 'v) lfu result" where
  "handleOverMaxAverageNum ord k0 v0 c =
     (if nodeMap c = [] then Inr c
      else bind_result (age_all k0 v0 (map snd (ord (nodeMap c))) c) updateMinFreq)"

text \<open>\<^verbatim>\<open>curTotalNum_ / nodeMap_.size()\<close> is a division of 64-bit unsigned numbers, converted to \<^verbatim>\<open>int\<close>.\<close>

definition to_int32 :: "int \<Rightarrow> int" where
  "to_int32 x = (x + 2 ^ 31) mod 2 ^ 32 - 2 ^ 31"

definition average :: "int \<Rightarrow> nat \<Rightarrow> int" where
  "average tot n = (if n = 0 then 0 else to_int32 (tot mod 2 ^ 64 div int n))"

definition addFreqNum ::
    "(('k \<times> ptr) list \<Rightarrow> ('k \<times> ptr) list) \<Rightarrow> 'k \<Rightarrow> 'v \<Rightarrow> ('k, 'v) lfu \<Rightarrow> ('k, 'v) lfu result" where
  "addFreqNum ord k0 v0 c =
     (if curTotalNum c + 1 > INT_MAX then Inl Int_overflow
      else let tot = curTotalNum c + 1;
               c1 = c\<lparr>curTotalNum := tot, curAverageNum := average tot (length (nodeMap c))\<rparr>
           in if curAverageNum c1 > maxAverageNum c1 then handleOverMaxAverageNum ord k0 v0 c1 else Inr c1)"

definition decreaseFreqNum :: "int \<Rightarrow> ('k, 'v) lfu \<Rightarrow> ('k, 'v) lfu" where
  "decreaseFreqNum num c =
     (let tot = curTotalNum c - num
      in c\<lparr>curTotalNum := tot, curAverageNum := average tot (length (nodeMap c))\<rparr>)"

definition getInternal ::
    "(('k \<times> ptr) list \<Rightarrow> ('k \<times> ptr) list) \<Rightarrow> 'k \<Rightarrow> 'v \<Rightarrow> ptr \<Rightarrow> ('k, 'v) lfu \<Rightarrow> ('v \<times> ('k, 'v) lfu) result" where
  "getInternal ord k0 v0 p c =
     bind_result (cell p (mem c)) (\<lambda>n.
     bind_result (requeue k0 v0 (\<lambda>f. f + 1) p c) (\<lambda>c1.
     bind_result
       (if nfreq n + 1 - 1 = minFreq c1
        then bind_result (list_at (nfreq n + 1 - 1) c1) (\<lambda>l.
             bind_result (isEmpty l (mem c1)) (\<lambda>e. Inr (if e then c1\<lparr>minFreq := minFreq c1 + 1\<rparr> else c1)))
        else Inr c1) (\<lambda>c2.
     bind_result (addFreqNum ord k0 v0 c2) (\<lambda>c3. Inr (nvalue n, c3)))))"

definition kickOut :: "('k, 'v) lfu \<Rightarrow> ('k, 'v) lfu result" where
  "kickOut c =
     bind_result (list_at (minFreq c) c) (\<lambda>l.
     bind_result (getFirstNode l (mem c)) (\<lambda>p.
     bind_result (removeFromFreqList p c) (\<lambda>c1.
     bind_result (cell p (mem c1)) (\<lambda>n.
       Inr (decreaseFreqNum (nfreq n) (c1\<lparr>nodeMap := AList.delete (nkey n) (nodeMap c1)\<rparr>))))))"

text \<open>The second half of \<^verbatim>\<open>putInternal\<close>, once there is room.\<close>

definition link_new ::
    "(('k \<times> ptr) list \<Rightarrow> ('k \<times> ptr) list) \<Rightarrow> 'k \<Rightarrow> 'v \<Rightarrow> 'k \<Rightarrow> 'v \<Rightarrow> ('k, 'v) lfu \<Rightarrow> ('k, 'v) lfu result" where
  "link_new ord k0 v0 key value c =
     (let (p, h) = make_node (Node key value) (mem c);
          c2 = c\<lparr>nodeMap := AList.update key p (nodeMap c), mem := h\<rparr>
      in bind_result (addToFreqList k0 v0 p c2) (\<lambda>c3.
         bind_result (addFreqNum ord k0 v0 c3) (\<lambda>c4. Inr (c4\<lparr>minFreq := min (minFreq c4) 1\<rparr>))))"

definition putInternal ::
    "(('k \<times> ptr) list \<Rightarrow> ('k \<times> ptr) list) \<Rightarrow> 'k \<Rightarrow> 'v \<Rightarrow> 'k \<Rightarrow> 'v \<Rightarrow> ('k, 'v) lfu \<Rightarrow> ('k, 'v) lfu result" where
  "putInternal ord k0 v0 key value c =
     bind_result (if int (length (nodeMap c)) = capacity c mod 2 ^ 64 then kickOut c else Inr c) (link_new ord k0 v0 key value)"

definition lfu_put ::
    "(('k \<times> ptr) list \<Rightarrow> ('k \<times> ptr) list) \<Rightarrow> 'k \<Rightarrow> 'v \<Rightarrow> 'k \<Rightarrow> 'v \<Rightarrow> ('k, 'v) lfu \<Rightarrow> ('k, 'v) lfu result" where
  "lfu_put ord k0 v0 key value c =
     (if capacity c = 0 then Inr c
      else case map_of (nodeMap c) key of
             Some p \<Rightarrow>
               bind_result (modify p (\<lambda>n. n\<lparr>nvalue := value\<rparr>) (mem c)) (\<lambda>h.
               bind_result (getInternal ord k0 v0 p (c\<lparr>mem := h\<rparr>)) (\<lambda>(v, c'). Inr c'))
           | None \<Rightarrow> putInternal ord k0 v0 key value c)"

definition lfu_get ::
    "(('k \<times> ptr) list \<Rightarrow> ('k \<times> ptr) list) \<Rightarrow> 'k \<Rightarrow> 'v \<Rightarrow> 'k \<Rightarrow> ('k, 'v) lfu \<Rightarrow> ('v option \<times> ('k, 'v) lfu) result" where
  "lfu_get ord k0 v0 key c =
     (case map_of (nodeMap c) key of
        Some p \<Rightarrow> bind_result (getInternal ord k0 v0 p c) (\<lambda>(v, c'). Inr (Some v, c'))
      | None \<Rightarrow> Inr (None, c))"

text \<open>\<^verbatim>\<open>Value get(Key)\<close> returns the default-constructed value when the key is missing.\<close>

definition lfu_get_value ::
    "(('k \<times> ptr) list \<Rightarrow> ('k \<times> ptr) list) \<Rightarrow> 'k \<Rightarrow> 'v \<Rightarrow> 'k \<Rightarrow> ('k, 'v) lfu \<Rightarrow> ('v \<times> ('k, 'v) lfu) result" where
  "lfu_get_value ord k0 v0 key c =
     bind_result (lfu_get ord k0 v0 key c) (\<lambda>(r, c'). Inr (case r of Some v \<Rightarrow> v | None \<Rightarrow> v0, c'))"

definition lfu_purge :: "('k, 'v) lfu \<Rightarrow> ('k, 'v) lfu" where
  "lfu_purge c = c\<lparr>nodeMap := [], freqToFreqList := []\<rparr>"

section \<open>The lists of all frequencies\<close>

text \<open>\<open>L f\<close> is the sequence of the nodes in the list of frequency \<open>f\<close>.\<close>

definition lists_ok :: "('k, 'v) heap \<Rightarrow> (int \<times> freq_list) list \<Rightarrow> (int \<Rightarrow> ptr list) \<Rightarrow> bool" where
  "lists_ok h ls L \<longleftrightarrow> distinct (map fst ls) \<and> (\<forall>f l. (f, l) \<in> set ls \<longrightarrow> holds h l (L f)) \<and>
     (\<forall>f. f \<notin> fst ` set ls \<longrightarrow> L f = []) \<and>
     (\<forall>f l g k. (f, l) \<in> set ls \<and> (g, k) \<in> set ls \<and> f \<noteq> g \<longrightarrow> footprint l (L f) \<inter> footprint k (L g) = {})"

definition unlinked :: "(int \<times> freq_list) list \<Rightarrow> (int \<Rightarrow> ptr list) \<Rightarrow> ptr \<Rightarrow> bool" where
  "unlinked ls L p \<longleftrightarrow> (\<forall>f l. (f, l) \<in> set ls \<longrightarrow> p \<notin> footprint l (L f))"

lemma lists_ok_map_of:
  assumes "lists_ok h ls L"
  shows "map_of ls f = Some l \<longleftrightarrow> (f, l) \<in> set ls"
  using assms by (simp add: lists_ok_def map_of_eq_Some_iff)

lemma lists_ok_nonempty:
  assumes "lists_ok h ls L" and "p \<in> set (L f)"
  obtains l where "(f, l) \<in> set ls" and "map_of ls f = Some l" and "holds h l (L f)"
proof -
  have "f \<in> fst ` set ls" using assms by (auto simp: lists_ok_def)
  then obtain l where "(f, l) \<in> set ls" by auto
  with assms(1) show ?thesis using that lists_ok_map_of [OF assms(1)] by (auto simp: lists_ok_def)
qed

lemma payload_freq: "payload h p = Some (f, k, v) \<Longrightarrow> \<exists>n. cells h p = Some n \<and> nfreq n = f \<and> nkey n = k \<and> nvalue n = v"
  by (auto simp: payload_def)

text \<open>One list changes, and no cell outside its old and its new nodes.\<close>

lemma lists_ok_upd:
  assumes ok: "lists_ok h ls L" and l: "(f, l) \<in> set ls" and new: "holds h' l xs"
    and frame: "\<forall>x. x \<notin> footprint l (L f) \<union> set xs \<longrightarrow> cells h' x = cells h x"
    and fresh: "\<forall>g k. (g, k) \<in> set ls \<and> g \<noteq> f \<longrightarrow> footprint k (L g) \<inter> (footprint l (L f) \<union> set xs) = {}"
  shows "lists_ok h' ls (L(f := xs))"
proof -
  have uniq: "k = l" if "(f, k) \<in> set ls" for k using that l lists_ok_map_of [OF ok] by (metis option.inject)
  have other: "holds h' k (L g)" if "(g, k) \<in> set ls" "g \<noteq> f" for g k
  proof (rule holds_frame)
    show "holds h k (L g)" using ok that(1) by (simp add: lists_ok_def)
    have "footprint k (L g) \<inter> (footprint l (L f) \<union> set xs) = {}" using fresh that by blast
    then show "\<forall>x\<in>footprint k (L g). cells h' x = cells h x" using frame by blast
  qed
  have apart: "footprint k (L g) \<inter> footprint l xs = {}" if "(g, k) \<in> set ls" "g \<noteq> f" for g k
  proof -
    have "footprint k (L g) \<inter> (footprint l (L f) \<union> set xs) = {}" using fresh that by blast
    moreover have "footprint l xs \<subseteq> footprint l (L f) \<union> set xs" by auto
    ultimately show ?thesis by blast
  qed
  show ?thesis
    unfolding lists_ok_def
  proof (intro conjI allI impI)
    show "distinct (map fst ls)" using ok by (simp add: lists_ok_def)
  next
    fix g k assume "(g, k) \<in> set ls"
    then show "holds h' k ((L(f := xs)) g)" using new uniq other by (cases "g = f") auto
  next
    fix g assume "g \<notin> fst ` set ls"
    then show "(L(f := xs)) g = []" using ok l by (force simp: lists_ok_def)
  next
    fix g k g' k' assume a: "(g, k) \<in> set ls \<and> (g', k') \<in> set ls \<and> g \<noteq> g'"
    consider "g = f" | "g' = f" | "g \<noteq> f \<and> g' \<noteq> f" by blast
    then show "footprint k ((L(f := xs)) g) \<inter> footprint k' ((L(f := xs)) g') = {}"
    proof cases
      case 1
      then have "k = l" "(g', k') \<in> set ls" "g' \<noteq> f" using a uniq by auto
      then show ?thesis using apart [of g' k'] 1 by (simp add: Int_commute)
    next
      case 2
      then have "k' = l" "(g, k) \<in> set ls" "g \<noteq> f" using a uniq by auto
      then show ?thesis using apart [of g k] 2 by simp
    next
      case 3
      then have "footprint k (L g) \<inter> footprint k' (L g') = {}" using ok a unfolding lists_ok_def by metis
      then show ?thesis using 3 by simp
    qed
  qed
qed

lemma lists_ok_frame:
  assumes "lists_ok h ls L" and "\<forall>f l. (f, l) \<in> set ls \<longrightarrow> (\<forall>x\<in>footprint l (L f). cells h' x = cells h x)"
  shows "lists_ok h' ls L"
proof -
  have "holds h' l (L f)" if "(f, l) \<in> set ls" for f l
    using holds_frame [of h l "L f" h'] assms that by (simp add: lists_ok_def)
  then show ?thesis using assms(1) unfolding lists_ok_def by blast
qed

lemma lists_ok_Cons:
  assumes ok: "lists_ok h ls L" and f: "f \<notin> fst ` set ls" and l: "holds h l (L f)"
    and new: "\<And>g k. (g, k) \<in> set ls \<Longrightarrow> footprint l (L f) \<inter> footprint k (L g) = {}"
  shows "lists_ok h ((f, l) # ls) L"
  unfolding lists_ok_def
proof (intro conjI allI impI)
  show "distinct (map fst ((f, l) # ls))" using ok f by (simp add: lists_ok_def)
next
  fix g k assume "(g, k) \<in> set ((f, l) # ls)"
  then show "holds h k (L g)" using ok l by (auto simp: lists_ok_def)
next
  fix g assume "g \<notin> fst ` set ((f, l) # ls)"
  then show "L g = []" using ok by (simp add: lists_ok_def)
next
  fix g k g' k' assume a: "(g, k) \<in> set ((f, l) # ls) \<and> (g', k') \<in> set ((f, l) # ls) \<and> g \<noteq> g'"
  then consider "(g, k) = (f, l)" "(g', k') \<in> set ls" | "(g', k') = (f, l)" "(g, k) \<in> set ls" | "(g, k) \<in> set ls" "(g', k') \<in> set ls" by auto
  then show "footprint k (L g) \<inter> footprint k' (L g') = {}"
  proof cases
    case 1
    then show ?thesis using new [OF 1(2)] by simp
  next
    case 2
    then show ?thesis using new [OF 2(2)] by (simp add: Int_commute)
  next
    case 3
    then show ?thesis using ok a unfolding lists_ok_def by metis
  qed
qed

lemma lists_ok_disjoint:
  assumes "lists_ok h ls L" and "(f, l) \<in> set ls" and "(g, k) \<in> set ls" and "f \<noteq> g"
  shows "footprint l (L f) \<inter> footprint k (L g) = {}"
  using assms unfolding lists_ok_def by metis

lemma removeFromFreqList_ok:
  assumes ok: "lists_ok (mem c) (freqToFreqList c) L" and p: "p \<in> set (L f)" and pl: "payload (mem c) p = Some (f, k, v)"
  shows "\<exists>h. removeFromFreqList p c = Inr (c\<lparr>mem := h\<rparr>) \<and> lists_ok h (freqToFreqList c) (L(f := remove1 p (L f))) \<and>
    payload h = payload (mem c) \<and> dom (cells h) = dom (cells (mem c)) \<and> brk h = brk (mem c) \<and>
    unlinked (freqToFreqList c) (L(f := remove1 p (L f))) p"
proof -
  let ?ls = "freqToFreqList c" and ?L = "L(f := remove1 p (L f))"
  obtain l where l: "(f, l) \<in> set ?ls" "map_of ?ls f = Some l" "holds (mem c) l (L f)" using lists_ok_nonempty [OF ok p] .
  obtain n where n: "cells (mem c) p = Some n" "nfreq n = f" using payload_freq [OF pl] by blast
  obtain h where h: "removeNode p (mem c) = Inr h" "holds h l (remove1 p (L f))" "payload h = payload (mem c)"
    "dom (cells h) = dom (cells (mem c))" "brk h = brk (mem c)" "\<forall>x. x \<notin> footprint l (L f) \<longrightarrow> cells h x = cells (mem c) x"
    using list_removeNode_ok [OF l(3) p] by blast
  have sub: "set (remove1 p (L f)) \<subseteq> footprint l (L f)" using set_remove1_subset [of p "L f"] by auto
  have disj: "footprint k' (L g) \<inter> footprint l (L f) = {}" if "(g, k') \<in> set ?ls" "g \<noteq> f" for g k'
    using lists_ok_disjoint [OF ok that(1) l(1) that(2)] .
  have "lists_ok h ?ls ?L"
  proof (rule lists_ok_upd [OF ok l(1) h(2)])
    show "\<forall>x. x \<notin> footprint l (L f) \<union> set (remove1 p (L f)) \<longrightarrow> cells h x = cells (mem c) x" using h(6) by blast
    show "\<forall>g k'. (g, k') \<in> set ?ls \<and> g \<noteq> f \<longrightarrow> footprint k' (L g) \<inter> (footprint l (L f) \<union> set (remove1 p (L f))) = {}"
      using disj sub by (simp only: Un_absorb2) blast
  qed
  moreover have "unlinked ?ls ?L p"
    unfolding unlinked_def
  proof (intro allI impI)
    fix g k' assume g: "(g, k') \<in> set ?ls"
    show "p \<notin> footprint k' (?L g)"
    proof (cases "g = f")
      case True
      then have "k' = l" using g l(2) lists_ok_map_of [OF ok] by (metis option.inject)
      then show ?thesis using True l(3) p by (auto simp: holds_def)
    next
      case False
      then show ?thesis using disj [OF g False] p by auto
    qed
  qed
  moreover have "removeFromFreqList p c = Inr (c\<lparr>mem := h\<rparr>)" using h(1) n l(2) by (simp add: removeFromFreqList_def cell_def list_at_def)
  ultimately show ?thesis using h(3,4,5) by blast
qed

text \<open>The list of a frequency is created when its first node arrives.\<close>

definition ensure_list :: "'k \<Rightarrow> 'v \<Rightarrow> int \<Rightarrow> ('k, 'v) lfu \<Rightarrow> ('k, 'v) lfu result" where
  "ensure_list k0 v0 f c =
     (if map_of (freqToFreqList c) f = None
      then bind_result (FreqList k0 v0 f (mem c)) (\<lambda>(l, h). Inr (c\<lparr>freqToFreqList := (f, l) # freqToFreqList c, mem := h\<rparr>))
      else Inr c)"

lemma ensure_list_ok:
  assumes hp: "heap_ok (mem c)" and ok: "lists_ok (mem c) (freqToFreqList c) L"
    and p: "p \<in> dom (cells (mem c))" "unlinked (freqToFreqList c) L p"
  shows "\<exists>ls h l. ensure_list k0 v0 f c = Inr (c\<lparr>freqToFreqList := ls, mem := h\<rparr>) \<and> heap_ok h \<and> lists_ok h ls L \<and> unlinked ls L p \<and>
    (f, l) \<in> set ls \<and> set (freqToFreqList c) \<subseteq> set ls \<and> dom (cells (mem c)) \<subseteq> dom (cells h) \<and>
    (\<forall>x\<in>dom (cells (mem c)). cells h x = cells (mem c) x)"
proof (cases "map_of (freqToFreqList c) f")
  case (Some l)
  then have "ensure_list k0 v0 f c = Inr (c\<lparr>freqToFreqList := freqToFreqList c, mem := mem c\<rparr>)" by (simp add: ensure_list_def)
  moreover have "(f, l) \<in> set (freqToFreqList c)" using Some by (rule map_of_SomeD)
  ultimately show ?thesis using hp ok p by blast
next
  case None
  let ?ls = "freqToFreqList c"
  obtain l h where h: "FreqList k0 v0 f (mem c) = Inr (l, h)" "holds h l []" "heap_ok h" "dom (cells h) = dom (cells (mem c)) \<union> {head l, tail l}"
    "head l \<notin> dom (cells (mem c))" "tail l \<notin> dom (cells (mem c))" "\<forall>x\<in>dom (cells (mem c)). cells h x = cells (mem c) x"
    using FreqList_ok [OF hp] by blast
  have nf: "f \<notin> fst ` set ?ls" using None by (simp add: map_of_eq_None_iff)
  then have Lf: "L f = []" using ok by (simp add: lists_ok_def)
  have fp: "footprint k (L g) \<subseteq> dom (cells (mem c))" if "(g, k) \<in> set ?ls" for g k
    using ok that by (simp add: lists_ok_def holds_def)
  have frame: "lists_ok h ?ls L" using lists_ok_frame [OF ok, of h] fp h(7) by blast
  have apart: "footprint l (L f) \<inter> footprint k (L g) = {}" if "(g, k) \<in> set ?ls" for g k
    using fp [OF that] h(5,6) Lf by auto
  have "holds h l (L f)" using h(2) Lf by simp
  from lists_ok_Cons [OF frame nf this apart] have "lists_ok h ((f, l) # ?ls) L" .
  moreover have "unlinked ((f, l) # ?ls) L p" using p h(5,6) Lf by (auto simp: unlinked_def)
  moreover have "ensure_list k0 v0 f c = Inr (c\<lparr>freqToFreqList := (f, l) # ?ls, mem := h\<rparr>)" using None h(1) by (simp add: ensure_list_def)
  ultimately show ?thesis using h(3,4,7) by (metis Un_upper1 list.set_intros(1) set_subset_Cons)
qed

lemma addToFreqList_eq:
  "addToFreqList k0 v0 p c =
     bind_result (cell p (mem c)) (\<lambda>n.
     bind_result (ensure_list k0 v0 (nfreq n) c) (\<lambda>c1.
     bind_result (list_at (nfreq n) c1) (\<lambda>l.
     bind_result (addNode p l (mem c1)) (\<lambda>h. Inr (c1\<lparr>mem := h\<rparr>)))))"
  by (simp add: addToFreqList_def ensure_list_def)

lemma addToFreqList_ok:
  assumes hp: "heap_ok (mem c)" and ok: "lists_ok (mem c) (freqToFreqList c) L"
    and pl: "payload (mem c) p = Some (f, k, v)" and un: "unlinked (freqToFreqList c) L p"
  shows "\<exists>ls h. addToFreqList k0 v0 p c = Inr (c\<lparr>freqToFreqList := ls, mem := h\<rparr>) \<and> heap_ok h \<and> lists_ok h ls (L(f := L f @ [p])) \<and>
    set (freqToFreqList c) \<subseteq> set ls \<and> dom (cells (mem c)) \<subseteq> dom (cells h) \<and> (\<forall>x\<in>dom (cells (mem c)). payload h x = payload (mem c) x)"
proof -
  obtain n where n: "cells (mem c) p = Some n" "nfreq n = f" using payload_freq [OF pl] by blast
  then have p: "p \<in> dom (cells (mem c))" by auto
  obtain ls h l where e: "ensure_list k0 v0 f c = Inr (c\<lparr>freqToFreqList := ls, mem := h\<rparr>)" "heap_ok h" "lists_ok h ls L" "unlinked ls L p"
    "(f, l) \<in> set ls" "dom (cells (mem c)) \<subseteq> dom (cells h)" "\<forall>x\<in>dom (cells (mem c)). cells h x = cells (mem c) x"
    "set (freqToFreqList c) \<subseteq> set ls"
    using ensure_list_ok [OF hp ok p un] by blast
  have fp: "p \<notin> footprint l (L f)" using e(4,5) by (simp add: unlinked_def)
  have hl: "holds h l (L f)" using e(3,5) by (simp add: lists_ok_def)
  obtain h' where h': "addNode p l h = Inr h'" "holds h' l (L f @ [p])" "payload h' = payload h" "dom (cells h') = dom (cells h)" "brk h' = brk h"
    "\<forall>x. x \<notin> insert p (footprint l (L f)) \<longrightarrow> cells h' x = cells h x"
    using list_addNode_ok [OF hl _ fp] e(6) p by blast
  have "lists_ok h' ls (L(f := L f @ [p]))"
  proof (rule lists_ok_upd [OF e(3,5) h'(2)])
    show "\<forall>x. x \<notin> footprint l (L f) \<union> set (L f @ [p]) \<longrightarrow> cells h' x = cells h x" using h'(6) by simp
    show "\<forall>g k. (g, k) \<in> set ls \<and> g \<noteq> f \<longrightarrow> footprint k (L g) \<inter> (footprint l (L f) \<union> set (L f @ [p])) = {}"
    proof (intro allI impI)
      fix g k assume g: "(g, k) \<in> set ls \<and> g \<noteq> f"
      then have "footprint k (L g) \<inter> footprint l (L f) = {}" using lists_ok_disjoint [OF e(3) _ e(5)] by blast
      moreover have "p \<notin> footprint k (L g)" using e(4) g unfolding unlinked_def by blast
      moreover have "footprint l (L f) \<union> set (L f @ [p]) = insert p (footprint l (L f))" by auto
      ultimately show "footprint k (L g) \<inter> (footprint l (L f) \<union> set (L f @ [p])) = {}" by simp
    qed
  qed
  moreover have "heap_ok h'" using e(2) h'(4,5) by (simp add: heap_ok_dom)
  moreover have "\<forall>x\<in>dom (cells (mem c)). payload h' x = payload (mem c) x" using h'(3) e(7) by (simp add: payload_def)
  moreover have "map_of ls f = Some l" using lists_ok_map_of [OF e(3)] e(5) by simp
  then have "addToFreqList k0 v0 p c = Inr (c\<lparr>freqToFreqList := ls, mem := h'\<rparr>)"
    using n e(1) h'(1) by (simp add: addToFreqList_eq cell_def list_at_def)
  ultimately show ?thesis using e(6,8) h'(4) by metis
qed

lemma requeue_ok:
  assumes hp: "heap_ok (mem c)" and ok: "lists_ok (mem c) (freqToFreqList c) L"
    and p: "p \<in> set (L f)" and pl: "payload (mem c) p = Some (f, k, v)"
  shows "\<exists>ls h. requeue k0 v0 g p c = Inr (c\<lparr>freqToFreqList := ls, mem := h\<rparr>) \<and> heap_ok h \<and>
    lists_ok h ls ((L(f := remove1 p (L f)))(g f := (L(f := remove1 p (L f))) (g f) @ [p])) \<and>
    set (freqToFreqList c) \<subseteq> set ls \<and> payload h p = Some (g f, k, v) \<and> (\<forall>x\<in>dom (cells (mem c)) - {p}. payload h x = payload (mem c) x)"
proof -
  let ?ls = "freqToFreqList c" and ?L = "L(f := remove1 p (L f))"
  obtain h1 where h1: "removeFromFreqList p c = Inr (c\<lparr>mem := h1\<rparr>)" "lists_ok h1 ?ls ?L" "payload h1 = payload (mem c)"
    "dom (cells h1) = dom (cells (mem c))" "brk h1 = brk (mem c)" "unlinked ?ls ?L p"
    using removeFromFreqList_ok [OF ok p pl] by blast
  obtain n where n: "cells h1 p = Some n" "nfreq n = f" "nkey n = k" "nvalue n = v" using payload_freq [of h1 p f k v] pl h1(3) by auto
  let ?h2 = "h1\<lparr>cells := (cells h1)(p \<mapsto> n\<lparr>nfreq := g f\<rparr>)\<rparr>"
  have s: "set_freq g p (c\<lparr>mem := h1\<rparr>) = Inr (c\<lparr>mem := ?h2\<rparr>)" using n by (simp add: set_freq_def modify_ok)
  have ok2: "lists_ok ?h2 ?ls ?L"
  proof (rule lists_ok_frame [OF h1(2)], intro allI impI ballI)
    fix f' l x assume "(f', l) \<in> set ?ls" "x \<in> footprint l (?L f')"
    then have "x \<noteq> p" using h1(6) unfolding unlinked_def by blast
    then show "cells ?h2 x = cells h1 x" by simp
  qed
  have hp2: "heap_ok ?h2" using hp h1(4,5) domI [of "cells h1" p n] n(1) by (simp add: heap_ok_dom)
  have pl2: "payload ?h2 p = Some (g f, k, v)" using n by (simp add: payload_def)
  obtain ls h where a: "addToFreqList k0 v0 p (c\<lparr>mem := ?h2\<rparr>) = Inr (c\<lparr>freqToFreqList := ls, mem := h\<rparr>)" "heap_ok h"
    "lists_ok h ls (?L(g f := ?L (g f) @ [p]))" "\<forall>x\<in>dom (cells ?h2). payload h x = payload ?h2 x"
    "set ?ls \<subseteq> set ls"
    using addToFreqList_ok [of "c\<lparr>mem := ?h2\<rparr>" ?L p "g f" k v k0 v0] hp2 ok2 pl2 h1(6) by auto
  have "payload h p = Some (g f, k, v)" using a(4) pl2 by simp
  moreover have "payload h x = payload (mem c) x" if "x \<in> dom (cells (mem c)) - {p}" for x
  proof -
    have "x \<in> dom (cells ?h2)" "x \<noteq> p" using that h1(4) n(1) by auto
    then have "payload h x = payload h1 x" using a(4) by (simp add: payload_def)
    then show ?thesis using h1(3) by simp
  qed
  moreover have "requeue k0 v0 g p c = Inr (c\<lparr>freqToFreqList := ls, mem := h\<rparr>)" using h1(1) s a(1) by (simp add: requeue_def)
  ultimately show ?thesis using a(2,3,5) by blast
qed

section \<open>The cache and its lists agree\<close>

definition nodes :: "('k, 'v) lfu \<Rightarrow> ptr set" where
  "nodes c = snd ` set (nodeMap c)"

definition freq_at :: "('k, 'v) heap \<Rightarrow> ptr \<Rightarrow> int" where
  "freq_at h p = (case payload h p of None \<Rightarrow> 0 | Some (f, _) \<Rightarrow> f)"

definition contents :: "('k, 'v) lfu \<Rightarrow> 'k \<rightharpoonup> 'v" where
  "contents c k = (case map_of (nodeMap c) k of None \<Rightarrow> None | Some p \<Rightarrow> map_option (snd \<circ> snd) (payload (mem c) p))"

text \<open>
  Every entry of \<open>nodeMap_\<close> is a node that carries its key and stands in the list of its frequency, and the lists hold no other nodes.
\<close>

definition core :: "('k, 'v) lfu \<Rightarrow> (int \<Rightarrow> ptr list) \<Rightarrow> bool" where
  "core c L \<longleftrightarrow> heap_ok (mem c) \<and> lists_ok (mem c) (freqToFreqList c) L \<and> distinct (map fst (nodeMap c)) \<and>
     (\<forall>k p. (k, p) \<in> set (nodeMap c) \<longrightarrow> (\<exists>f v. payload (mem c) p = Some (f, k, v) \<and> 1 \<le> f \<and> p \<in> set (L f))) \<and>
     (\<forall>f p. p \<in> set (L f) \<longrightarrow> p \<in> nodes c \<and> freq_at (mem c) p = f)"

lemma freq_at_payload: "payload h p = Some (f, k, v) \<Longrightarrow> freq_at h p = f"
  by (simp add: freq_at_def)

lemma core_node:
  assumes "core c L" and "p \<in> nodes c"
  obtains k v where "(k, p) \<in> set (nodeMap c)" and "payload (mem c) p = Some (freq_at (mem c) p, k, v)"
    and "1 \<le> freq_at (mem c) p" and "p \<in> set (L (freq_at (mem c) p))"
proof -
  obtain k where k: "(k, p) \<in> set (nodeMap c)" using assms(2) by (auto simp: nodes_def)
  then obtain f v where "payload (mem c) p = Some (f, k, v)" "1 \<le> f" "p \<in> set (L f)" using assms(1) unfolding core_def by blast
  then show ?thesis using that [OF k] by (simp add: freq_at_payload)
qed

lemma core_in_list: "core c L \<Longrightarrow> p \<in> set (L f) \<longleftrightarrow> p \<in> nodes c \<and> freq_at (mem c) p = f"
  using core_node by (metis core_def)

lemma core_distinct:
  assumes "core c L"
  shows "distinct (L f)"
proof (cases "L f")
  case (Cons p ps)
  then have "p \<in> set (L f)" and "lists_ok (mem c) (freqToFreqList c) L" using assms by (simp_all add: core_def)
  then obtain l where "holds (mem c) l (L f)" using lists_ok_nonempty by metis
  then show ?thesis by (simp add: holds_def)
qed simp

lemma core_inj:
  assumes "core c L"
  shows "inj_on snd (set (nodeMap c))"
proof (rule inj_onI)
  fix x y assume x: "x \<in> set (nodeMap c)" and y: "y \<in> set (nodeMap c)" and eq: "snd x = snd y"
  obtain k p k' where xy: "x = (k, p)" "y = (k', p)" using eq by (metis prod.collapse)
  then have "\<exists>f v. payload (mem c) p = Some (f, k, v)" "\<exists>f v. payload (mem c) p = Some (f, k', v)" using assms x y unfolding core_def by blast+
  then show "x = y" using xy by auto
qed

lemma core_card:
  assumes "core c L"
  shows "card (nodes c) = length (nodeMap c)" and "distinct (map snd (nodeMap c))"
proof -
  have d: "distinct (nodeMap c)" using assms by (auto simp: core_def distinct_map)
  then show "distinct (map snd (nodeMap c))" using core_inj [OF assms] by (simp add: distinct_map)
  show "card (nodes c) = length (nodeMap c)"
    unfolding nodes_def card_image [OF core_inj [OF assms]] using d by (rule distinct_card)
qed

definition moved :: "ptr \<Rightarrow> int \<Rightarrow> int \<Rightarrow> (int \<Rightarrow> ptr list) \<Rightarrow> int \<Rightarrow> ptr list" where
  "moved p f f' L = (L(f := remove1 p (L f)))(f' := (L(f := remove1 p (L f))) f' @ [p])"

lemma in_moved:
  assumes "distinct (L f)" and "\<And>x. p \<in> set (L x) \<Longrightarrow> x = f"
  shows "q \<in> set (moved p f f' L x) \<longleftrightarrow> (if q = p then x = f' else q \<in> set (L x))"
  using assms by (auto simp: moved_def)

text \<open>Moving a node to the list of another frequency keeps the agreement and changes nothing but that frequency.\<close>

lemma requeue_core:
  assumes co: "core c L" and p: "p \<in> nodes c" and g: "1 \<le> g (freq_at (mem c) p)"
  shows "\<exists>ls h. requeue k0 v0 g p c = Inr (c\<lparr>freqToFreqList := ls, mem := h\<rparr>) \<and>
    core (c\<lparr>freqToFreqList := ls, mem := h\<rparr>) (moved p (freq_at (mem c) p) (g (freq_at (mem c) p)) L) \<and>
    contents (c\<lparr>freqToFreqList := ls, mem := h\<rparr>) = contents c \<and> set (freqToFreqList c) \<subseteq> set ls \<and>
    (\<forall>q\<in>nodes c. freq_at h q = (if q = p then g (freq_at (mem c) p) else freq_at (mem c) q))"
proof -
  let ?f = "freq_at (mem c) p"
  let ?L = "moved p ?f (g ?f) L"
  obtain k v where kv: "(k, p) \<in> set (nodeMap c)" "payload (mem c) p = Some (?f, k, v)" "1 \<le> ?f" "p \<in> set (L ?f)" using core_node [OF co p] .
  obtain ls h where h: "requeue k0 v0 g p c = Inr (c\<lparr>freqToFreqList := ls, mem := h\<rparr>)" "heap_ok h" "lists_ok h ls ?L"
    "payload h p = Some (g ?f, k, v)" "\<forall>x\<in>dom (cells (mem c)) - {p}. payload h x = payload (mem c) x"
    "set (freqToFreqList c) \<subseteq> set ls"
    using requeue_ok [of c L p ?f k v k0 v0 g] co kv unfolding core_def moved_def by blast
  have same: "payload h q = payload (mem c) q" if q: "q \<in> nodes c" "q \<noteq> p" for q
  proof -
    obtain k' v' where "payload (mem c) q = Some (freq_at (mem c) q, k', v')" using core_node [OF co q(1)] by metis
    then have "q \<in> dom (cells (mem c))" by (auto simp: payload_def)
    with q(2) h(5) show ?thesis by simp
  qed
  have only: "x = ?f" if "p \<in> set (L x)" for x using that core_in_list [OF co] by simp
  have mem: "q \<in> set (?L x) \<longleftrightarrow> (if q = p then x = g ?f else q \<in> set (L x))" for q x
    by (rule in_moved [OF core_distinct [OF co] only])
  have fr: "freq_at h q = (if q = p then g ?f else freq_at (mem c) q)" if "q \<in> nodes c" for q
    using that h(4) same [OF that] by (auto simp: freq_at_def)
  let ?c = "c\<lparr>freqToFreqList := ls, mem := h\<rparr>"
  have "core ?c ?L"
    unfolding core_def
  proof (intro conjI allI impI)
    show "heap_ok (mem ?c)" "lists_ok (mem ?c) (freqToFreqList ?c) ?L" "distinct (map fst (nodeMap ?c))"
      using h(2,3) co by (simp_all add: core_def)
  next
    fix k' q assume a: "(k', q) \<in> set (nodeMap ?c)"
    then have q: "q \<in> nodes c" by (force simp: nodes_def)
    obtain f' v' where f': "payload (mem c) q = Some (f', k', v')" "1 \<le> f'" "q \<in> set (L f')"
    proof -
      have "(k', q) \<in> set (nodeMap c)" using a by simp
      then have "\<exists>f v. payload (mem c) q = Some (f, k', v) \<and> 1 \<le> f \<and> q \<in> set (L f)" using co unfolding core_def by blast
      then show ?thesis using that by blast
    qed
    show "\<exists>f v. payload (mem ?c) q = Some (f, k', v) \<and> 1 \<le> f \<and> q \<in> set (?L f)"
    proof (cases "q = p")
      case True
      then have "k' = k" using kv(2) f'(1) by simp
      then show ?thesis using True h(4) g mem by simp
    next
      case False
      then show ?thesis using same [OF q] f' mem by simp
    qed
  next
    fix f' q assume "q \<in> set (?L f')"
    then have "if q = p then f' = g ?f else q \<in> nodes c \<and> freq_at (mem c) q = f'"
      by (simp only: mem core_in_list [OF co])
    then show "q \<in> nodes ?c" "freq_at (mem ?c) q = f'" using p fr [of q] by (auto simp: nodes_def split: if_splits)
  qed
  moreover have "contents ?c = contents c"
  proof
    fix k'
    have "map_option (snd \<circ> snd) (payload h q) = map_option (snd \<circ> snd) (payload (mem c) q)" if "map_of (nodeMap c) k' = Some q" for q
      using map_of_SomeD [OF that] same [of q] h(4) kv(2) by (cases "q = p") (force simp: nodes_def)+
    then show "contents ?c k' = contents c k'" by (simp add: contents_def split: option.splits)
  qed
  ultimately show ?thesis using h(1,6) fr by blast
qed

text \<open>Ageing visits every node once.\<close>

lemma age_all_core:
  assumes "core c L" and "set ps \<subseteq> nodes c" and "distinct ps" and "0 \<le> maxAverageNum c"
  shows "\<exists>ls h L'. age_all k0 v0 ps c = Inr (c\<lparr>freqToFreqList := ls, mem := h\<rparr>) \<and> core (c\<lparr>freqToFreqList := ls, mem := h\<rparr>) L' \<and>
    contents (c\<lparr>freqToFreqList := ls, mem := h\<rparr>) = contents c \<and>
    (\<forall>q\<in>nodes c. freq_at h q = (if q \<in> set ps then aged (maxAverageNum c) (freq_at (mem c) q) else freq_at (mem c) q))"
  using assms
proof (induction ps arbitrary: c L)
  case Nil
  then have "core (c\<lparr>freqToFreqList := freqToFreqList c, mem := mem c\<rparr>) L" by simp
  then show ?case by (intro exI [of _ "freqToFreqList c"] exI [of _ "mem c"]) auto
next
  case (Cons p ps)
  let ?M = "maxAverageNum c"
  have g: "1 \<le> aged ?M (freq_at (mem c) p)" by (simp add: aged_def Let_def)
  have p: "p \<in> nodes c" using Cons.prems by simp
  obtain ls1 h1 where r: "requeue k0 v0 (aged ?M) p c = Inr (c\<lparr>freqToFreqList := ls1, mem := h1\<rparr>)"
    "core (c\<lparr>freqToFreqList := ls1, mem := h1\<rparr>) (moved p (freq_at (mem c) p) (aged ?M (freq_at (mem c) p)) L)"
    "contents (c\<lparr>freqToFreqList := ls1, mem := h1\<rparr>) = contents c"
    "\<forall>q\<in>nodes c. freq_at h1 q = (if q = p then aged ?M (freq_at (mem c) p) else freq_at (mem c) q)"
    using requeue_core [OF Cons.prems(1) p, of "aged ?M"] g by blast
  let ?c = "c\<lparr>freqToFreqList := ls1, mem := h1\<rparr>"
  have n: "nodes ?c = nodes c" by (simp add: nodes_def)
  obtain ls h L' where i: "age_all k0 v0 ps ?c = Inr (?c\<lparr>freqToFreqList := ls, mem := h\<rparr>)" "core (?c\<lparr>freqToFreqList := ls, mem := h\<rparr>) L'"
    "contents (?c\<lparr>freqToFreqList := ls, mem := h\<rparr>) = contents ?c"
    "\<forall>q\<in>nodes ?c. freq_at h q = (if q \<in> set ps then aged (maxAverageNum ?c) (freq_at (mem ?c) q) else freq_at (mem ?c) q)"
    using Cons.IH [OF r(2)] Cons.prems n by auto
  have "age_all k0 v0 (p # ps) c = Inr (c\<lparr>freqToFreqList := ls, mem := h\<rparr>)" using r(1) i(1) by simp
  moreover have "core (c\<lparr>freqToFreqList := ls, mem := h\<rparr>) L'" "contents (c\<lparr>freqToFreqList := ls, mem := h\<rparr>) = contents c" using i(2,3) r(3) by simp_all
  moreover have "\<forall>q\<in>nodes c. freq_at h q = (if q \<in> set (p # ps) then aged ?M (freq_at (mem c) q) else freq_at (mem c) q)"
    using i(4) r(4) n Cons.prems(3) by auto
  ultimately show ?case by blast
qed

section \<open>Frequencies and their minimum\<close>

definition is_min :: "('k, 'v) lfu \<Rightarrow> int \<Rightarrow> bool" where
  "is_min c m \<longleftrightarrow> (\<exists>p\<in>nodes c. freq_at (mem c) p = m) \<and> (\<forall>p\<in>nodes c. m \<le> freq_at (mem c) p)"

definition freq_sum :: "('k, 'v) lfu \<Rightarrow> int" where
  "freq_sum c = (\<Sum>p\<in>nodes c. freq_at (mem c) p)"

text \<open>The counters of the cache do not matter to its entries.\<close>

lemma same_store:
  assumes "nodeMap c' = nodeMap c" and "freqToFreqList c' = freqToFreqList c" and "mem c' = mem c"
  shows "core c' = core c" and "contents c' = contents c" and "nodes c' = nodes c" and "is_min c' = is_min c" and "freq_sum c' = freq_sum c"
  using assms by (simp_all add: fun_eq_iff core_def contents_def nodes_def is_min_def freq_sum_def cong: option.case_cong)

lemma finite_nodes [simp]: "finite (nodes c)"
  by (simp add: nodes_def)

lemma nodes_empty: "nodes c = {} \<longleftrightarrow> nodeMap c = []"
  by (simp add: nodes_def)

lemma min_nonempty_ok:
  assumes "\<forall>f l. (f, l) \<in> set ls \<longrightarrow> holds h l (L f)"
  shows "\<exists>m'. min_nonempty h ls m = Inr m' \<and> m' \<le> m \<and> (m' = m \<or> L m' \<noteq> []) \<and> (\<forall>f\<in>fst ` set ls. L f \<noteq> [] \<longrightarrow> m' \<le> f)"
  using assms
proof (induction ls arbitrary: m)
  case (Cons fl ls)
  obtain f l where fl: "fl = (f, l)" by fastforce
  let ?m = "if L f \<noteq> [] then min m f else m"
  have e: "isEmpty l h = Inr (L f = [])" using Cons.prems fl by (simp add: isEmpty_ok)
  obtain m' where m': "min_nonempty h ls ?m = Inr m'" "m' \<le> ?m" "m' = ?m \<or> L m' \<noteq> []" "\<forall>f\<in>fst ` set ls. L f \<noteq> [] \<longrightarrow> m' \<le> f"
    using Cons.IH [of ?m] Cons.prems by auto
  have "min_nonempty h (fl # ls) m = Inr m'" using fl e m'(1) by simp
  moreover have "m' \<le> m" using m'(2) by (auto split: if_splits)
  moreover have "m' = m \<or> L m' \<noteq> []" using m'(3) by (auto simp: min_def split: if_splits)
  moreover have "\<forall>g\<in>fst ` set (fl # ls). L g \<noteq> [] \<longrightarrow> m' \<le> g" using m'(2,4) fl by (auto split: if_splits)
  ultimately show ?case by blast
qed simp

lemma updateMinFreq_ok:
  assumes co: "core c L" and small: "\<exists>p\<in>nodes c. freq_at (mem c) p < INT8_MAX"
  shows "\<exists>m. updateMinFreq c = Inr (c\<lparr>minFreq := m\<rparr>) \<and> is_min c m"
proof -
  let ?ls = "freqToFreqList c"
  have hold: "\<forall>f l. (f, l) \<in> set ?ls \<longrightarrow> holds (mem c) l (L f)" and out: "\<forall>f. f \<notin> fst ` set ?ls \<longrightarrow> L f = []"
    using co by (simp_all add: core_def lists_ok_def)
  obtain m where m: "min_nonempty (mem c) ?ls INT8_MAX = Inr m" "m \<le> INT8_MAX" "m = INT8_MAX \<or> L m \<noteq> []"
    "\<forall>f\<in>fst ` set ?ls. L f \<noteq> [] \<longrightarrow> m \<le> f"
    using min_nonempty_ok [OF hold, of INT8_MAX] by blast
  have le: "m \<le> freq_at (mem c) p" if "p \<in> nodes c" for p
  proof -
    have "p \<in> set (L (freq_at (mem c) p))" using core_in_list [OF co] that by simp
    then have "L (freq_at (mem c) p) \<noteq> []" by auto
    then show ?thesis using m(4) out by blast
  qed
  then have ne: "m \<noteq> INT8_MAX" using small by force
  then obtain p where "p \<in> set (L m)" using m(3) by (metis list.set_sel(1))
  then have "\<exists>p\<in>nodes c. freq_at (mem c) p = m" using core_in_list [OF co] by blast
  then have "is_min c m" using le by (simp add: is_min_def)
  then show ?thesis using m(1) ne by (auto simp: updateMinFreq_def)
qed

lemma aged_mono: "f \<le> f' \<Longrightarrow> aged M f \<le> aged M f'"
  by (simp add: aged_def Let_def)

lemma aged_le: "1 \<le> f \<Longrightarrow> 0 \<le> M \<Longrightarrow> aged M f \<le> f"
  by (auto simp: aged_def Let_def c_div_nonneg)

lemma aged_bound:
  assumes "f \<le> M + 1" and "2 \<le> M" and "M \<le> 250"
  shows "aged M f \<le> M" and "aged M f < INT8_MAX"
  using assms by (simp_all add: aged_def Let_def c_div_nonneg INT8_MAX_def) linarith+

lemma average_eq:
  assumes "0 \<le> t" and "t \<le> INT_MAX" and "0 < n"
  shows "average t n = t div int n"
proof -
  have "t mod 2 ^ 64 = t" using assms by (simp add: INT_MAX_def)
  moreover have "0 \<le> t div int n" "t div int n \<le> t" using assms zdiv_mono2 [of t 1 "int n"] by (simp_all add: pos_imp_zdiv_nonneg_iff)
  moreover have "to_int32 x = x" if "0 \<le> x" "x \<le> INT_MAX" for x
  proof -
    have "(x + 2 ^ 31) mod 2 ^ 32 = x + 2 ^ 31" using that by (simp add: INT_MAX_def)
    then show ?thesis by (simp add: to_int32_def)
  qed
  ultimately show ?thesis using assms by (simp add: average_def)
qed

lemma min_le_average:
  assumes "is_min c m" and "freq_sum c \<le> t" and "1 \<le> m" and n: "n = card (nodes c)"
  shows "m \<le> t div int n"
proof -
  have "n \<noteq> 0" using assms by (auto simp: is_min_def)
  have "int n * m = (\<Sum>p\<in>nodes c. m)" using n by simp
  also have "\<dots> \<le> freq_sum c" unfolding freq_sum_def using assms(1) by (intro sum_mono) (simp add: is_min_def)
  finally have "m * int n \<le> t" using assms(2) by (simp add: mult.commute)
  then have "m * int n div int n \<le> t div int n" by (rule zdiv_mono1) (use \<open>n \<noteq> 0\<close> in simp)
  then show ?thesis using \<open>n \<noteq> 0\<close> by simp
qed

lemma handleOverMaxAverageNum_ok:
  assumes co: "core c L" and ne: "nodeMap c \<noteq> []" and perm: "mset (ord (nodeMap c)) = mset (nodeMap c)"
    and mn: "is_min c m" and m: "m \<le> maxAverageNum c + 1" and M: "2 \<le> maxAverageNum c" "maxAverageNum c \<le> 250"
  shows "\<exists>ls h m' L'. handleOverMaxAverageNum ord k0 v0 c = Inr (c\<lparr>freqToFreqList := ls, mem := h, minFreq := m'\<rparr>) \<and>
    core (c\<lparr>freqToFreqList := ls, mem := h, minFreq := m'\<rparr>) L' \<and> contents (c\<lparr>freqToFreqList := ls, mem := h, minFreq := m'\<rparr>) = contents c \<and>
    (\<forall>q\<in>nodes c. freq_at h q = aged (maxAverageNum c) (freq_at (mem c) q)) \<and>
    is_min (c\<lparr>freqToFreqList := ls, mem := h, minFreq := m'\<rparr>) m' \<and> m' \<le> maxAverageNum c"
proof -
  let ?M = "maxAverageNum c" and ?ps = "map snd (ord (nodeMap c))"
  have "mset ?ps = mset (map snd (nodeMap c))" using perm by (metis mset_map)
  then have ps: "set ?ps = nodes c" "distinct ?ps"
    using core_card(2) [OF co] mset_eq_setD [of ?ps "map snd (nodeMap c)"] mset_eq_imp_distinct_iff [of ?ps "map snd (nodeMap c)"]
    by (simp_all add: nodes_def)
  obtain ls h L' where a: "age_all k0 v0 ?ps c = Inr (c\<lparr>freqToFreqList := ls, mem := h\<rparr>)" "core (c\<lparr>freqToFreqList := ls, mem := h\<rparr>) L'"
    "contents (c\<lparr>freqToFreqList := ls, mem := h\<rparr>) = contents c"
    "\<forall>q\<in>nodes c. freq_at h q = (if q \<in> set ?ps then aged ?M (freq_at (mem c) q) else freq_at (mem c) q)"
    using age_all_core [of c L ?ps k0 v0] co ps M by auto
  let ?c = "c\<lparr>freqToFreqList := ls, mem := h\<rparr>"
  have fr: "\<forall>q\<in>nodes c. freq_at h q = aged ?M (freq_at (mem c) q)" using a(4) ps(1) by simp
  have n: "nodes ?c = nodes c" by (simp add: nodes_def)
  obtain p where p: "p \<in> nodes c" "freq_at (mem c) p = m" using mn by (auto simp: is_min_def)
  have small: "freq_at h p < INT8_MAX" "freq_at h p \<le> ?M" using fr p aged_bound [OF m M] by simp_all
  then obtain m' where u: "updateMinFreq ?c = Inr (?c\<lparr>minFreq := m'\<rparr>)" "is_min ?c m'" using updateMinFreq_ok [OF a(2)] n p(1) by auto
  have "m' \<le> ?M" using u(2) p(1) small(2) n unfolding is_min_def by force
  moreover have "core (?c\<lparr>minFreq := m'\<rparr>) L'" "contents (?c\<lparr>minFreq := m'\<rparr>) = contents c" "is_min (?c\<lparr>minFreq := m'\<rparr>) m'"
    using a(2,3) u(2) same_store [of "?c\<lparr>minFreq := m'\<rparr>" ?c] by simp_all
  moreover have "handleOverMaxAverageNum ord k0 v0 c = Inr (?c\<lparr>minFreq := m'\<rparr>)"
    using ne a(1) u(1) by (simp add: handleOverMaxAverageNum_def)
  ultimately show ?thesis using fr by blast
qed

text \<open>
  \<^verbatim>\<open>addFreqNum\<close> either counts the access or counts it and ages every node; in both cases the smallest frequency
  stays at most the average bound, which is what keeps \<^verbatim>\<open>updateMinFreq\<close> below its cap of 127.
\<close>

definition counted :: "('k, 'v) lfu \<Rightarrow> int \<Rightarrow> bool" where
  "counted c m \<longleftrightarrow> freq_sum c \<le> curTotalNum c \<and> curTotalNum c \<le> INT_MAX \<and> is_min c m \<and> m \<le> maxAverageNum c"

lemma addFreqNum_ok:
  assumes co: "core c L" and ne: "nodeMap c \<noteq> []" and perm: "\<And>xs. mset (ord xs) = mset xs"
    and mn: "is_min c m" "1 \<le> m" and m: "m \<le> maxAverageNum c + 1" and M: "2 \<le> maxAverageNum c" "maxAverageNum c \<le> 250"
    and t: "freq_sum c \<le> curTotalNum c + 1" "curTotalNum c < INT_MAX"
  shows "\<exists>c'. addFreqNum ord k0 v0 c = Inr c' \<and> (\<exists>L'. core c' L') \<and> contents c' = contents c \<and> nodeMap c' = nodeMap c \<and>
    (\<exists>m'. counted c' m' \<and> (minFreq c' = m' \<or> minFreq c' = minFreq c \<and> m' = m)) \<and>
    curTotalNum c' = curTotalNum c + 1 \<and> capacity c' = capacity c \<and> maxAverageNum c' = maxAverageNum c \<and>
    ((\<forall>q\<in>nodes c. freq_at (mem c') q = freq_at (mem c) q) \<or> (\<forall>q\<in>nodes c. freq_at (mem c') q = aged (maxAverageNum c) (freq_at (mem c) q)))"
proof -
  let ?t = "curTotalNum c + 1" and ?n = "length (nodeMap c)"
  let ?c1 = "c\<lparr>curTotalNum := ?t, curAverageNum := average ?t ?n\<rparr>"
  have s1: "core ?c1 = core c" "contents ?c1 = contents c" "nodes ?c1 = nodes c" "is_min ?c1 = is_min c" "freq_sum ?c1 = freq_sum c"
    by (rule same_store; simp)+
  have pos: "1 \<le> freq_at (mem c) p" if "p \<in> nodes c" for p using core_node [OF co that] by metis
  then have "0 \<le> freq_sum c" unfolding freq_sum_def by (intro sum_nonneg) (simp add: order_trans [OF zero_le_one])
  then have av: "average ?t ?n = ?t div int ?n" using average_eq [of ?t ?n] t ne by simp
  show ?thesis
  proof (cases "average ?t ?n > maxAverageNum c")
    case False
    then have "m \<le> maxAverageNum c"
      using min_le_average [OF mn(1) t(1) mn(2)] core_card(1) [OF co] av by simp
    then have "counted ?c1 m" using s1 t mn m by (simp add: counted_def)
    moreover have "addFreqNum ord k0 v0 c = Inr ?c1" using False t(2) by (simp add: addFreqNum_def Let_def)
    moreover have "core ?c1 L" using co s1 by simp
    ultimately show ?thesis using s1(2) by (intro exI [of _ ?c1]) auto
  next
    case True
    obtain ls h m' L' where a: "handleOverMaxAverageNum ord k0 v0 ?c1 = Inr (?c1\<lparr>freqToFreqList := ls, mem := h, minFreq := m'\<rparr>)"
      "core (?c1\<lparr>freqToFreqList := ls, mem := h, minFreq := m'\<rparr>) L'" "contents (?c1\<lparr>freqToFreqList := ls, mem := h, minFreq := m'\<rparr>) = contents ?c1"
      "\<forall>q\<in>nodes ?c1. freq_at h q = aged (maxAverageNum ?c1) (freq_at (mem ?c1) q)"
      "is_min (?c1\<lparr>freqToFreqList := ls, mem := h, minFreq := m'\<rparr>) m'" "m' \<le> maxAverageNum ?c1"
      using handleOverMaxAverageNum_ok [of ?c1 L ord m k0 v0] co ne perm mn(1) m(1) M s1 by auto
    let ?c' = "?c1\<lparr>freqToFreqList := ls, mem := h, minFreq := m'\<rparr>"
    have "freq_sum ?c' = (\<Sum>q\<in>nodes c. freq_at h q)" by (simp add: freq_sum_def nodes_def)
    also have "\<dots> \<le> freq_sum c" unfolding freq_sum_def
    proof (rule sum_mono)
      fix q assume q: "q \<in> nodes c"
      then show "freq_at h q \<le> freq_at (mem c) q" using a(4) s1(3) aged_le [OF pos [OF q]] M(1) by simp
    qed
    finally have "freq_sum ?c' \<le> ?t" using t(1) by simp
    then have "counted ?c' m'" using a(5,6) t(2) by (simp add: counted_def)
    moreover have "addFreqNum ord k0 v0 c = Inr ?c'" using True t(2) a(1) by (simp add: addFreqNum_def Let_def)
    ultimately show ?thesis using a(2,3,4) s1(2,3) by (intro exI [of _ ?c']) auto
  qed
qed

section \<open>The operations keep the cache consistent\<close>

definition lfu_ok :: "('k, 'v) lfu \<Rightarrow> bool" where
  "lfu_ok c \<longleftrightarrow> (\<exists>L. core c L) \<and> 1 \<le> minFreq c \<and> freq_sum c \<le> curTotalNum c \<and> curTotalNum c \<le> INT_MAX \<and>
     (nodeMap c \<noteq> [] \<longrightarrow> is_min c (minFreq c) \<and> minFreq c \<le> maxAverageNum c) \<and>
     int (length (nodeMap c)) \<le> capacity c \<and> capacity c \<le> INT_MAX \<and> 2 \<le> maxAverageNum c \<and> maxAverageNum c \<le> 250"

text \<open>The frequency after one more access of \<open>p\<close>, and possibly an ageing of all nodes.\<close>

definition bumped :: "(ptr \<Rightarrow> int) \<Rightarrow> ptr \<Rightarrow> ptr \<Rightarrow> int" where
  "bumped F p q = (if q = p then F q + 1 else F q)"

definition maybe_aged :: "int \<Rightarrow> ptr set \<Rightarrow> (ptr \<Rightarrow> int) \<Rightarrow> (ptr \<Rightarrow> int) \<Rightarrow> bool" where
  "maybe_aged M P F F' \<longleftrightarrow> (\<forall>q\<in>P. F' q = F q) \<or> (\<forall>q\<in>P. F' q = aged M (F q))"

lemma counted_ok:
  assumes "counted c (minFreq c)" and "core c L" and "int (length (nodeMap c)) \<le> capacity c" and "capacity c \<le> INT_MAX"
    and "2 \<le> maxAverageNum c" and "maxAverageNum c \<le> 250"
  shows "lfu_ok c"
proof -
  have "is_min c (minFreq c)" using assms(1) by (simp add: counted_def)
  then obtain p where "p \<in> nodes c" "freq_at (mem c) p = minFreq c" unfolding is_min_def by blast
  then have "1 \<le> minFreq c" using core_node [OF assms(2)] by metis
  then show ?thesis using assms by (auto simp: lfu_ok_def counted_def)
qed

text \<open>When the last node leaves the list of the minimum, the node just moved has the new minimum.\<close>

lemma bump_min:
  assumes mn: "is_min c (minFreq c)" and p: "p \<in> nodes c"
    and fr: "\<forall>q\<in>nodes c. freq_at h q = bumped (freq_at (mem c)) p q"
    and c': "nodes c' = nodes c" "mem c' = h"
    and m: "m = (if freq_at (mem c) p = minFreq c \<and> (\<forall>q\<in>nodes c. freq_at h q \<noteq> minFreq c) then minFreq c + 1 else minFreq c)"
  shows "is_min c' m"
proof (cases "\<exists>q\<in>nodes c. freq_at h q = minFreq c")
  case True
  then have "m = minFreq c" using m by auto
  moreover have "minFreq c \<le> freq_at h q" if "q \<in> nodes c" for q using that mn fr by (auto simp: is_min_def bumped_def)
  ultimately show ?thesis using True c' by (auto simp: is_min_def)
next
  case False
  obtain q where q: "q \<in> nodes c" "freq_at (mem c) q = minFreq c" using mn by (auto simp: is_min_def)
  then have qp: "q = p" using False fr unfolding bumped_def by metis
  then have "m = minFreq c + 1" using m q(2) False by auto
  moreover have "minFreq c + 1 \<le> freq_at h r" if "r \<in> nodes c" for r
  proof -
    have "minFreq c \<le> freq_at h r" using that mn fr by (auto simp: is_min_def bumped_def)
    moreover have "freq_at h r \<noteq> minFreq c" using that False by blast
    ultimately show ?thesis by simp
  qed
  moreover have "freq_at h p = minFreq c + 1" using fr p q qp by (simp add: bumped_def)
  ultimately show ?thesis using c' p by (auto simp: is_min_def)
qed

lemma freq_sum_bumped:
  assumes "p \<in> nodes c" and "nodes c' = nodes c" and "\<forall>q\<in>nodes c. freq_at (mem c') q = bumped (freq_at (mem c)) p q"
  shows "freq_sum c' = freq_sum c + 1"
proof -
  have "freq_sum c' = (\<Sum>q\<in>nodes c. bumped (freq_at (mem c)) p q)" unfolding freq_sum_def assms(2) using assms(3) by (intro sum.cong) auto
  also have "\<dots> = (\<Sum>q\<in>nodes c. freq_at (mem c) q + (if q = p then 1 else 0))" by (intro sum.cong) (auto simp: bumped_def)
  also have "\<dots> = freq_sum c + 1" using assms(1) by (simp add: sum.distrib freq_sum_def)
  finally show ?thesis .
qed

text \<open>Everything \<^verbatim>\<open>getInternal\<close> does before it counts the access.\<close>

lemma bump_ok:
  assumes ok: "lfu_ok c" and p: "p \<in> nodes c" and pl: "payload (mem c) p = Some (f, k, v)"
  shows "\<exists>ls h m L'. (\<forall>ord. getInternal ord k0 v0 p c =
        bind_result (addFreqNum ord k0 v0 (c\<lparr>freqToFreqList := ls, mem := h, minFreq := m\<rparr>)) (\<lambda>c3. Inr (v, c3))) \<and>
    core (c\<lparr>freqToFreqList := ls, mem := h, minFreq := m\<rparr>) L' \<and> contents (c\<lparr>freqToFreqList := ls, mem := h, minFreq := m\<rparr>) = contents c \<and>
    is_min (c\<lparr>freqToFreqList := ls, mem := h, minFreq := m\<rparr>) m \<and> 1 \<le> m \<and> m \<le> maxAverageNum c + 1 \<and>
    (\<forall>q\<in>nodes c. freq_at h q = bumped (freq_at (mem c)) p q)"
proof -
  obtain L where co: "core c L" using ok by (auto simp: lfu_ok_def)
  have ne: "nodeMap c \<noteq> []" using p by (auto simp: nodes_def)
  have mn: "is_min c (minFreq c)" "1 \<le> minFreq c" "minFreq c \<le> maxAverageNum c" using ok ne by (auto simp: lfu_ok_def)
  have f: "freq_at (mem c) p = f" "1 \<le> f" using freq_at_payload [OF pl] core_node [OF co p] by metis+
  obtain ls h where r: "requeue k0 v0 (\<lambda>f. f + 1) p c = Inr (c\<lparr>freqToFreqList := ls, mem := h\<rparr>)"
    "core (c\<lparr>freqToFreqList := ls, mem := h\<rparr>) (moved p f (f + 1) L)" "contents (c\<lparr>freqToFreqList := ls, mem := h\<rparr>) = contents c"
    "\<forall>q\<in>nodes c. freq_at h q = (if q = p then f + 1 else freq_at (mem c) q)" "set (freqToFreqList c) \<subseteq> set ls"
    using requeue_core [OF co p, of "\<lambda>f. f + 1" k0 v0] f by auto
  let ?c1 = "c\<lparr>freqToFreqList := ls, mem := h\<rparr>" and ?L = "moved p f (f + 1) L"
  have n1: "nodes ?c1 = nodes c" by (simp add: nodes_def)
  have fr: "\<forall>q\<in>nodes c. freq_at h q = bumped (freq_at (mem c)) p q" using r(4) f(1) by (simp add: bumped_def)
  have empty: "?L f = [] \<longleftrightarrow> (\<forall>q\<in>nodes c. freq_at h q \<noteq> f)"
  proof -
    have "?L f = [] \<longleftrightarrow> (\<forall>q. q \<notin> set (?L f))" by (cases "?L f") auto
    then show ?thesis using core_in_list [OF r(2)] n1 by auto
  qed
  obtain l where l: "list_at f ?c1 = Inr l" "isEmpty l h = Inr (?L f = [])"
  proof -
    have "p \<in> set (L f)" "lists_ok (mem c) (freqToFreqList c) L" using co core_in_list [OF co] p f by (simp_all add: core_def)
    then obtain l where "(f, l) \<in> set (freqToFreqList c)" using lists_ok_nonempty by metis
    then have l: "(f, l) \<in> set ls" using r(5) by blast
    have lo: "lists_ok h ls ?L" using r(2) by (simp add: core_def)
    then have "holds h l (?L f)" using l unfolding lists_ok_def by blast
    moreover have "map_of ls f = Some l" using l lists_ok_map_of [OF lo] by simp
    ultimately show ?thesis using that [of l] by (simp add: list_at_def isEmpty_ok)
  qed
  define m where "m = (if f = minFreq c \<and> (\<forall>q\<in>nodes c. freq_at h q \<noteq> minFreq c) then minFreq c + 1 else minFreq c)"
  let ?c2 = "?c1\<lparr>minFreq := m\<rparr>"
  have s2: "core ?c2 = core ?c1" "contents ?c2 = contents ?c1" "nodes ?c2 = nodes ?c1" by (rule same_store; simp)+
  have "is_min ?c2 m"
  proof (rule bump_min [OF mn(1) p fr])
    show "nodes ?c2 = nodes c" "mem ?c2 = h" using s2(3) n1 by simp_all
  qed (simp only: m_def f(1))
  moreover have "getInternal ord k0 v0 p c = bind_result (addFreqNum ord k0 v0 ?c2) (\<lambda>c3. Inr (v, c3))" for ord
  proof -
    obtain n where "cells (mem c) p = Some n" "nfreq n = f" "nvalue n = v" using payload_freq [OF pl] by blast
    moreover have "(if f = minFreq c then Inr (if ?L f = [] then ?c1\<lparr>minFreq := minFreq c + 1\<rparr> else ?c1) else Inr ?c1) = Inr ?c2"
      using empty by (auto simp: m_def)
    ultimately show ?thesis using r(1) l by (auto simp: getInternal_def cell_def)
  qed
  moreover have "1 \<le> m" "m \<le> maxAverageNum c + 1" using mn by (simp_all add: m_def)
  ultimately show ?thesis using r(2,3) s2(1,2) fr by (intro exI [of _ ls] exI [of _ h] exI [of _ m] exI [of _ ?L]) auto
qed

lemma getInternal_ok:
  assumes ok: "lfu_ok c" and p: "p \<in> nodes c" and pl: "payload (mem c) p = Some (f, k, v)"
    and t: "curTotalNum c < INT_MAX" and perm: "\<And>xs. mset (ord xs) = mset xs"
  shows "\<exists>c'. getInternal ord k0 v0 p c = Inr (v, c') \<and> lfu_ok c' \<and> contents c' = contents c \<and> nodeMap c' = nodeMap c \<and>
    curTotalNum c' = curTotalNum c + 1 \<and> capacity c' = capacity c \<and> maxAverageNum c' = maxAverageNum c \<and>
    maybe_aged (maxAverageNum c) (nodes c) (bumped (freq_at (mem c)) p) (freq_at (mem c'))"
proof -
  have ne: "nodeMap c \<noteq> []" using p by (auto simp: nodes_def)
  have M: "2 \<le> maxAverageNum c" "maxAverageNum c \<le> 250" using ok by (auto simp: lfu_ok_def)
  obtain ls h m L where b: "\<forall>ord. getInternal ord k0 v0 p c =
        bind_result (addFreqNum ord k0 v0 (c\<lparr>freqToFreqList := ls, mem := h, minFreq := m\<rparr>)) (\<lambda>c3. Inr (v, c3))"
    "core (c\<lparr>freqToFreqList := ls, mem := h, minFreq := m\<rparr>) L" "contents (c\<lparr>freqToFreqList := ls, mem := h, minFreq := m\<rparr>) = contents c"
    "is_min (c\<lparr>freqToFreqList := ls, mem := h, minFreq := m\<rparr>) m" "1 \<le> m" "m \<le> maxAverageNum c + 1"
    "\<forall>q\<in>nodes c. freq_at h q = bumped (freq_at (mem c)) p q"
    using bump_ok [OF ok p pl, of k0 v0] by blast
  let ?c2 = "c\<lparr>freqToFreqList := ls, mem := h, minFreq := m\<rparr>"
  have n2: "nodes ?c2 = nodes c" by (simp add: nodes_def)
  have "freq_sum ?c2 = freq_sum c + 1" using freq_sum_bumped [OF p, of ?c2] n2 b(7) by simp
  then have t2: "freq_sum ?c2 \<le> curTotalNum ?c2 + 1" "curTotalNum ?c2 < INT_MAX" using ok t by (simp_all add: lfu_ok_def)
  obtain c' where a: "addFreqNum ord k0 v0 ?c2 = Inr c'" "\<exists>L'. core c' L'" "contents c' = contents ?c2" "counted c' (minFreq c')" "nodeMap c' = nodeMap ?c2"
    "curTotalNum c' = curTotalNum ?c2 + 1" "capacity c' = capacity ?c2" "maxAverageNum c' = maxAverageNum ?c2"
    "(\<forall>q\<in>nodes ?c2. freq_at (mem c') q = freq_at (mem ?c2) q) \<or> (\<forall>q\<in>nodes ?c2. freq_at (mem c') q = aged (maxAverageNum ?c2) (freq_at (mem ?c2) q))"
    using addFreqNum_ok [OF b(2) _ perm b(4,5), of k0 v0] ne b(6) M t2 by auto
  have "lfu_ok c'" using a ok counted_ok [of c'] by (auto simp: lfu_ok_def)
  moreover have "maybe_aged (maxAverageNum c) (nodes c) (bumped (freq_at (mem c)) p) (freq_at (mem c'))"
    using a(9) b(7) n2 by (simp add: maybe_aged_def)
  ultimately show ?thesis using a b(1,3) by (intro exI [of _ c']) simp
qed

lemma lookup_node:
  assumes "core c L" and "map_of (nodeMap c) key = Some p"
  shows "p \<in> nodes c" and "\<exists>f v. payload (mem c) p = Some (f, key, v) \<and> contents c key = Some v"
proof -
  have "(key, p) \<in> set (nodeMap c)" using assms(2) by (rule map_of_SomeD)
  then show "p \<in> nodes c" and "\<exists>f v. payload (mem c) p = Some (f, key, v) \<and> contents c key = Some v"
    using assms unfolding core_def by (force simp: nodes_def contents_def)+
qed

lemma core_delete:
  assumes co: "core c L" and kp: "(k, p) \<in> set (nodeMap c)" and f: "f = freq_at (mem c) p"
    and h: "lists_ok h (freqToFreqList c) (L(f := remove1 p (L f)))" "payload h = payload (mem c)" "dom (cells h) = dom (cells (mem c))" "brk h = brk (mem c)"
    and c': "nodeMap c' = AList.delete k (nodeMap c)" "mem c' = h" "freqToFreqList c' = freqToFreqList c"
  shows "core c' (L(f := remove1 p (L f)))" and "nodes c' = nodes c - {p}" and "contents c' = (contents c)(k := None)"
proof -
  let ?L = "L(f := remove1 p (L f))"
  have set: "set (AList.delete k (nodeMap c)) = {x \<in> set (nodeMap c). fst x \<noteq> k}" by (auto simp: AList.delete_eq)
  have uniq: "q = p \<longleftrightarrow> k' = k" if "(k', q) \<in> set (nodeMap c)" for k' q
  proof -
    have "map_of (nodeMap c) k = Some p" using co kp by (simp add: core_def)
    moreover have "map_of (nodeMap c) k' = Some q" using co that by (simp add: core_def)
    ultimately show ?thesis using core_inj [OF co] kp that unfolding inj_on_def by (metis option.inject prod.inject snd_conv)
  qed
  show n: "nodes c' = nodes c - {p}"
  proof -
    have "q \<in> nodes c' \<longleftrightarrow> q \<in> nodes c \<and> q \<noteq> p" for q
    proof -
      have "q \<in> nodes c' \<longleftrightarrow> (\<exists>k'. (k', q) \<in> set (nodeMap c) \<and> k' \<noteq> k)" using set by (force simp: nodes_def c' image_iff)
      also have "\<dots> \<longleftrightarrow> (\<exists>k'. (k', q) \<in> set (nodeMap c)) \<and> q \<noteq> p" using uniq by blast
      finally show ?thesis by (force simp: nodes_def image_iff)
    qed
    then show ?thesis by blast
  qed
  have fr: "freq_at h = freq_at (mem c)" using h(2) by (simp add: freq_at_def fun_eq_iff)
  have mem: "q \<in> set (?L g) \<longleftrightarrow> q \<noteq> p \<and> q \<in> set (L g)" for q g
    using core_distinct [OF co, of f] core_in_list [OF co] f by (auto simp: set_remove1_eq)
  show "core c' ?L"
    unfolding core_def
  proof (intro conjI allI impI)
    show "heap_ok (mem c')" using co h(3,4) c' by (simp add: core_def heap_ok_dom)
    show "lists_ok (mem c') (freqToFreqList c') ?L" using h(1) c' by simp
    show "distinct (map fst (nodeMap c'))" using co c' by (simp add: core_def AList.distinct_delete)
  next
    fix k' q assume "(k', q) \<in> set (nodeMap c')"
    then have q: "(k', q) \<in> set (nodeMap c)" "k' \<noteq> k" using set c' by auto
    then have "q \<noteq> p" using uniq by blast
    moreover have "\<exists>f v. payload (mem c) q = Some (f, k', v) \<and> 1 \<le> f \<and> q \<in> set (L f)" using co q(1) unfolding core_def by blast
    ultimately show "\<exists>f v. payload (mem c') q = Some (f, k', v) \<and> 1 \<le> f \<and> q \<in> set (?L f)" using h(2) c' by (simp only: mem) simp
  next
    fix g q assume "q \<in> set (?L g)"
    then have "q \<noteq> p" "q \<in> nodes c" "freq_at (mem c) q = g" using mem core_in_list [OF co] by auto
    then show "q \<in> nodes c'" "freq_at (mem c') q = g" using n fr c' by simp_all
  qed
  show "contents c' = (contents c)(k := None)"
    using h(2) by (auto simp: fun_eq_iff contents_def c' AList.delete_conv' split: option.splits)
qed

text \<open>The victim is the node that has waited longest among those of the smallest frequency.\<close>

lemma kickOut_ok:
  assumes ok: "lfu_ok c" and co: "core c L" and ne: "nodeMap c \<noteq> []"
  shows "\<exists>k p c' L'. kickOut c = Inr c' \<and> (k, p) \<in> set (nodeMap c) \<and> p = hd (L (minFreq c)) \<and> freq_at (mem c) p = minFreq c \<and>
    nodeMap c' = AList.delete k (nodeMap c) \<and> core c' L' \<and> nodes c' = nodes c - {p} \<and> contents c' = (contents c)(k := None) \<and>
    curTotalNum c' = curTotalNum c - minFreq c \<and> payload (mem c') = payload (mem c) \<and>
    minFreq c' = minFreq c \<and> capacity c' = capacity c \<and> maxAverageNum c' = maxAverageNum c"
proof -
  let ?f = "minFreq c" and ?ls = "freqToFreqList c"
  have "is_min c ?f" using ok ne by (simp add: lfu_ok_def)
  then obtain q where "q \<in> nodes c" "freq_at (mem c) q = ?f" unfolding is_min_def by blast
  then have "q \<in> set (L ?f)" using core_in_list [OF co] by simp
  then have Lne: "L ?f \<noteq> []" by auto
  define p where "p = hd (L ?f)"
  have pL: "p \<in> set (L ?f)" using Lne by (simp add: p_def)
  then have p: "p \<in> nodes c" "freq_at (mem c) p = ?f" using core_in_list [OF co] by simp_all
  obtain k v where kv: "(k, p) \<in> set (nodeMap c)" "payload (mem c) p = Some (?f, k, v)" using core_node [OF co p(1)] p(2) by metis
  have lo: "lists_ok (mem c) ?ls L" using co by (simp add: core_def)
  obtain l where l: "map_of ?ls ?f = Some l" "holds (mem c) l (L ?f)" using lists_ok_nonempty [OF lo pL] by metis
  obtain h where h: "removeFromFreqList p c = Inr (c\<lparr>mem := h\<rparr>)" "lists_ok h ?ls (L(?f := remove1 p (L ?f)))" "payload h = payload (mem c)"
    "dom (cells h) = dom (cells (mem c))" "brk h = brk (mem c)"
    using removeFromFreqList_ok [OF lo pL kv(2)] by blast
  define c' where "c' = decreaseFreqNum ?f (c\<lparr>mem := h, nodeMap := AList.delete k (nodeMap c)\<rparr>)"
  obtain n where n: "cells h p = Some n" "nfreq n = ?f" "nkey n = k" using payload_freq [of h p ?f k v] kv(2) h(3) by auto
  have "getFirstNode l (mem c) = Inr p" using getFirstNode_ok [OF l(2)] Lne by (simp add: p_def)
  then have "kickOut c = Inr c'" using l(1) h(1) n by (simp add: kickOut_def list_at_def cell_def c'_def)
  moreover have fields: "nodeMap c' = AList.delete k (nodeMap c)" "mem c' = h" "freqToFreqList c' = ?ls" "curTotalNum c' = curTotalNum c - ?f"
    "minFreq c' = ?f" "capacity c' = capacity c" "maxAverageNum c' = maxAverageNum c"
    by (simp_all add: c'_def decreaseFreqNum_def Let_def)
  moreover note core_delete [OF co kv(1) p(2) [symmetric] h(2,3,4,5) fields(1,2,3)]
  ultimately show ?thesis using kv(1) p(2) h(3) p_def by metis
qed

lemma update_new: "map_of al k = None \<Longrightarrow> AList.update k v al = al @ [(k, v)]"
  by (induction al) (auto split: if_splits)

lemma make_node_lists:
  assumes co: "core c L" and mk: "make_node n (mem c) = (p, h)"
  shows "heap_ok h" and "lists_ok h (freqToFreqList c) L" and "unlinked (freqToFreqList c) L p" and "p \<notin> nodes c"
    and "cells h = (cells (mem c))(p \<mapsto> n)" and "\<And>q. q \<in> nodes c \<Longrightarrow> payload h q = payload (mem c) q \<and> q \<in> dom (cells h)"
proof -
  let ?ls = "freqToFreqList c"
  have hp: "heap_ok (mem c)" and lo: "lists_ok (mem c) ?ls L" using co by (simp_all add: core_def)
  note mk' = make_node_ok [OF hp mk]
  then show "heap_ok h" and cells: "cells h = (cells (mem c))(p \<mapsto> n)" by simp_all
  have new: "p \<notin> dom (cells (mem c))" using mk' by blast
  have fp: "footprint l (L f) \<subseteq> dom (cells (mem c))" if "(f, l) \<in> set ?ls" for f l using lo that unfolding lists_ok_def holds_def by blast
  show "unlinked ?ls L p" unfolding unlinked_def using fp new by blast
  show "lists_ok h ?ls L"
  proof (rule lists_ok_frame [OF lo], intro allI impI ballI)
    fix f l x assume "(f, l) \<in> set ?ls" "x \<in> footprint l (L f)"
    then have "x \<noteq> p" using fp new by blast
    then show "cells h x = cells (mem c) x" using cells by simp
  qed
  have dom: "q \<in> dom (cells (mem c))" if "q \<in> nodes c" for q 
  proof -
    obtain f k v where "payload (mem c) q = Some (f, k, v)" using core_node [OF co \<open>q \<in> nodes c\<close>] by metis
    then show ?thesis by (auto simp: payload_def)
  qed
  then show "p \<notin> nodes c" using new by blast
  show "payload h q = payload (mem c) q \<and> q \<in> dom (cells h)" if "q \<in> nodes c" for q
    using dom [OF that] new cells by (auto simp: payload_def)
qed

lemma insert_ok:
  assumes co: "core c L" and key: "map_of (nodeMap c) key = None" and mk: "make_node (Node key value) (mem c) = (p, h)"
  shows "\<exists>c'. addToFreqList k0 v0 p (c\<lparr>nodeMap := AList.update key p (nodeMap c), mem := h\<rparr>) = Inr c' \<and> core c' (L(1 := L 1 @ [p])) \<and>
    nodeMap c' = nodeMap c @ [(key, p)] \<and> nodes c' = insert p (nodes c) \<and> contents c' = (contents c)(key \<mapsto> value) \<and>
    freq_at (mem c') p = 1 \<and> (\<forall>q\<in>nodes c. freq_at (mem c') q = freq_at (mem c) q) \<and>
    curTotalNum c' = curTotalNum c \<and> minFreq c' = minFreq c \<and> capacity c' = capacity c \<and> maxAverageNum c' = maxAverageNum c"
proof -
  let ?c = "c\<lparr>nodeMap := AList.update key p (nodeMap c), mem := h\<rparr>" and ?L = "L(1 := L 1 @ [p])"
  note nd = make_node_lists [OF co mk]
  have pl: "payload h p = Some (1, key, value)" using nd(5) by (simp add: payload_def Node_def)
  obtain ls h' where a: "addToFreqList k0 v0 p ?c = Inr (?c\<lparr>freqToFreqList := ls, mem := h'\<rparr>)" "heap_ok h'" "lists_ok h' ls ?L"
    "\<forall>x\<in>dom (cells h). payload h' x = payload h x"
    using addToFreqList_ok [of ?c L p 1 key "value" k0 v0] nd(1,2,3) pl by auto
  define c' where "c' = ?c\<lparr>freqToFreqList := ls, mem := h'\<rparr>"
  have f: "nodeMap c' = nodeMap c @ [(key, p)]" "mem c' = h'" "freqToFreqList c' = ls" using update_new [OF key] by (simp_all add: c'_def)
  have old: "payload h' q = payload (mem c) q" if "q \<in> nodes c" for q using a(4) nd(6) [OF that] by simp
  have new: "payload h' p = Some (1, key, value)" using a(4) nd(5) pl by simp
  have ns: "nodes c' = insert p (nodes c)" using f by (auto simp: nodes_def)
  have fr: "freq_at h' p = 1" "\<forall>q\<in>nodes c. freq_at h' q = freq_at (mem c) q" using new old by (simp_all add: freq_at_def)
  have "core c' ?L"
    unfolding core_def
  proof (intro conjI allI impI)
    show "heap_ok (mem c')" "lists_ok (mem c') (freqToFreqList c') ?L" using a(2,3) f by simp_all
    show "distinct (map fst (nodeMap c'))" using co key f by (simp add: core_def map_of_eq_None_iff)
  next
    fix k q assume "(k, q) \<in> set (nodeMap c')"
    then consider "k = key" "q = p" | "(k, q) \<in> set (nodeMap c)" using f by auto
    then show "\<exists>f v. payload (mem c') q = Some (f, k, v) \<and> 1 \<le> f \<and> q \<in> set (?L f)"
    proof cases
      case 2
      then have "\<exists>f v. payload (mem c) q = Some (f, k, v) \<and> 1 \<le> f \<and> q \<in> set (L f)" using co unfolding core_def by blast
      moreover have "q \<in> nodes c" using 2 by (force simp: nodes_def)
      ultimately show ?thesis using old [of q] f by auto
    qed (use new f in simp)
  next
    fix g q assume "q \<in> set (?L g)"
    then have "q \<in> set (L g) \<or> q = p \<and> g = 1" by (auto split: if_splits)
    then show "q \<in> nodes c'" "freq_at (mem c') q = g" using core_in_list [OF co] ns fr f by auto
  qed
  moreover have "contents c' = (contents c)(key \<mapsto> value)"
  proof
    fix k
    have "payload h' q = payload (mem c) q" if "map_of (nodeMap c) k = Some q" for q
      using map_of_SomeD [OF that] old [of q] by (force simp: nodes_def)
    then show "contents c' k = ((contents c)(key \<mapsto> value)) k"
      using f key new by (auto simp: contents_def map_add_def split: option.splits)
  qed
  moreover have "addToFreqList k0 v0 p ?c = Inr c'" "curTotalNum c' = curTotalNum c" "minFreq c' = minFreq c" "capacity c' = capacity c"
    "maxAverageNum c' = maxAverageNum c" using a(1) by (simp_all add: c'_def)
  ultimately show ?thesis using f ns fr by metis
qed

text \<open>\<^verbatim>\<open>it->second->value = value\<close> touches no link and no frequency.\<close>

lemma holds_links:
  assumes "next_of h' = next_of h" and "pre_of h' = pre_of h" and "dom (cells h') = dom (cells h)"
  shows "holds h' l xs = holds h l xs"
  using chain_frame [of _ h' h] assms by (simp add: holds_def)

lemma set_value_ok:
  assumes ok: "lfu_ok c" and p: "map_of (nodeMap c) key = Some p"
  shows "\<exists>h f. modify p (\<lambda>n. n\<lparr>nvalue := value\<rparr>) (mem c) = Inr h \<and> lfu_ok (c\<lparr>mem := h\<rparr>) \<and> payload h p = Some (f, key, value) \<and>
    contents (c\<lparr>mem := h\<rparr>) = (contents c)(key \<mapsto> value) \<and> freq_at h = freq_at (mem c)"
proof -
  obtain L where co: "core c L" using ok by (auto simp: lfu_ok_def)
  obtain f v where pl: "payload (mem c) p = Some (f, key, v)" using lookup_node [OF co p] by blast
  obtain n where n: "cells (mem c) p = Some n" "nfreq n = f" "nkey n = key" using payload_freq [OF pl] by blast
  define h where "h = (mem c)\<lparr>cells := (cells (mem c))(p \<mapsto> n\<lparr>nvalue := value\<rparr>)\<rparr>"
  have m: "modify p (\<lambda>n. n\<lparr>nvalue := value\<rparr>) (mem c) = Inr h" using n by (simp add: h_def modify_ok)
  have links: "next_of h = next_of (mem c)" "pre_of h = pre_of (mem c)" "dom (cells h) = dom (cells (mem c))" "brk h = brk (mem c)"
    using n by (auto simp: h_def fun_eq_iff next_of_def pre_of_def)
  have pay: "payload h = (payload (mem c))(p := Some (f, key, value))" using n by (simp add: h_def fun_eq_iff payload_def)
  then have fr: "freq_at h = freq_at (mem c)" using pl by (simp add: fun_eq_iff freq_at_def)
  let ?c = "c\<lparr>mem := h\<rparr>"
  have n1: "nodes ?c = nodes c" by (simp add: nodes_def)
  have kp: "(key, p) \<in> set (nodeMap c)" using p by (rule map_of_SomeD)
  have only: "k = key" if "(k, p) \<in> set (nodeMap c)" for k 
    using inj_onD [OF core_inj [OF co], of "(k, p)" "(key, p)"] kp that by simp
  have "core ?c L"
    unfolding core_def
  proof (intro conjI allI impI)
    show "heap_ok (mem ?c)" "distinct (map fst (nodeMap ?c))" using co links by (simp_all add: core_def heap_ok_dom)
    have "lists_ok h (freqToFreqList c) L = lists_ok (mem c) (freqToFreqList c) L" unfolding lists_ok_def holds_links [OF links(1,2,3)] ..
    then show "lists_ok (mem ?c) (freqToFreqList ?c) L" using co by (simp add: core_def)
  next
    fix k q assume "(k, q) \<in> set (nodeMap ?c)"
    then have kq: "(k, q) \<in> set (nodeMap c)" by simp
    then have "\<exists>f v. payload (mem c) q = Some (f, k, v) \<and> 1 \<le> f \<and> q \<in> set (L f)" using co unfolding core_def by blast
    then show "\<exists>f v. payload (mem ?c) q = Some (f, k, v) \<and> 1 \<le> f \<and> q \<in> set (L f)"
    proof (cases "q = p")
      case True
      then show ?thesis using \<open>\<exists>f v. payload (mem c) q = Some (f, k, v) \<and> 1 \<le> f \<and> q \<in> set (L f)\<close> pay pl by simp
    next
      case False
      then have "payload h q = payload (mem c) q" using pay by simp
      then show ?thesis using \<open>\<exists>f v. payload (mem c) q = Some (f, k, v) \<and> 1 \<le> f \<and> q \<in> set (L f)\<close> by simp
    qed
  next
    fix g q assume "q \<in> set (L g)"
    then show "q \<in> nodes ?c" "freq_at (mem ?c) q = g" using core_in_list [OF co] n1 fr by simp_all
  qed
  then have "lfu_ok ?c" using ok n1 fr by (auto simp: lfu_ok_def freq_sum_def is_min_def)
  moreover have "contents ?c = (contents c)(key \<mapsto> value)"
  proof
    fix k
    show "contents ?c k = ((contents c)(key \<mapsto> value)) k"
    proof (cases "map_of (nodeMap c) k")
      case (Some q)
      then have "q = p \<longleftrightarrow> k = key" using only [of k] p map_of_SomeD [OF Some] by auto
      then show ?thesis using Some pay by (auto simp: contents_def)
    qed (use p in \<open>auto simp: contents_def\<close>)
  qed
  ultimately show ?thesis using m pay fr by auto
qed

lemma link_new_ok:
  assumes co: "core c L" and key: "map_of (nodeMap c) key = None" and perm: "\<And>xs. mset (ord xs) = mset xs"
    and t: "freq_sum c \<le> curTotalNum c" "curTotalNum c < INT_MAX" and room: "int (length (nodeMap c)) < capacity c"
    and b: "1 \<le> minFreq c" "capacity c \<le> INT_MAX" "2 \<le> maxAverageNum c" "maxAverageNum c \<le> 250"
  shows "\<exists>c'. link_new ord k0 v0 key value c = Inr c' \<and>
    lfu_ok c' \<and> contents c' = (contents c)(key \<mapsto> value) \<and> curTotalNum c' = curTotalNum c + 1 \<and> capacity c' = capacity c \<and>
    maxAverageNum c' = maxAverageNum c"
proof -
  obtain p h where mk: "make_node (Node key value) (mem c) = (p, h)" by fastforce
  let ?L = "L(1 := L 1 @ [p])"
  obtain c3 where i: "addToFreqList k0 v0 p (c\<lparr>nodeMap := AList.update key p (nodeMap c), mem := h\<rparr>) = Inr c3" "core c3 ?L"
    "nodeMap c3 = nodeMap c @ [(key, p)]" "nodes c3 = insert p (nodes c)" "contents c3 = (contents c)(key \<mapsto> value)" "freq_at (mem c3) p = 1"
    "\<forall>q\<in>nodes c. freq_at (mem c3) q = freq_at (mem c) q" "curTotalNum c3 = curTotalNum c" "minFreq c3 = minFreq c"
    "capacity c3 = capacity c" "maxAverageNum c3 = maxAverageNum c"
    using insert_ok [OF co key mk, of k0 v0] by blast
  have pn: "p \<notin> nodes c" using make_node_lists(4) [OF co mk] .
  have pos: "1 \<le> freq_at (mem c3) q" if "q \<in> nodes c3" for q using core_node [OF i(2) that] by metis
  then have mn: "is_min c3 1" using i(4,6) by (auto simp: is_min_def)
  have "freq_sum c3 = 1 + (\<Sum>q\<in>nodes c. freq_at (mem c3) q)" using i(4,6) pn by (simp add: freq_sum_def)
  also have "(\<Sum>q\<in>nodes c. freq_at (mem c3) q) = freq_sum c" using i(7) by (simp add: freq_sum_def)
  finally have fs: "freq_sum c3 \<le> curTotalNum c3 + 1" using t(1) i(8) by simp
  obtain c4 L4 m where a: "addFreqNum ord k0 v0 c3 = Inr c4" "core c4 L4" "contents c4 = contents c3" "nodeMap c4 = nodeMap c3"
    "counted c4 m" "minFreq c4 = m \<or> minFreq c4 = minFreq c3 \<and> m = 1" "curTotalNum c4 = curTotalNum c3 + 1"
    "capacity c4 = capacity c3" "maxAverageNum c4 = maxAverageNum c3"
    "(\<forall>q\<in>nodes c3. freq_at (mem c4) q = freq_at (mem c3) q) \<or> (\<forall>q\<in>nodes c3. freq_at (mem c4) q = aged (maxAverageNum c3) (freq_at (mem c3) q))"
    using addFreqNum_ok [OF i(2) _ perm mn order_refl, of k0 v0] i(3,8,11) fs b t(2) by auto
  have n4: "nodes c4 = nodes c3" using a(4) by (simp add: nodes_def)
  have "freq_at (mem c4) p = 1" using a(10) i(4,6) b(3) i(11) by (auto simp: aged_def c_div_nonneg)
  moreover have pos4: "1 \<le> freq_at (mem c4) q" if "q \<in> nodes c4" for q using core_node [OF a(2) that] by metis
  ultimately have mn4: "is_min c4 1" using n4 i(4) by (auto simp: is_min_def)
  have m1: "1 \<le> m" using a(5) pos4 by (auto simp: counted_def is_min_def)
  define c5 where "c5 = c4\<lparr>minFreq := 1\<rparr>"
  have f: "nodeMap c5 = nodeMap c4" "freqToFreqList c5 = freqToFreqList c4" "mem c5 = mem c4" by (simp_all add: c5_def)
  note s = same_store [OF f]
  have "counted c5 1" using a(5) s mn4 a(9) i(11) b(3) by (simp add: counted_def c5_def)
  then have "lfu_ok c5" using counted_ok [of c5 L4] s(1) a(2,4,8,9) i(3,10,11) room b by (simp add: c5_def)
  moreover have "min (minFreq c4) 1 = 1" using a(6) m1 b(1) i(9) by auto
  then have "bind_result (addFreqNum ord k0 v0 c3) (\<lambda>c4. Inr (c4\<lparr>minFreq := min (minFreq c4) 1\<rparr>)) = Inr c5" using a(1) by (simp add: c5_def)
  moreover have "contents c5 = (contents c)(key \<mapsto> value)" using s(2) a(3) i(5) by simp
  moreover have "curTotalNum c5 = curTotalNum c + 1" "capacity c5 = capacity c" "maxAverageNum c5 = maxAverageNum c"
    using a i by (simp_all add: c5_def)
  ultimately show ?thesis using mk i(1) by (simp add: link_new_def)
qed

section \<open>put and get\<close>

text \<open>A key whose node has been used least of all.\<close>

definition least_used :: "('k, 'v) lfu \<Rightarrow> 'k \<Rightarrow> bool" where
  "least_used c k \<longleftrightarrow> (\<exists>p. map_of (nodeMap c) k = Some p \<and> (\<forall>q\<in>nodes c. freq_at (mem c) p \<le> freq_at (mem c) q))"

definition same_settings :: "('k, 'v) lfu \<Rightarrow> ('k, 'v) lfu \<Rightarrow> bool" where
  "same_settings c c' \<longleftrightarrow> capacity c' = capacity c \<and> maxAverageNum c' = maxAverageNum c"

lemma lfu_get_ok:
  assumes ok: "lfu_ok c" and t: "curTotalNum c < INT_MAX" and perm: "\<And>xs. mset (ord xs) = mset xs"
  shows "\<exists>c'. lfu_get ord k0 v0 key c = Inr (contents c key, c') \<and> lfu_ok c' \<and> contents c' = contents c \<and>
    curTotalNum c' \<le> curTotalNum c + 1 \<and> same_settings c c'"
proof (cases "map_of (nodeMap c) key")
  case None
  then have "lfu_get ord k0 v0 key c = Inr (contents c key, c)" by (simp add: lfu_get_def contents_def)
  then show ?thesis using ok by (simp add: same_settings_def)
next
  case (Some p)
  obtain L where "core c L" using ok by (auto simp: lfu_ok_def)
  from lookup_node [OF this Some] obtain f v where p: "p \<in> nodes c" "payload (mem c) p = Some (f, key, v)" "contents c key = Some v" by blast
  obtain c' where "getInternal ord k0 v0 p c = Inr (v, c')" "lfu_ok c'" "contents c' = contents c" "curTotalNum c' = curTotalNum c + 1"
    "capacity c' = capacity c" "maxAverageNum c' = maxAverageNum c"
    using getInternal_ok [OF ok p(1,2) t perm] by blast
  then show ?thesis using Some p(3) by (simp add: lfu_get_def same_settings_def)
qed

lemma lfu_get_overflow:
  assumes ok: "lfu_ok c" and full: "curTotalNum c = INT_MAX" and hit: "contents c key \<noteq> None"
  shows "lfu_get ord k0 v0 key c = Inl Int_overflow"
proof -
  obtain L where co: "core c L" using ok by (auto simp: lfu_ok_def)
  obtain p where p: "map_of (nodeMap c) key = Some p" using hit by (auto simp: contents_def split: option.splits)
  obtain f v where pl: "p \<in> nodes c" "payload (mem c) p = Some (f, key, v)" using lookup_node [OF co p] by blast
  from bump_ok [OF ok pl, of k0 v0] show ?thesis using p full by (auto simp: lfu_get_def addFreqNum_def)
qed

lemma lfu_purge_ok:
  assumes "lfu_ok c"
  shows "lfu_ok (lfu_purge c)" and "contents (lfu_purge c) = Map.empty"
proof -
  have "heap_ok (mem c)" using assms by (auto simp: lfu_ok_def core_def)
  then have "core (lfu_purge c) (\<lambda>_. [])" by (simp add: core_def lfu_purge_def lists_ok_def)
  moreover have "nodes c = {} \<or> 0 \<le> freq_sum c"
  proof -
    obtain L where co: "core c L" using assms by (auto simp: lfu_ok_def)
    have "0 \<le> freq_at (mem c) p" if "p \<in> nodes c" for p using core_node [OF co that] by (metis order_trans zero_le_one)
    then show ?thesis unfolding freq_sum_def by (simp add: sum_nonneg)
  qed
  then have "0 \<le> curTotalNum c" using assms by (auto simp: lfu_ok_def freq_sum_def)
  moreover have "freq_sum (lfu_purge c) = 0" by (simp add: freq_sum_def nodes_def lfu_purge_def)
  ultimately show "lfu_ok (lfu_purge c)" using assms by (auto simp: lfu_ok_def lfu_purge_def)
  show "contents (lfu_purge c) = Map.empty" by (simp add: contents_def lfu_purge_def fun_eq_iff)
qed

lemma put_existing_ok:
  assumes ok: "lfu_ok c" and t: "curTotalNum c < INT_MAX" and perm: "\<And>xs. mset (ord xs) = mset xs"
    and cap: "capacity c \<noteq> 0" and p: "map_of (nodeMap c) key = Some p"
  shows "\<exists>c'. lfu_put ord k0 v0 key value c = Inr c' \<and> lfu_ok c' \<and> contents c' = (contents c)(key \<mapsto> value) \<and>
    curTotalNum c' \<le> curTotalNum c + 1 \<and> same_settings c c'"
proof -
  obtain h f where h: "modify p (\<lambda>n. n\<lparr>nvalue := value\<rparr>) (mem c) = Inr h" "lfu_ok (c\<lparr>mem := h\<rparr>)" "payload h p = Some (f, key, value)"
    "contents (c\<lparr>mem := h\<rparr>) = (contents c)(key \<mapsto> value)"
    using set_value_ok [OF ok p] by blast
  have pn: "p \<in> nodes (c\<lparr>mem := h\<rparr>)" using map_of_SomeD [OF p] by (force simp: nodes_def)
  obtain c' where "getInternal ord k0 v0 p (c\<lparr>mem := h\<rparr>) = Inr (value, c')" "lfu_ok c'" "contents c' = contents (c\<lparr>mem := h\<rparr>)"
    "curTotalNum c' = curTotalNum c + 1" "capacity c' = capacity c" "maxAverageNum c' = maxAverageNum c"
    using getInternal_ok [OF h(2) pn, of f key "value" ord k0 v0] h(3) t perm by auto
  then show ?thesis using cap p h(1,4) by (simp add: lfu_put_def same_settings_def)
qed

lemma put_new_ok:
  assumes ok: "lfu_ok c" and t: "curTotalNum c < INT_MAX" and perm: "\<And>xs. mset (ord xs) = mset xs"
    and cap: "capacity c \<noteq> 0" and new: "map_of (nodeMap c) key = None"
  shows "\<exists>c'. lfu_put ord k0 v0 key value c = Inr c' \<and> lfu_ok c' \<and> curTotalNum c' \<le> curTotalNum c + 1 \<and> same_settings c c' \<and>
    (if int (length (nodeMap c)) < capacity c then contents c' = (contents c)(key \<mapsto> value)
     else \<exists>k. least_used c k \<and> contents c' = (contents c)(k := None, key \<mapsto> value))"
proof -
  obtain L where co: "core c L" using ok by (auto simp: lfu_ok_def)
  have b: "1 \<le> minFreq c" "capacity c \<le> INT_MAX" "2 \<le> maxAverageNum c" "maxAverageNum c \<le> 250" "freq_sum c \<le> curTotalNum c"
    "int (length (nodeMap c)) \<le> capacity c" using ok by (simp_all add: lfu_ok_def)
  then have full: "int (length (nodeMap c)) = capacity c mod 2 ^ 64 \<longleftrightarrow> \<not> int (length (nodeMap c)) < capacity c" by (auto simp: INT_MAX_def)
  have put: "lfu_put ord k0 v0 key value c = putInternal ord k0 v0 key value c" using cap new by (simp add: lfu_put_def)
  show ?thesis
  proof (cases "int (length (nodeMap c)) < capacity c")
    case True
    note link_new_ok [OF co new perm b(5) t True b(1,2,3,4), of k0 v0 "value"]
    then show ?thesis using True full put by (auto simp: putInternal_def same_settings_def)
  next
    case False
    then have ne: "nodeMap c \<noteq> []" using b(6) cap by auto
    obtain k p c1 L1 where k: "kickOut c = Inr c1" "(k, p) \<in> set (nodeMap c)" "freq_at (mem c) p = minFreq c" "nodeMap c1 = AList.delete k (nodeMap c)"
      "core c1 L1" "nodes c1 = nodes c - {p}" "contents c1 = (contents c)(k := None)" "curTotalNum c1 = curTotalNum c - minFreq c"
      "payload (mem c1) = payload (mem c)" "minFreq c1 = minFreq c" "capacity c1 = capacity c" "maxAverageNum c1 = maxAverageNum c"
      using kickOut_ok [OF ok co ne] by blast
    have pn: "p \<in> nodes c" using k(2) by (force simp: nodes_def)
    have "freq_at (mem c1) = freq_at (mem c)" using k(9) by (simp add: freq_at_def fun_eq_iff)
    then have "freq_sum c1 = freq_sum c - minFreq c" using pn k(3,6) by (simp add: freq_sum_def sum_diff1)
    then have t1: "freq_sum c1 \<le> curTotalNum c1" "curTotalNum c1 < INT_MAX" using b(1,5) t k(8) by simp_all
    have "length (nodeMap c1) < length (nodeMap c)"
      using core_card(1) [OF co] core_card(1) [OF k(5)] k(6) pn card_Diff1_less [of "nodes c" p] by simp
    then have room: "int (length (nodeMap c1)) < capacity c1" using b(6) k(11) by simp
    have new1: "map_of (nodeMap c1) key = None" using new k(4) by (simp add: AList.delete_conv')
    have bnd: "1 \<le> minFreq c1" "capacity c1 \<le> INT_MAX" "2 \<le> maxAverageNum c1" "maxAverageNum c1 \<le> 250" using b k(10,11,12) by simp_all
    have "least_used c k"
      using co ok ne k(2,3) by (auto simp: least_used_def core_def lfu_ok_def is_min_def)
    moreover note link_new_ok [OF k(5) new1 perm t1 room bnd, of k0 v0 "value"]
    ultimately show ?thesis using False full put k b(1) by (fastforce simp: putInternal_def same_settings_def)
  qed
qed

lemma new_cache_ok:
  assumes "heap_ok h" and "0 \<le> cap" and "cap \<le> INT_MAX" and "2 \<le> M" and "M \<le> 250"
  shows "lfu_ok (RLfuCache cap M h)" and "contents (RLfuCache cap M h) = Map.empty"
proof -
  have "core (RLfuCache cap M h) (\<lambda>_. [])" using assms(1) by (simp add: core_def RLfuCache_def lists_ok_def)
  then show "lfu_ok (RLfuCache cap M h)"
    using assms by (auto simp: lfu_ok_def RLfuCache_def freq_sum_def nodes_def INT8_MAX_def INT_MAX_def)
  show "contents (RLfuCache cap M h) = Map.empty" by (simp add: contents_def RLfuCache_def fun_eq_iff)
qed

lemma dom_contents:
  assumes "core c L"
  shows "dom (contents c) = fst ` set (nodeMap c)" and "card (dom (contents c)) = length (nodeMap c)"
proof -
  have "k \<in> dom (contents c) \<longleftrightarrow> map_of (nodeMap c) k \<noteq> None" for k
    using lookup_node [OF assms, of k] by (cases "map_of (nodeMap c) k") (force simp: contents_def)+
  then show eq: "dom (contents c) = fst ` set (nodeMap c)" by (auto simp: map_of_eq_None_iff)
  have "distinct (map fst (nodeMap c))" using assms by (simp add: core_def)
  then show "card (dom (contents c)) = length (nodeMap c)" unfolding eq by (metis distinct_card length_map set_map)
qed

text \<open>A frequency list whose smallest frequency is above the cap makes \<^verbatim>\<open>updateMinFreq\<close> answer 1, the frequency of no node.\<close>

lemma updateMinFreq_capped:
  assumes co: "core c L" and big: "\<forall>p\<in>nodes c. INT8_MAX \<le> freq_at (mem c) p" and ne: "nodes c \<noteq> {}"
  shows "updateMinFreq c = Inr (c\<lparr>minFreq := 1\<rparr>)" and "\<not> is_min c 1"
proof -
  let ?ls = "freqToFreqList c"
  have hold: "\<forall>f l. (f, l) \<in> set ?ls \<longrightarrow> holds (mem c) l (L f)" using co by (simp add: core_def lists_ok_def)
  obtain m where m: "min_nonempty (mem c) ?ls INT8_MAX = Inr m" "m \<le> INT8_MAX" "m = INT8_MAX \<or> L m \<noteq> []"
    using min_nonempty_ok [OF hold, of INT8_MAX] by blast
  have "m = INT8_MAX"
  proof (rule ccontr)
    assume "m \<noteq> INT8_MAX"
    then obtain p where "p \<in> set (L m)" using m(3) by (metis list.set_sel(1))
    then have "p \<in> nodes c" "freq_at (mem c) p = m" using core_in_list [OF co] by blast+
    then have "INT8_MAX \<le> m" using big by blast
    then show False using m(2) \<open>m \<noteq> INT8_MAX\<close> by simp
  qed
  then show "updateMinFreq c = Inr (c\<lparr>minFreq := 1\<rparr>)" using m(1) by (simp add: updateMinFreq_def)
  show "\<not> is_min c 1" using big by (auto simp: is_min_def INT8_MAX_def)
qed

end
