(* ===== verification/CachePolicies.thy ===== *)
theory CachePolicies
  imports LfuCache
begin

text \<open>
  The interface \<^verbatim>\<open>RICachePolicy\<close> of \<^verbatim>\<open>include/RICachePolicy.h\<close> as a locale, what a client can rely on, and its two implementations in
  \<^verbatim>\<open>include/LFU.h\<close>: \<^verbatim>\<open>RLfuCache\<close> and the sharded \<^verbatim>\<open>RHashLfuCache\<close>.
\<close>

section \<open>Sequences of accesses\<close>

datatype ('k, 'v) access = Put 'k 'v | Get 'k

fun run_accesses ::
    "('k \<Rightarrow> 'v \<Rightarrow> 'c \<Rightarrow> 'c result) \<Rightarrow> ('k \<Rightarrow> 'c \<Rightarrow> ('v option \<times> 'c) result) \<Rightarrow> ('k, 'v) access list \<Rightarrow> 'c \<Rightarrow> ('v option list \<times> 'c) result" where
  "run_accesses put get [] c = Inr ([], c)"
| "run_accesses put get (Put k v # as) c = bind_result (put k v c) (run_accesses put get as)"
| "run_accesses put get (Get k # as) c =
     bind_result (get k c) (\<lambda>(r, c'). bind_result (run_accesses put get as c') (\<lambda>(rs, c''). Inr (r # rs, c'')))"

text \<open>
  \<open>answers m as\<close> is what an unbounded map that starts as \<open>m\<close> answers; \<open>fresh m as rs\<close> says that every answer in \<open>rs\<close> is a miss or the
  value stored last.
\<close>

fun answers :: "('k \<rightharpoonup> 'v) \<Rightarrow> ('k, 'v) access list \<Rightarrow> 'v option list" where
  "answers m [] = []"
| "answers m (Put k v # as) = answers (m(k \<mapsto> v)) as"
| "answers m (Get k # as) = m k # answers m as"

definition fresh :: "('k \<rightharpoonup> 'v) \<Rightarrow> ('k, 'v) access list \<Rightarrow> 'v option list \<Rightarrow> bool" where
  "fresh m as rs \<longleftrightarrow> list_all2 (\<lambda>r a. r = None \<or> r = a) rs (answers m as)"

fun put_keys :: "('k, 'v) access list \<Rightarrow> 'k set" where
  "put_keys [] = {}"
| "put_keys (Put k v # as) = insert k (put_keys as)"
| "put_keys (Get k # as) = put_keys as"

fun get_keys :: "('k, 'v) access list \<Rightarrow> 'k list" where
  "get_keys [] = []"
| "get_keys (Put k v # as) = get_keys as"
| "get_keys (Get k # as) = k # get_keys as"

fun access_key :: "('k, 'v) access \<Rightarrow> 'k" where
  "access_key (Put k v) = k"
| "access_key (Get k) = k"

lemma finite_put_keys [simp]: "finite (put_keys as)"
  by (induction as rule: put_keys.induct) simp_all

section \<open>The interface\<close>

text \<open>
  \<open>ready c n\<close>: the cache is consistent and can serve \<open>n\<close> accesses. \<open>bound\<close> limits the number of entries; as long as there are at most
  \<open>room\<close> keys nothing is evicted.
\<close>

locale cache_policy =
  fixes put :: "'k \<Rightarrow> 'v \<Rightarrow> 'c \<Rightarrow> 'c result" and get :: "'k \<Rightarrow> 'c \<Rightarrow> ('v option \<times> 'c) result"
    and content :: "'c \<Rightarrow> 'k \<rightharpoonup> 'v" and ready :: "'c \<Rightarrow> nat \<Rightarrow> bool" and bound :: "'c \<Rightarrow> nat" and room :: "'c \<Rightarrow> nat"
  assumes get_law: "ready c (Suc n) \<Longrightarrow> \<exists>c'. get k c = Inr (content c k, c') \<and> ready c' n \<and> content c' = content c \<and> bound c' = bound c \<and> room c' = room c"
    and put_law: "ready c (Suc n) \<Longrightarrow> \<exists>c'. put k v c = Inr c' \<and> ready c' n \<and> bound c' = bound c \<and> room c' = room c \<and>
      (0 < room c \<longrightarrow> content c' k = Some v) \<and> (\<forall>k'. content c' k' = None \<or> content c' k' = ((content c)(k \<mapsto> v)) k') \<and>
      (card (insert k (dom (content c))) \<le> room c \<longrightarrow> content c' = (content c)(k \<mapsto> v))"
    and size_law: "ready c n \<Longrightarrow> finite (dom (content c)) \<and> card (dom (content c)) \<le> bound c"
begin

text \<open>No access fails, no answer is stale, and the number of entries stays within the bound.\<close>

lemma run_fresh:
  assumes "ready c (length as)" and "content c \<subseteq>\<^sub>m m"
  shows "\<exists>rs c'. run_accesses put get as c = Inr (rs, c') \<and> fresh m as rs \<and> ready c' 0 \<and> card (dom (content c')) \<le> bound c"
  using assms
proof (induction as arbitrary: c m)
  case Nil
  then show ?case using size_law by (simp add: fresh_def)
next
  case (Cons a as)
  show ?case
  proof (cases a)
    case (Put k v)
    obtain c1 where c1: "put k v c = Inr c1" "ready c1 (length as)" "bound c1 = bound c"
      "\<forall>k'. content c1 k' = None \<or> content c1 k' = ((content c)(k \<mapsto> v)) k'"
      using put_law [of c "length as" k v] Cons.prems by auto
    have "content c1 \<subseteq>\<^sub>m m(k \<mapsto> v)"
      unfolding map_le_def
    proof
      fix k' assume "k' \<in> dom (content c1)"
      then have "content c1 k' = ((content c)(k \<mapsto> v)) k'" using c1(4) by (metis domIff)
      moreover have "content c k' = m k'" if "k' \<noteq> k"

      proof -
        have "k' \<in> dom (content c)" using that calculation \<open>k' \<in> dom (content c1)\<close> by (simp add: domIff)
        then show ?thesis using Cons.prems(2) by (simp add: map_le_def)
      qed
      ultimately show "content c1 k' = (m(k \<mapsto> v)) k'" by simp
    qed
    from Cons.IH [OF c1(2) this] show ?thesis using Put c1(1,3) by (auto simp: fresh_def fun_upd_def)
  next
    case (Get k)
    obtain c1 where c1: "get k c = Inr (content c k, c1)" "ready c1 (length as)" "content c1 = content c" "bound c1 = bound c"
      using get_law [of c "length as" k] Cons.prems by auto
    have hit: "content c k = None \<or> content c k = m k" using Cons.prems(2) by (metis domIff map_le_def)
    have "content c1 \<subseteq>\<^sub>m m" using Cons.prems(2) c1(3) by simp
    from Cons.IH [OF c1(2) this] show ?thesis using Get c1(1,4) hit by (auto simp: fresh_def)
  qed
qed

text \<open>A client that stores few enough keys has a map.\<close>

lemma run_exact:
  assumes "ready c (length as)" and "card (dom (content c) \<union> put_keys as) \<le> room c"
  shows "\<exists>c'. run_accesses put get as c = Inr (answers (content c) as, c')"
  using assms
proof (induction as arbitrary: c)
  case (Cons a as)
  have fin: "finite (dom (content c))" using size_law [OF Cons.prems(1)] by simp
  show ?case
  proof (cases a)
    case (Put k v)
    have sub: "insert k (dom (content c)) \<subseteq> dom (content c) \<union> put_keys (a # as)" using Put by auto
    have "finite (dom (content c) \<union> put_keys (a # as))" using fin by simp
    from card_mono [OF this sub] Cons.prems(2) have "card (insert k (dom (content c))) \<le> room c" by (rule order_trans)
    then obtain c1 where c1: "put k v c = Inr c1" "ready c1 (length as)" "room c1 = room c" "content c1 = (content c)(k \<mapsto> v)"
      using put_law [of c "length as" k v] Cons.prems(1) by auto
    have "dom (content c1) \<union> put_keys as = dom (content c) \<union> put_keys (a # as)" using Put c1(4) by auto
    then have "card (dom (content c1) \<union> put_keys as) \<le> room c1" using Cons.prems(2) c1(3) by simp
    from Cons.IH [OF c1(2) this] show ?thesis using c1(1,4) Put by (simp add: fun_upd_def)
  next
    case (Get k)
    obtain c1 where c1: "get k c = Inr (content c k, c1)" "ready c1 (length as)" "content c1 = content c" "room c1 = room c"
      using get_law [of c "length as" k] Cons.prems by auto
    from Cons.IH [OF c1(2)] show ?thesis using Get c1 Cons.prems(2) by auto
  qed
qed simp

end

section \<open>RLfuCache implements the interface\<close>

definition lfu_ready :: "('k, 'v) lfu \<Rightarrow> nat \<Rightarrow> bool" where
  "lfu_ready c n \<longleftrightarrow> lfu_ok c \<and> curTotalNum c + int n \<le> INT_MAX"

definition lfu_bound :: "('k, 'v) lfu \<Rightarrow> nat" where
  "lfu_bound c = nat (capacity c)"

lemma lfu_size:
  assumes "lfu_ok c"
  shows "finite (dom (contents c))" and "card (dom (contents c)) \<le> lfu_bound c"
proof -
  obtain L where co: "core c L" using assms by (auto simp: lfu_ok_def)
  show "finite (dom (contents c))" using dom_contents(1) [OF co] by simp
  show "card (dom (contents c)) \<le> lfu_bound c" using dom_contents(2) [OF co] assms by (auto simp: lfu_bound_def lfu_ok_def le_nat_iff)
qed

lemma contents_None:
  assumes "lfu_ok c"
  shows "contents c k = None \<longleftrightarrow> map_of (nodeMap c) k = None"
proof -
  obtain L where co: "core c L" using assms by (auto simp: lfu_ok_def)
  show ?thesis using dom_contents(1) [OF co] by (metis domIff map_of_eq_None_iff)
qed

text \<open>Every outcome of \<^verbatim>\<open>put\<close>: nothing, an overwritten or added entry, or an added one at the price of the least used.\<close>

lemma lfu_put_cases:
  assumes ok: "lfu_ok c" and t: "curTotalNum c < INT_MAX" and perm: "\<And>xs. mset (ord xs) = mset xs"
  shows "\<exists>c'. lfu_put ord k0 v0 key v c = Inr c' \<and> lfu_ok c' \<and> curTotalNum c' \<le> curTotalNum c + 1 \<and> same_settings c c' \<and>
    (if capacity c = 0 then contents c' = contents c
     else if contents c key \<noteq> None \<or> card (dom (contents c)) < lfu_bound c then contents c' = (contents c)(key \<mapsto> v)
     else \<exists>k. least_used c k \<and> contents c' = (contents c)(k := None, key \<mapsto> v))"
proof (cases "capacity c = 0")
  case True
  then show ?thesis using ok by (simp add: lfu_put_def same_settings_def)
next
  case False
  obtain L where co: "core c L" using ok by (auto simp: lfu_ok_def)
  have len: "card (dom (contents c)) < lfu_bound c \<longleftrightarrow> int (length (nodeMap c)) < capacity c"
    using dom_contents(2) [OF co] by (auto simp: lfu_bound_def)
  show ?thesis
  proof (cases "map_of (nodeMap c) key")
    case None
    then have "contents c key = None" using contents_None [OF ok] by simp
    then show ?thesis using put_new_ok [OF ok t perm False None, of k0 v0 v] False len by auto
  next
    case (Some p)
    then have "contents c key \<noteq> None" using contents_None [OF ok] by simp
    then show ?thesis using put_existing_ok [OF ok t perm False Some, of k0 v0 v] False by auto
  qed
qed

lemma lfu_put_law:
  assumes rd: "lfu_ready c (Suc n)" and perm: "\<And>xs. mset (ord xs) = mset xs"
  shows "\<exists>c'. lfu_put ord k0 v0 k v c = Inr c' \<and> lfu_ready c' n \<and> lfu_bound c' = lfu_bound c \<and>
      (0 < lfu_bound c \<longrightarrow> contents c' k = Some v) \<and> (\<forall>k'. contents c' k' = None \<or> contents c' k' = ((contents c)(k \<mapsto> v)) k') \<and>
      (card (insert k (dom (contents c))) \<le> lfu_bound c \<longrightarrow> contents c' = (contents c)(k \<mapsto> v))"
proof -
  have ok: "lfu_ok c" and t: "curTotalNum c < INT_MAX" using rd by (auto simp: lfu_ready_def)
  obtain c' where c': "lfu_put ord k0 v0 k v c = Inr c'" "lfu_ok c'" "curTotalNum c' \<le> curTotalNum c + 1" "same_settings c c'"
    "if capacity c = 0 then contents c' = contents c
     else if contents c k \<noteq> None \<or> card (dom (contents c)) < lfu_bound c then contents c' = (contents c)(k \<mapsto> v)
     else \<exists>k'. least_used c k' \<and> contents c' = (contents c)(k' := None, k \<mapsto> v)"
    using lfu_put_cases [OF ok t perm, of k0 v0 k v] by blast
  have rd': "lfu_ready c' n" "lfu_bound c' = lfu_bound c" using rd c'(2,3,4) by (auto simp: lfu_ready_def lfu_bound_def same_settings_def)
  have fin: "finite (dom (contents c))" using lfu_size [OF ok] by simp
  have cap: "capacity c = 0 \<longleftrightarrow> lfu_bound c = 0" using ok by (auto simp: lfu_bound_def lfu_ok_def)
  have empty: "contents c k' = None" if "capacity c = 0" for k'
    using that cap lfu_size [OF ok] fin by (metis card_0_eq domIff empty_iff le_zero_eq)
  have new: "card (insert k (dom (contents c))) = Suc (card (dom (contents c)))" if "contents c k = None"
    using fin that by (simp add: card_insert_if domIff)
  have big: "\<not> card (insert k (dom (contents c))) \<le> 0" using fin by simp
  consider "capacity c = 0" "contents c' = contents c" | "capacity c \<noteq> 0" "contents c' = (contents c)(k \<mapsto> v)"
    | k' where "capacity c \<noteq> 0" "contents c k = None" "\<not> card (dom (contents c)) < lfu_bound c" "contents c' = (contents c)(k' := None, k \<mapsto> v)"
    using c'(5) by (auto split: if_splits)
  then have "(0 < lfu_bound c \<longrightarrow> contents c' k = Some v) \<and> (\<forall>k'. contents c' k' = None \<or> contents c' k' = ((contents c)(k \<mapsto> v)) k') \<and>
      (card (insert k (dom (contents c))) \<le> lfu_bound c \<longrightarrow> contents c' = (contents c)(k \<mapsto> v))"
  proof cases
    case 1
    then show ?thesis using empty cap big by simp
  next
    case 2
    then show ?thesis by simp
  next
    case 3
    then show ?thesis using new by simp
  qed
  then show ?thesis using c'(1) rd' by (elim conjE) (intro exI [of _ c'] conjI; assumption)
qed

text \<open>
  The order in which an iteration visits the entries is arbitrary; the interpretation takes the order of insertion, and
  \<open>lfu_put_law\<close> covers every other.
\<close>

lemma id_perm: "mset (id xs) = mset xs"
  by simp

lemma lfu_get_law:
  assumes rd: "lfu_ready c (Suc n)" and perm: "\<And>xs. mset (ord xs) = mset xs"
  shows "\<exists>c'. lfu_get ord k0 v0 k c = Inr (contents c k, c') \<and> lfu_ready c' n \<and> contents c' = contents c \<and> lfu_bound c' = lfu_bound c"
proof -
  have "lfu_ok c" and "curTotalNum c < INT_MAX" using rd by (auto simp: lfu_ready_def)
  from lfu_get_ok [OF this perm] rd show ?thesis by (fastforce simp: lfu_ready_def lfu_bound_def same_settings_def)
qed

lemma lfu_policy:
  fixes ord :: "('k \<times> ptr) list \<Rightarrow> ('k \<times> ptr) list" and v0 :: 'v
  assumes "\<And>xs. mset (ord xs) = mset xs"
  shows "cache_policy (lfu_put ord k0 v0) (lfu_get ord k0 v0) contents lfu_ready lfu_bound lfu_bound"
proof unfold_locales
  fix c :: "('k, 'v) lfu" and n and k :: 'k
  assume "lfu_ready c (Suc n)"
  from lfu_get_law [OF this assms]
  show "\<exists>c'. lfu_get ord k0 v0 k c = Inr (contents c k, c') \<and> lfu_ready c' n \<and> contents c' = contents c \<and> lfu_bound c' = lfu_bound c \<and> lfu_bound c' = lfu_bound c"
    by blast
next
  fix c :: "('k, 'v) lfu" and n and k :: 'k and v :: 'v
  assume "lfu_ready c (Suc n)"
  from lfu_put_law [OF this assms, of k0 v0 k v]
  show "\<exists>c'. lfu_put ord k0 v0 k v c = Inr c' \<and> lfu_ready c' n \<and> lfu_bound c' = lfu_bound c \<and> lfu_bound c' = lfu_bound c \<and>
      (0 < lfu_bound c \<longrightarrow> contents c' k = Some v) \<and> (\<forall>k'. contents c' k' = None \<or> contents c' k' = ((contents c)(k \<mapsto> v)) k') \<and>
      (card (insert k (dom (contents c))) \<le> lfu_bound c \<longrightarrow> contents c' = (contents c)(k \<mapsto> v))"
    by (elim exE conjE) (intro exI conjI; assumption)
next
  fix c :: "('k, 'v) lfu" and n
  assume "lfu_ready c n"
  then show "finite (dom (contents c)) \<and> card (dom (contents c)) \<le> lfu_bound c" using lfu_size by (auto simp: lfu_ready_def)
qed

interpretation lfu: cache_policy "lfu_put id k0 v0" "lfu_get id k0 v0" contents lfu_ready lfu_bound lfu_bound for k0 v0
  by (rule lfu_policy [OF id_perm])

section \<open>RHashLfuCache\<close>

text \<open>
  \<open>hash\<close> is \<^verbatim>\<open>std::hash<Key>\<close>, and \<open>cores\<close> is what \<^verbatim>\<open>std::thread::hardware_concurrency\<close> returned. The slice size is a quotient of doubles rounded
  up, which is exact for the capacities below \<open>2 ^ 53\<close>, and is converted to \<^verbatim>\<open>int\<close>. With no slice at all the quotient is infinite and its value
  indeterminate, but no slice is made with it.
\<close>

record ('k, 'v) hash_lfu =
  hash_capacity :: nat
  sliceNum :: nat
  lfuSliceCaches :: "('k, 'v) lfu list"

definition slice_size :: "nat \<Rightarrow> nat \<Rightarrow> int" where
  "slice_size cap n = to_int32 (int ((cap + (n - 1)) div n))"

definition RHashLfuCache :: "nat \<Rightarrow> int \<Rightarrow> nat \<Rightarrow> int \<Rightarrow> ('k, 'v) heap \<Rightarrow> ('k, 'v) hash_lfu" where
  "RHashLfuCache cap slices cores maxAverage h =
     (let n = (if slices > 0 then nat slices else cores)
      in \<lparr>hash_capacity = cap, sliceNum = n, lfuSliceCaches = replicate n (RLfuCache (slice_size cap n) maxAverage h)\<rparr>)"

definition slice_index :: "('k \<Rightarrow> nat) \<Rightarrow> 'k \<Rightarrow> ('k, 'v) hash_lfu \<Rightarrow> nat result" where
  "slice_index hash key c =
     (if sliceNum c = 0 then Inl Div_by_zero
      else let i = hash key mod sliceNum c in if i < length (lfuSliceCaches c) then Inr i else Inl Out_of_bounds)"

definition hash_put ::
    "('k \<Rightarrow> nat) \<Rightarrow> (('k \<times> ptr) list \<Rightarrow> ('k \<times> ptr) list) \<Rightarrow> 'k \<Rightarrow> 'v \<Rightarrow> 'k \<Rightarrow> 'v \<Rightarrow> ('k, 'v) hash_lfu \<Rightarrow> ('k, 'v) hash_lfu result" where
  "hash_put hash ord k0 v0 key v c =
     bind_result (slice_index hash key c) (\<lambda>i.
     bind_result (lfu_put ord k0 v0 key v (lfuSliceCaches c ! i)) (\<lambda>l. Inr (c\<lparr>lfuSliceCaches := (lfuSliceCaches c)[i := l]\<rparr>)))"

definition hash_get ::
    "('k \<Rightarrow> nat) \<Rightarrow> (('k \<times> ptr) list \<Rightarrow> ('k \<times> ptr) list) \<Rightarrow> 'k \<Rightarrow> 'v \<Rightarrow> 'k \<Rightarrow> ('k, 'v) hash_lfu \<Rightarrow> ('v option \<times> ('k, 'v) hash_lfu) result" where
  "hash_get hash ord k0 v0 key c =
     bind_result (slice_index hash key c) (\<lambda>i.
     bind_result (lfu_get ord k0 v0 key (lfuSliceCaches c ! i)) (\<lambda>(r, l). Inr (r, c\<lparr>lfuSliceCaches := (lfuSliceCaches c)[i := l]\<rparr>)))"

definition hash_get_value ::
    "('k \<Rightarrow> nat) \<Rightarrow> (('k \<times> ptr) list \<Rightarrow> ('k \<times> ptr) list) \<Rightarrow> 'k \<Rightarrow> 'v \<Rightarrow> 'k \<Rightarrow> ('k, 'v) hash_lfu \<Rightarrow> ('v \<times> ('k, 'v) hash_lfu) result" where
  "hash_get_value hash ord k0 v0 key c =
     bind_result (hash_get hash ord k0 v0 key c) (\<lambda>(r, c'). Inr (case r of Some v \<Rightarrow> v | None \<Rightarrow> v0, c'))"

definition hash_purge :: "('k, 'v) hash_lfu \<Rightarrow> ('k, 'v) hash_lfu" where
  "hash_purge c = c\<lparr>lfuSliceCaches := map lfu_purge (lfuSliceCaches c)\<rparr>"

definition hash_contents :: "('k \<Rightarrow> nat) \<Rightarrow> ('k, 'v) hash_lfu \<Rightarrow> 'k \<rightharpoonup> 'v" where
  "hash_contents hash c k = contents (lfuSliceCaches c ! (hash k mod sliceNum c)) k"

definition homed :: "('k \<Rightarrow> nat) \<Rightarrow> ('k, 'v) hash_lfu \<Rightarrow> bool" where
  "homed hash c \<longleftrightarrow> (\<forall>i k. i < sliceNum c \<longrightarrow> k \<in> dom (contents (lfuSliceCaches c ! i)) \<longrightarrow> hash k mod sliceNum c = i)"

definition hash_room :: "('k, 'v) hash_lfu \<Rightarrow> nat" where
  "hash_room c = lfu_bound (hd (lfuSliceCaches c))"

definition hash_bound :: "('k, 'v) hash_lfu \<Rightarrow> nat" where
  "hash_bound c = sliceNum c * hash_room c"

definition hash_ready :: "('k \<Rightarrow> nat) \<Rightarrow> ('k, 'v) hash_lfu \<Rightarrow> nat \<Rightarrow> bool" where
  "hash_ready hash c n \<longleftrightarrow> 0 < sliceNum c \<and> length (lfuSliceCaches c) = sliceNum c \<and>
     (\<forall>l\<in>set (lfuSliceCaches c). lfu_ready l n \<and> lfu_bound l = hash_room c) \<and> homed hash c"

lemma lfu_ready_Suc: "lfu_ready l (Suc n) \<Longrightarrow> lfu_ready l n"
  by (simp add: lfu_ready_def)

lemma slice_of_key:
  assumes "hash_ready hash c n"
  shows "slice_index hash k c = Inr (hash k mod sliceNum c)" and "hash k mod sliceNum c < length (lfuSliceCaches c)"
    and "lfuSliceCaches c ! (hash k mod sliceNum c) \<in> set (lfuSliceCaches c)"
  using assms by (simp_all add: hash_ready_def slice_index_def)

text \<open>An operation on the slice of its key leaves the other slices alone.\<close>

lemma update_slice:
  fixes hash :: "'k \<Rightarrow> nat" and c :: "('k, 'v) hash_lfu"
  assumes rd: "hash_ready hash c (Suc n)" and i: "i = hash k mod sliceNum c" and l: "l = lfuSliceCaches c ! i"
    and l': "lfu_ready l' n" "lfu_bound l' = lfu_bound l" "dom (contents l') \<subseteq> insert k (dom (contents l))"
    and c': "c' = c\<lparr>lfuSliceCaches := (lfuSliceCaches c)[i := l']\<rparr>"
  shows "hash_ready hash c' n" and "hash_room c' = hash_room c" and "hash_bound c' = hash_bound c"
    and "\<And>x. hash_contents hash c' x = (if hash x mod sliceNum c = i then contents l' x else hash_contents hash c x)"
proof -
  let ?ls = "lfuSliceCaches c"
  have len: "length ?ls = sliceNum c" "0 < sliceNum c" and all: "\<forall>l\<in>set ?ls. lfu_ready l (Suc n) \<and> lfu_bound l = hash_room c" and hm: "homed hash c"
    using rd by (simp_all add: hash_ready_def)
  have il: "i < length ?ls" using i len by simp
  have room': "hash_room c' = hash_room c"

  proof -
    have ne: "?ls \<noteq> []" using il by auto
    have "lfu_bound l = hash_room c" "lfu_bound (?ls ! 0) = hash_room c" using all l il ne by (meson length_greater_0_conv nth_mem)+
    then have "lfu_bound (?ls[i := l'] ! 0) = lfu_bound (?ls ! 0)" using l'(2) ne il by (cases "i = 0") simp_all
    then show ?thesis using ne by (simp add: hash_room_def hd_conv_nth c')
  qed
  then show "hash_room c' = hash_room c" and "hash_bound c' = hash_bound c" using c' by (simp_all add: hash_bound_def)
  have "\<forall>x\<in>set ((lfuSliceCaches c)[i := l']). lfu_ready x n \<and> lfu_bound x = hash_room c"
  proof
    fix x assume "x \<in> set ((lfuSliceCaches c)[i := l'])"
    then have "x = l' \<or> x \<in> set ?ls" using set_update_subset_insert by fastforce
    then show "lfu_ready x n \<and> lfu_bound x = hash_room c"
    proof
      assume "x = l'"
      then show ?thesis using all l' l il by simp
    next
      assume "x \<in> set ?ls"
      then show ?thesis using all lfu_ready_Suc [of x n] by blast
    qed
  qed
  moreover have "homed hash c'"
    unfolding homed_def
  proof (intro allI impI)
    fix j x assume j: "j < sliceNum c'" and x: "x \<in> dom (contents (lfuSliceCaches c' ! j))"
    show "hash x mod sliceNum c' = j"
    proof (cases "j = i")
      case True
      then have "x = k \<or> x \<in> dom (contents l)" using x c' il l'(3) by auto
      then show ?thesis
      proof
        assume "x \<in> dom (contents l)"
        moreover have "i < sliceNum c" using il len by simp
        ultimately have "hash x mod sliceNum c = i" using hm l unfolding homed_def by blast
        then show ?thesis using True c' by simp
      qed (use True i c' in simp)
    next
      case False
      then show ?thesis using x j c' hm unfolding homed_def by auto
    qed
  qed
  ultimately show "hash_ready hash c' n" using c' len room' by (simp add: hash_ready_def)
  show "hash_contents hash c' x = (if hash x mod sliceNum c = i then contents l' x else hash_contents hash c x)" for x
    using c' il by (simp add: hash_contents_def)
qed

lemma hash_dom:
  assumes "hash_ready hash c n"
  shows "finite (dom (hash_contents hash c))" and "card (dom (hash_contents hash c)) \<le> hash_bound c"
    and "\<And>k. dom (contents (lfuSliceCaches c ! (hash k mod sliceNum c))) \<subseteq> dom (hash_contents hash c)"
proof -
  let ?ls = "lfuSliceCaches c" and ?N = "sliceNum c"
  have N: "0 < ?N" "length ?ls = ?N" and all: "\<forall>l\<in>set ?ls. lfu_ready l n \<and> lfu_bound l = hash_room c" and hm: "homed hash c"
    using assms by (simp_all add: hash_ready_def)
  have sz: "finite (dom (contents (?ls ! i)))" "card (dom (contents (?ls ! i))) \<le> hash_room c" if "i < ?N" for i
  proof -
    have "lfu_ready (?ls ! i) n" "lfu_bound (?ls ! i) = hash_room c" using all that N by simp_all
    then show "finite (dom (contents (?ls ! i)))" "card (dom (contents (?ls ! i))) \<le> hash_room c"
      using lfu_size [of "?ls ! i"] by (simp_all add: lfu_ready_def)
  qed
  have sub: "dom (hash_contents hash c) \<subseteq> (\<Union>i<?N. dom (contents (?ls ! i)))"
  proof
    fix k assume "k \<in> dom (hash_contents hash c)"
    then have "k \<in> dom (contents (?ls ! (hash k mod ?N)))" by (simp add: hash_contents_def domIff)
    then show "k \<in> (\<Union>i<?N. dom (contents (?ls ! i)))" using N(1) by auto
  qed
  have fin: "finite (\<Union>i<?N. dom (contents (?ls ! i)))" using sz(1) by simp
  show "finite (dom (hash_contents hash c))" using finite_subset [OF sub fin] .
  have "card (dom (hash_contents hash c)) \<le> card (\<Union>i<?N. dom (contents (?ls ! i)))" using card_mono [OF fin sub] .
  also have "\<dots> \<le> (\<Sum>i<?N. card (dom (contents (?ls ! i))))" by (rule card_UN_le) simp
  also have "\<dots> \<le> (\<Sum>i<?N. hash_room c)" using sz(2) by (intro sum_mono) simp
  finally show "card (dom (hash_contents hash c)) \<le> hash_bound c" by (simp add: hash_bound_def)
  show "dom (contents (?ls ! (hash k mod ?N))) \<subseteq> dom (hash_contents hash c)" for k
  proof
    fix x assume x: "x \<in> dom (contents (?ls ! (hash k mod ?N)))"
    moreover have "hash k mod ?N < ?N" using N(1) by simp
    ultimately have "hash x mod ?N = hash k mod ?N" using hm unfolding homed_def by blast
    then show "x \<in> dom (hash_contents hash c)" using x by (simp add: hash_contents_def domIff)
  qed
qed

lemma hash_get_law:
  assumes rd: "hash_ready hash c (Suc n)" and perm: "\<And>xs. mset (ord xs) = mset xs"
  shows "\<exists>c'. hash_get hash ord k0 v0 k c = Inr (hash_contents hash c k, c') \<and> hash_ready hash c' n \<and> hash_contents hash c' = hash_contents hash c \<and>
    hash_bound c' = hash_bound c \<and> hash_room c' = hash_room c"
proof -
  let ?i = "hash k mod sliceNum c"
  let ?l = "lfuSliceCaches c ! ?i"
  have rl: "lfu_ready ?l (Suc n)" using rd slice_of_key(3) [OF rd] by (simp add: hash_ready_def)
  obtain l' where l': "lfu_get ord k0 v0 k ?l = Inr (contents ?l k, l')" "lfu_ready l' n" "contents l' = contents ?l" "lfu_bound l' = lfu_bound ?l"
    using lfu_get_law [OF rl perm, of k0 v0 k] by (elim exE conjE) (rule that; assumption)
  have sub: "dom (contents l') \<subseteq> insert k (dom (contents ?l))" using l'(3) by auto
  let ?c' = "c\<lparr>lfuSliceCaches := (lfuSliceCaches c)[?i := l']\<rparr>"
  note u = update_slice [OF rd refl refl l'(2,4) sub refl]
  have "hash_contents hash ?c' x = hash_contents hash c x" for x
    using u(4) [of x] l'(3) by (simp add: hash_contents_def)
  then have "hash_contents hash ?c' = hash_contents hash c" by (rule ext)
  moreover have "hash_get hash ord k0 v0 k c = Inr (hash_contents hash c k, ?c')"
    using slice_of_key(1) [OF rd, of k] l'(1) by (simp add: hash_get_def hash_contents_def)
  ultimately show ?thesis using u(1,2,3) by blast
qed

lemma hash_put_law:
  assumes rd: "hash_ready hash c (Suc n)" and perm: "\<And>xs. mset (ord xs) = mset xs"
  shows "\<exists>c'. hash_put hash ord k0 v0 k v c = Inr c' \<and> hash_ready hash c' n \<and> hash_bound c' = hash_bound c \<and> hash_room c' = hash_room c \<and>
      (0 < hash_room c \<longrightarrow> hash_contents hash c' k = Some v) \<and>
      (\<forall>k'. hash_contents hash c' k' = None \<or> hash_contents hash c' k' = ((hash_contents hash c)(k \<mapsto> v)) k') \<and>
      (card (insert k (dom (hash_contents hash c))) \<le> hash_room c \<longrightarrow> hash_contents hash c' = (hash_contents hash c)(k \<mapsto> v))"
proof -
  let ?i = "hash k mod sliceNum c" and ?H = "hash_contents hash c"
  let ?l = "lfuSliceCaches c ! ?i"
  have rl: "lfu_ready ?l (Suc n)" "lfu_bound ?l = hash_room c" using rd slice_of_key(3) [OF rd] by (simp_all add: hash_ready_def)
  obtain l' where l': "lfu_put ord k0 v0 k v ?l = Inr l'" "lfu_ready l' n" "lfu_bound l' = lfu_bound ?l" "0 < lfu_bound ?l \<longrightarrow> contents l' k = Some v"
    "\<forall>k'. contents l' k' = None \<or> contents l' k' = ((contents ?l)(k \<mapsto> v)) k'"
    "card (insert k (dom (contents ?l))) \<le> lfu_bound ?l \<longrightarrow> contents l' = (contents ?l)(k \<mapsto> v)"
    using lfu_put_law [OF rl(1) perm, of k0 v0 k v] by (elim exE conjE) (rule that; assumption)
  have sub: "dom (contents l') \<subseteq> insert k (dom (contents ?l))"
  proof
    fix x assume "x \<in> dom (contents l')"
    then have "contents l' x = ((contents ?l)(k \<mapsto> v)) x" "contents l' x \<noteq> None" using l'(5) by (metis domIff)+
    then show "x \<in> insert k (dom (contents ?l))" by (auto split: if_splits)
  qed
  define c' where "c' = c\<lparr>lfuSliceCaches := (lfuSliceCaches c)[?i := l']\<rparr>"
  note u = update_slice [OF rd refl refl l'(2,3) sub c'_def]
  have put: "hash_put hash ord k0 v0 k v c = Inr c'" using slice_of_key(1) [OF rd, of k] l'(1) by (simp add: hash_put_def c'_def)
  have hit: "0 < hash_room c \<Longrightarrow> hash_contents hash c' k = Some v" using u(4) [of k] l'(4) rl(2) by simp
  have old: "\<forall>k'. hash_contents hash c' k' = None \<or> hash_contents hash c' k' = (?H(k \<mapsto> v)) k'"
  proof
    fix k'
    show "hash_contents hash c' k' = None \<or> hash_contents hash c' k' = (?H(k \<mapsto> v)) k'"
    proof (cases "hash k' mod sliceNum c = ?i")
      case True
      then have "hash_contents hash c' k' = contents l' k'" "((contents ?l)(k \<mapsto> v)) k' = (?H(k \<mapsto> v)) k'"
        using u(4) [of k'] by (simp_all add: hash_contents_def)
      then show ?thesis using l'(5) by metis
    next
      case False
      then have "k' \<noteq> k" by auto
      then show ?thesis using False u(4) [of k'] by simp
    qed
  qed
  have exact: "hash_contents hash c' = ?H(k \<mapsto> v)" if small: "card (insert k (dom ?H)) \<le> hash_room c"
  proof
    fix x
    have "card (insert k (dom (contents ?l))) \<le> card (insert k (dom ?H))"
      using hash_dom(1,3) [OF rd] by (intro card_mono) auto
    then have eq: "contents l' = (contents ?l)(k \<mapsto> v)" using l'(6) small rl(2) by simp
    show "hash_contents hash c' x = (?H(k \<mapsto> v)) x"
    proof (cases "hash x mod sliceNum c = ?i")
      case True
      then show ?thesis using u(4) [of x] eq by (simp add: hash_contents_def)
    next
      case False
      then have "x \<noteq> k" by auto
      then show ?thesis using False u(4) [of x] by simp
    qed
  qed
  show ?thesis using put u(1,2,3) old by (intro exI [of _ c'] conjI impI hit exact)
qed

lemma hash_policy:
  fixes ord :: "('k \<times> ptr) list \<Rightarrow> ('k \<times> ptr) list" and v0 :: 'v and hash :: "'k \<Rightarrow> nat"
  assumes "\<And>xs. mset (ord xs) = mset xs"
  shows "cache_policy (hash_put hash ord k0 v0) (hash_get hash ord k0 v0) (hash_contents hash) (hash_ready hash) hash_bound hash_room"
proof unfold_locales
  fix c :: "('k, 'v) hash_lfu" and n and k :: 'k
  assume "hash_ready hash c (Suc n)"
  from hash_get_law [OF this assms]
  show "\<exists>c'. hash_get hash ord k0 v0 k c = Inr (hash_contents hash c k, c') \<and> hash_ready hash c' n \<and> hash_contents hash c' = hash_contents hash c \<and>
    hash_bound c' = hash_bound c \<and> hash_room c' = hash_room c" .
next
  fix c :: "('k, 'v) hash_lfu" and n and k :: 'k and v :: 'v
  assume "hash_ready hash c (Suc n)"
  from hash_put_law [OF this assms, of k0 v0 k v]
  show "\<exists>c'. hash_put hash ord k0 v0 k v c = Inr c' \<and> hash_ready hash c' n \<and> hash_bound c' = hash_bound c \<and> hash_room c' = hash_room c \<and>
      (0 < hash_room c \<longrightarrow> hash_contents hash c' k = Some v) \<and>
      (\<forall>k'. hash_contents hash c' k' = None \<or> hash_contents hash c' k' = ((hash_contents hash c)(k \<mapsto> v)) k') \<and>
      (card (insert k (dom (hash_contents hash c))) \<le> hash_room c \<longrightarrow> hash_contents hash c' = (hash_contents hash c)(k \<mapsto> v))" .
next
  fix c :: "('k, 'v) hash_lfu" and n
  assume "hash_ready hash c n"
  then show "finite (dom (hash_contents hash c)) \<and> card (dom (hash_contents hash c)) \<le> hash_bound c" using hash_dom(1,2) by blast
qed

interpretation sharded: cache_policy "hash_put hash id k0 v0" "hash_get hash id k0 v0" "hash_contents hash" "hash_ready hash" hash_bound hash_room
  for hash k0 v0
  by (rule hash_policy [OF id_perm])

text \<open>
  The accesses of the keys that a slice is responsible for, and the answers among \<open>rs\<close> that they got.
\<close>

definition routed :: "('k \<Rightarrow> nat) \<Rightarrow> nat \<Rightarrow> nat \<Rightarrow> ('k, 'v) access list \<Rightarrow> ('k, 'v) access list" where
  "routed hash n i as = filter (\<lambda>a. hash (access_key a) mod n = i) as"

definition routed_answers :: "('k \<Rightarrow> nat) \<Rightarrow> nat \<Rightarrow> nat \<Rightarrow> ('k, 'v) access list \<Rightarrow> 'v option list \<Rightarrow> 'v option list" where
  "routed_answers hash n i as rs = map snd (filter (\<lambda>(k, r). hash k mod n = i) (zip (get_keys as) rs))"

lemma slices_run:
  fixes hash :: "'k \<Rightarrow> nat" and c :: "('k, 'v) hash_lfu"
  assumes "sliceNum c = n" and "length (lfuSliceCaches c) = n" and "i < n"
    and "run_accesses (hash_put hash ord k0 v0) (hash_get hash ord k0 v0) as c = Inr (rs, c')"
  shows "run_accesses (lfu_put ord k0 v0) (lfu_get ord k0 v0) (routed hash n i as) (lfuSliceCaches c ! i) =
    Inr (routed_answers hash n i as rs, lfuSliceCaches c' ! i)"
  using assms
proof (induction as arbitrary: c rs)
  case (Cons a as)
  let ?run = "run_accesses (hash_put hash ord k0 v0) (hash_get hash ord k0 v0)"
  let ?j = "hash (access_key a) mod n"
  let ?c = "\<lambda>l. c\<lparr>lfuSliceCaches := (lfuSliceCaches c)[?j := l]\<rparr>"
  have j: "?j < n" using Cons.prems(3) by simp
  have at: "lfuSliceCaches (?c l) ! i = (if ?j = i then l else lfuSliceCaches c ! i)" for l using j Cons.prems(2,3) by simp
  have idx: "slice_index hash (access_key a) c = Inr ?j" using j Cons.prems(1,2) by (simp add: slice_index_def)
  show ?case
  proof (cases a)
    case (Put k v)
    have "hash_put hash ord k0 v0 k v c = bind_result (lfu_put ord k0 v0 k v (lfuSliceCaches c ! ?j)) (\<lambda>l. Inr (?c l))"
      using idx Put by (simp add: hash_put_def)
    then obtain l where l: "lfu_put ord k0 v0 k v (lfuSliceCaches c ! ?j) = Inr l" and rest: "?run as (?c l) = Inr (rs, c')"
      using Cons.prems(4) Put by auto
    from Cons.IH [of "?c l"] rest Cons.prems(1-3) at [of l] l Put show ?thesis
      by (auto simp: routed_def routed_answers_def)
  next
    case (Get k)
    have "hash_get hash ord k0 v0 k c = bind_result (lfu_get ord k0 v0 k (lfuSliceCaches c ! ?j)) (\<lambda>(r, l). Inr (r, ?c l))"
      using idx Get by (simp add: hash_get_def)
    then obtain r l rs' where l: "lfu_get ord k0 v0 k (lfuSliceCaches c ! ?j) = Inr (r, l)" and rest: "?run as (?c l) = Inr (rs', c')" "rs = r # rs'"
      using Cons.prems(4) Get by auto
    from Cons.IH [of "?c l"] rest Cons.prems(1-3) at [of l] l Get show ?thesis
      by (auto simp: routed_def routed_answers_def)
  qed
qed (simp add: routed_def routed_answers_def)

text \<open>Without a slice every access divides by zero.\<close>

lemma no_slices:
  assumes "sliceNum c = 0" and "as \<noteq> []"
  shows "run_accesses (hash_put hash ord k0 v0) (hash_get hash ord k0 v0) as c = Inl Div_by_zero"
proof (cases as)
  case (Cons a as')
  then show ?thesis using assms(1) by (cases a) (simp_all add: hash_put_def hash_get_def slice_index_def)
qed (use assms in simp)

lemma slice_size_eq:
  assumes "0 < n" and "int cap \<le> INT_MAX"
  shows "slice_size cap n = int ((cap + (n - 1)) div n)" and "0 \<le> slice_size cap n" and "slice_size cap n \<le> INT_MAX"
proof -
  have "(cap + (n - 1)) div n \<le> cap"
  proof (cases "cap = 0")
    case False
    then have "1 * (n - 1) \<le> cap * (n - 1)" by (intro mult_right_mono) simp_all
    then have "cap + (n - 1) \<le> cap * n" using assms(1) by (cases n) simp_all
    then have "(cap + (n - 1)) div n \<le> cap * n div n" by (rule div_le_mono)
    then show ?thesis using assms(1) by simp
  qed (use assms in simp)
  then have q: "int ((cap + (n - 1)) div n) \<le> INT_MAX" using assms(2) by linarith
  have "to_int32 x = x" if "0 \<le> x" "x \<le> INT_MAX" for x
  proof -
    have "(x + 2 ^ 31) mod 2 ^ 32 = x + 2 ^ 31" using that by (simp add: INT_MAX_def)
    then show ?thesis by (simp add: to_int32_def)
  qed
  then show eq: "slice_size cap n = int ((cap + (n - 1)) div n)" using q by (simp add: slice_size_def)
  then show "0 \<le> slice_size cap n" "slice_size cap n \<le> INT_MAX" using q by simp_all
qed

lemma new_hash_ok:
  assumes "heap_ok h" and n: "n = (if slices > 0 then nat slices else cores)" "0 < n" and "int cap \<le> INT_MAX" and "2 \<le> M" and "M \<le> 250"
    and "int m \<le> INT_MAX"
  shows "hash_ready hash (RHashLfuCache cap slices cores M h) m" and "hash_contents hash (RHashLfuCache cap slices cores M h) = Map.empty"
    and "hash_room (RHashLfuCache cap slices cores M h) = (cap + (n - 1)) div n"
    and "RHashLfuCache cap slices cores M h =
      \<lparr>hash_capacity = cap, sliceNum = n, lfuSliceCaches = replicate n (RLfuCache (int ((cap + (n - 1)) div n)) M h)\<rparr>"
proof -
  note sz = slice_size_eq [OF n(2) assms(4)]
  note new = new_cache_ok [OF assms(1) sz(2,3) assms(5,6)]
  have c: "RHashLfuCache cap slices cores M h = \<lparr>hash_capacity = cap, sliceNum = n, lfuSliceCaches = replicate n (RLfuCache (slice_size cap n) M h)\<rparr>"
    by (simp add: RHashLfuCache_def n(1) Let_def)
  have "lfu_ready (RLfuCache (slice_size cap n) M h) m" using new assms(7) by (simp add: lfu_ready_def RLfuCache_def)
  then show "hash_ready hash (RHashLfuCache cap slices cores M h) m" using n(2) new(2) by (simp add: hash_ready_def c hash_room_def homed_def)
  show "hash_contents hash (RHashLfuCache cap slices cores M h) = Map.empty" using n(2) new(2) by (simp add: hash_contents_def c fun_eq_iff)
  show "hash_room (RHashLfuCache cap slices cores M h) = (cap + (n - 1)) div n"
    using n(2) sz(1) by (simp add: hash_room_def c lfu_bound_def RLfuCache_def)
  show "RHashLfuCache cap slices cores M h =
      \<lparr>hash_capacity = cap, sliceNum = n, lfuSliceCaches = replicate n (RLfuCache (int ((cap + (n - 1)) div n)) M h)\<rparr>"
    by (simp add: c sz(1))
qed

section \<open>What the caches guarantee\<close>

definition empty_heap :: "('k, 'v) heap" where
  "empty_heap = \<lparr>cells = Map.empty, brk = 0\<rparr>"

lemma empty_heap_ok: "heap_ok empty_heap"
  by (simp add: heap_ok_def empty_heap_def)

lemma new_lfu_ready:
  assumes "0 \<le> cap" and "cap \<le> INT_MAX" and "2 \<le> M" and "M \<le> 250" and "int n \<le> INT_MAX"
  shows "lfu_ready (RLfuCache cap M empty_heap) n"
  using new_cache_ok [OF empty_heap_ok assms(1-4)] assms(5) by (simp add: lfu_ready_def RLfuCache_def)

text \<open>
  C21: Whatever is stored and fetched, in whatever order an iteration visits the entries, no operation of a new \<^verbatim>\<open>RLfuCache\<close> fails, every
  \<^verbatim>\<open>get\<close> answers with the value stored last under its key or with a miss, and the cache never holds more entries than its capacity.
\<close>

theorem lfu_never_stale:
  fixes k0 :: 'k and v0 :: 'v
  assumes "0 \<le> cap" and "cap \<le> INT_MAX" and "2 \<le> M" and "M \<le> 250" and "int (length as) \<le> INT_MAX" and "\<And>xs. mset (ord xs) = mset xs"
  shows "\<exists>rs c. run_accesses (lfu_put ord k0 v0) (lfu_get ord k0 v0) as (RLfuCache cap M empty_heap) = Inr (rs, c) \<and>
    fresh Map.empty as rs \<and> card (dom (contents c)) \<le> nat cap"
proof -
  let ?c = "RLfuCache cap M empty_heap :: ('k, 'v) lfu"
  have "contents ?c \<subseteq>\<^sub>m Map.empty" by (simp add: new_cache_ok(2) [OF empty_heap_ok assms(1-4)])
  from cache_policy.run_fresh [OF lfu_policy [OF assms(6), of k0 v0] new_lfu_ready [OF assms(1-5)] this]
  show ?thesis by (auto simp: lfu_bound_def RLfuCache_def)
qed

theorem lfu_never_stale_witness:
  "\<exists>rs c. run_accesses (lfu_put rev 0 0) (lfu_get rev 0 0) [Put (3::nat) (5::nat), Put 4 6, Get 3] (RLfuCache 1 10 empty_heap) = Inr (rs, c) \<and>
    fresh Map.empty [Put (3::nat) (5::nat), Put 4 6, Get 3] rs \<and> card (dom (contents c)) \<le> nat 1"
  using lfu_never_stale [of 1 10 "[Put (3::nat) (5::nat), Put 4 6, Get 3]" rev 0 0] by (simp add: INT_MAX_def)

text \<open>
  C27: When a new key arrives at a full cache, the entry that leaves is one that has been used least, every other entry keeps its value,
  and the new one is stored.
\<close>

theorem lfu_evicts_least_used:
  assumes "lfu_ok c" and "curTotalNum c < INT_MAX" and "\<And>xs. mset (ord xs) = mset xs" and "capacity c \<noteq> 0"
    and "int (length (nodeMap c)) = capacity c" and "map_of (nodeMap c) key = None"
  shows "\<exists>c' k. lfu_put ord k0 v0 key v c = Inr c' \<and> lfu_ok c' \<and> least_used c k \<and> contents c' = (contents c)(k := None, key \<mapsto> v)"
  using put_new_ok [OF assms(1-4,6), of k0 v0 v] assms(5) by auto

lemma cache_of_one:
  "\<exists>c. lfu_put id 0 0 (3::nat) (10::nat) (RLfuCache 1 10 empty_heap) = Inr c \<and> lfu_ok c \<and> contents c = [3 \<mapsto> 10] \<and>
     curTotalNum c \<le> 1 \<and> capacity c = 1 \<and> length (nodeMap c) = 1"
proof -
  let ?c = "RLfuCache 1 10 empty_heap :: (nat, nat) lfu"
  have ok: "lfu_ok ?c" "contents ?c = Map.empty" using new_cache_ok [OF empty_heap_ok, of 1 10] by (simp_all add: INT_MAX_def)
  obtain c where c: "lfu_put id 0 0 3 10 ?c = Inr c" "lfu_ok c" "curTotalNum c \<le> curTotalNum ?c + 1" "same_settings ?c c" "contents c = [3 \<mapsto> 10]"
  proof -
    have p: "curTotalNum ?c < INT_MAX" "capacity ?c \<noteq> 0" "map_of (nodeMap ?c) 3 = None" "int (length (nodeMap ?c)) < capacity ?c"
      by (simp_all add: RLfuCache_def INT_MAX_def)
    from put_new_ok [where ord = id, OF ok(1) p(1) id_perm p(2,3), of 0 0 10] p(4) ok(2) show ?thesis using that by auto
  qed
  obtain L where co: "core c L" using c(2) by (auto simp: lfu_ok_def)
  have "length (nodeMap c) = 1" using dom_contents(2) [OF co] c(5) by simp
  then show ?thesis using c by (simp add: same_settings_def RLfuCache_def)
qed

theorem lfu_evicts_least_used_witness:
  "\<exists>c c'. lfu_put id 0 0 (3::nat) (10::nat) (RLfuCache 1 10 empty_heap) = Inr c \<and> lfu_put id 0 0 4 20 c = Inr c' \<and> contents c' = [4 \<mapsto> 20]"
proof -
  obtain c where c: "lfu_put id 0 0 (3::nat) (10::nat) (RLfuCache 1 10 empty_heap) = Inr c" "lfu_ok c" "contents c = [3 \<mapsto> 10]"
    "curTotalNum c \<le> 1" "capacity c = 1" "length (nodeMap c) = 1"
    using cache_of_one by blast
  have new: "map_of (nodeMap c) 4 = None" using contents_None [OF c(2), of 4] c(3) by simp
  obtain c' k where e: "lfu_put id 0 0 4 20 c = Inr c'" "least_used c k" "contents c' = (contents c)(k := None, 4 \<mapsto> 20)"
    using lfu_evicts_least_used [where ord = id, OF c(2) _ id_perm _ _ new, of 0 0 20] c(4,5,6) by (auto simp: INT_MAX_def)
  have "contents c k \<noteq> None" using e(2) contents_None [OF c(2), of k] by (auto simp: least_used_def)
  then have "k = 3" using c(3) by (auto split: if_splits)
  then have "contents c' = [4 \<mapsto> 20]" using e(3) c(3) by (auto simp: fun_eq_iff)
  then show ?thesis using c(1) e(1) by blast
qed

text \<open>
  A hit returns the stored value, raises the frequency of that entry by one and of no other, and either leaves it at that or ages all
  entries by the same rule; no entry changes its value.
\<close>

theorem lfu_hit_counts:
  assumes "lfu_ok c" and "curTotalNum c < INT_MAX" and "\<And>xs. mset (ord xs) = mset xs" and "map_of (nodeMap c) key = Some p"
  shows "\<exists>c'. lfu_get ord k0 v0 key c = Inr (contents c key, c') \<and> contents c key \<noteq> None \<and> lfu_ok c' \<and> contents c' = contents c \<and>
    curTotalNum c' = curTotalNum c + 1 \<and> maybe_aged (maxAverageNum c) (nodes c) (bumped (freq_at (mem c)) p) (freq_at (mem c'))"
proof -
  obtain L where co: "core c L" using assms(1) by (auto simp: lfu_ok_def)
  obtain f v where p: "p \<in> nodes c" "payload (mem c) p = Some (f, key, v)" "contents c key = Some v" using lookup_node [OF co assms(4)] by blast
  from getInternal_ok [OF assms(1) p(1,2) assms(2,3), of k0 v0] show ?thesis using assms(4) p(3) by (auto simp: lfu_get_def)
qed

theorem lfu_hit_counts_witness:
  "\<exists>c c'. lfu_put id 0 0 (3::nat) (10::nat) (RLfuCache 1 10 empty_heap) = Inr c \<and> lfu_get id 0 0 3 c = Inr (Some 10, c') \<and> contents c' = [3 \<mapsto> 10]"
proof -
  obtain c where c: "lfu_put id 0 0 (3::nat) (10::nat) (RLfuCache 1 10 empty_heap) = Inr c" "lfu_ok c" "contents c = [3 \<mapsto> 10]" "curTotalNum c \<le> 1"
    using cache_of_one by blast
  obtain p where p: "map_of (nodeMap c) 3 = Some p" using contents_None [OF c(2), of 3] c(3) by auto
  show ?thesis using lfu_hit_counts [where ord = id, OF c(2) _ id_perm p, of 0 0] c by (auto simp: INT_MAX_def)
qed

text \<open>
  C29: A client that never stores more different keys than the capacity has an exact map: every \<^verbatim>\<open>get\<close> returns the value stored last.
\<close>

theorem lfu_is_a_map:
  fixes k0 :: 'k and v0 :: 'v
  assumes "2 \<le> M" and "M \<le> 250" and "int (length as) \<le> INT_MAX" and "card (put_keys as) \<le> nat cap" and "0 \<le> cap" and "cap \<le> INT_MAX"
  shows "\<exists>c. run_accesses (lfu_put id k0 v0) (lfu_get id k0 v0) as (RLfuCache cap M empty_heap) = Inr (answers Map.empty as, c)"
proof -
  let ?c = "RLfuCache cap M empty_heap :: ('k, 'v) lfu"
  have e: "contents ?c = Map.empty" using new_cache_ok(2) [OF empty_heap_ok assms(5,6,1,2)] .
  have "card (dom (contents ?c) \<union> put_keys as) \<le> lfu_bound ?c" using assms(4) e by (simp add: lfu_bound_def RLfuCache_def)
  from lfu.run_exact [OF new_lfu_ready [OF assms(5,6,1,2,3)] this, of k0 v0] e show ?thesis by simp
qed

theorem lfu_is_a_map_witness:
  "\<exists>c. run_accesses (lfu_put id 0 0) (lfu_get id 0 0) [Put (3::nat) (5::nat), Put 4 6, Put 3 7, Get 3, Get 4, Get 5] (RLfuCache 2 10 empty_heap) =
     Inr ([Some 7, Some 6, None], c)"
  using lfu_is_a_map [of 10 "[Put (3::nat) (5::nat), Put 4 6, Put 3 7, Get 3, Get 4, Get 5]" 2 0 0] by (simp add: INT_MAX_def card_insert_if)

text \<open>
  C32: The sharded cache is its slices side by side, for every order of iteration and every number of slices, given or taken from the number of
  cores. With no slice (neither is positive) every access divides by zero. Otherwise no access fails, and each slice does with the accesses
  of the keys whose hash leads to it, and with no others, exactly what a \<^verbatim>\<open>RLfuCache\<close> of the rounded-up share of the capacity does, from which the client gets
  its answers; no answer is stale, at most \<open>sliceNum\<close> times the share is held, and a client that stores no more different keys than one share
  gets from every \<^verbatim>\<open>get\<close> the value stored last.
\<close>

theorem sharded_never_stale:
  fixes k0 :: 'k and v0 :: 'v and hash :: "'k \<Rightarrow> nat"
  assumes "n = (if slices > 0 then nat slices else cores)" and "share = (cap + (n - 1)) div n" and "int cap \<le> INT_MAX" and "2 \<le> M" and "M \<le> 250"
    and "int (length as) \<le> INT_MAX" and "\<And>xs. mset (ord xs) = mset xs"
  shows "if n = 0
    then as \<noteq> [] \<longrightarrow> run_accesses (hash_put hash ord k0 v0) (hash_get hash ord k0 v0) as (RHashLfuCache cap slices cores M empty_heap) = Inl Div_by_zero
    else \<exists>rs c. run_accesses (hash_put hash ord k0 v0) (hash_get hash ord k0 v0) as (RHashLfuCache cap slices cores M empty_heap) = Inr (rs, c) \<and>
      (\<forall>i<n. run_accesses (lfu_put ord k0 v0) (lfu_get ord k0 v0) (routed hash n i as) (RLfuCache (int share) M empty_heap) =
        Inr (routed_answers hash n i as rs, lfuSliceCaches c ! i)) \<and>
      fresh Map.empty as rs \<and> card (dom (hash_contents hash c)) \<le> n * share \<and>
      (card (put_keys as) \<le> share \<longrightarrow> rs = answers Map.empty as)"
proof (cases "n = 0")
  case True
  then have "sliceNum (RHashLfuCache cap slices cores M empty_heap :: ('k, 'v) hash_lfu) = 0" using assms(1) by (simp add: RHashLfuCache_def Let_def)
  from no_slices [OF this] True show ?thesis by simp
next
  case False
  let ?c = "RHashLfuCache cap slices cores M empty_heap :: ('k, 'v) hash_lfu"
  let ?run = "run_accesses (hash_put hash ord k0 v0) (hash_get hash ord k0 v0)"
  have n: "0 < n" using False by simp
  note new = new_hash_ok(1,2) [where hash = hash, OF empty_heap_ok assms(1) n assms(3-6)]
  have c: "?c = \<lparr>hash_capacity = cap, sliceNum = n, lfuSliceCaches = replicate n (RLfuCache (int share) M empty_heap)\<rparr>" and "hash_room ?c = share"
    using new_hash_ok(3,4) [OF empty_heap_ok assms(1) n assms(3-6)] assms(2) by metis+
  then have bound: "hash_bound ?c = n * share" "hash_room ?c = share" by (simp_all add: hash_bound_def)
  have "hash_contents hash ?c \<subseteq>\<^sub>m Map.empty" by (simp add: new(2))
  from cache_policy.run_fresh [OF hash_policy [OF assms(7), of hash k0 v0] new(1) this] bound(1) obtain rs c where
    run: "?run as ?c = Inr (rs, c)" "fresh Map.empty as rs" "card (dom (hash_contents hash c)) \<le> n * share" by auto
  have "rs = answers Map.empty as" if small: "card (put_keys as) \<le> share"
  proof -
    have "card (dom (hash_contents hash ?c) \<union> put_keys as) \<le> hash_room ?c" using small bound(2) by (simp add: new(2))
    from cache_policy.run_exact [OF hash_policy [OF assms(7), of hash k0 v0] new(1) this] run(1) show ?thesis by (simp add: new(2))
  qed
  moreover have "run_accesses (lfu_put ord k0 v0) (lfu_get ord k0 v0) (routed hash n i as) (RLfuCache (int share) M empty_heap) =
        Inr (routed_answers hash n i as rs, lfuSliceCaches c ! i)" if "i < n" for i
  proof -
    have "lfuSliceCaches ?c ! i = RLfuCache (int share) M empty_heap" "sliceNum ?c = n" "length (lfuSliceCaches ?c) = n"
      using that by (simp_all add: c)
    with slices_run [OF _ _ that run(1)] show ?thesis by simp
  qed
  ultimately show ?thesis using run False by simp
qed

theorem sharded_never_stale_witness:
  "\<exists>c. run_accesses (hash_put id rev 0 0) (hash_get id rev 0 0) [Put (3::nat) (5::nat), Put 4 6, Get 3] (RHashLfuCache 5 0 2 10 empty_heap) = Inr ([Some 5], c) \<and>
    run_accesses (lfu_put rev 0 0) (lfu_get rev 0 0) [Put 3 5, Get 3] (RLfuCache 3 10 empty_heap) = Inr ([Some 5], lfuSliceCaches c ! 1)"
proof -
  let ?as = "[Put (3::nat) (5::nat), Put 4 6, Get 3]"
  obtain rs c where c: "run_accesses (hash_put id rev 0 0) (hash_get id rev 0 0) ?as (RHashLfuCache 5 0 2 10 empty_heap) = Inr (rs, c)"
    "\<forall>i<2. run_accesses (lfu_put rev 0 0) (lfu_get rev 0 0) (routed id 2 i ?as) (RLfuCache (int 3) 10 empty_heap) =
       Inr (routed_answers id 2 i ?as rs, lfuSliceCaches c ! i)" "card (put_keys ?as) \<le> 3 \<longrightarrow> rs = answers Map.empty ?as"
    using sharded_never_stale [where n = 2 and slices = 0 and cores = 2 and share = 3 and cap = 5 and M = 10 and as = ?as and ord = rev and hash = id and ?k0.0 = 0 and ?v0.0 = 0]
    by (auto simp: INT_MAX_def)
  have rs: "rs = [Some 5]" using c(3) by (simp add: card_insert_if)
  have "run_accesses (lfu_put rev 0 0) (lfu_get rev 0 0) (routed id 2 1 ?as) (RLfuCache (int 3) 10 empty_heap) =
       Inr (routed_answers id 2 1 ?as rs, lfuSliceCaches c ! 1)" using c(2) by simp
  then show ?thesis using c(1) by (simp add: rs routed_def routed_answers_def)
qed

text \<open>
  The access counter is never reset. When it has reached \<^verbatim>\<open>INT_MAX\<close>, the next hit overflows a signed integer.
\<close>

theorem lfu_counter_overflows:
  assumes "lfu_ok c" and "curTotalNum c = INT_MAX" and "contents c key \<noteq> None"
  shows "lfu_get ord k0 v0 key c = Inl Int_overflow"
  using assms by (rule lfu_get_overflow)

theorem lfu_counter_overflows_witness:
  "\<exists>c. lfu_put id 0 0 (3::nat) (10::nat) (RLfuCache 1 10 empty_heap) = Inr c \<and> lfu_get id 0 0 3 (c\<lparr>curTotalNum := INT_MAX\<rparr>) = Inl Int_overflow"
proof -
  obtain c where c: "lfu_put id 0 0 (3::nat) (10::nat) (RLfuCache 1 10 empty_heap) = Inr c" "lfu_ok c" "contents c = [3 \<mapsto> 10]" "curTotalNum c \<le> 1"
    using cache_of_one by blast
  let ?c = "c\<lparr>curTotalNum := INT_MAX\<rparr>"
  have s: "core ?c = core c" "contents ?c = contents c" "is_min ?c = is_min c" "freq_sum ?c = freq_sum c" by (rule same_store; simp)+
  have "lfu_ok ?c" using c(2,4) s by (auto simp: lfu_ok_def INT_MAX_def)
  from lfu_counter_overflows [OF this, of 3 id 0 0] c(1,3) s(2) show ?thesis by auto
qed

end
