(* ===== verification/NetBuffer.thy ===== *)
theory NetBuffer
  imports Prelude
begin

text \<open>
  The network buffer of \<^verbatim>\<open>include/Buffer.h\<close> and \<^verbatim>\<open>src/Buffer.cc\<close>: a vector of bytes with a reader
  and a writer index. The operations are translated with their index arithmetic in \<open>size_t\<close> and
  with every copy checked against the storage; the lemmas show that the buffer is a byte queue,
  that no operation leaves its storage, and what \<^verbatim>\<open>readFd\<close> and \<^verbatim>\<open>writeFd\<close> do with the results of
  the system calls.
\<close>

section \<open>The buffer and its operations\<close>

definition kCheapPrepend :: nat where "kCheapPrepend = 8"
definition kInitialSize :: nat where "kInitialSize = 1024"

record buffer =
  storage :: "char list"
  readerIndex :: nat
  writerIndex :: nat

definition Buffer :: "nat \<Rightarrow> buffer" where
  "Buffer initialSize =
     \<lparr>storage = replicate (kCheapPrepend + initialSize) (char_of (0::nat)),
      readerIndex = kCheapPrepend, writerIndex = kCheapPrepend\<rparr>"

definition readableBytes :: "buffer \<Rightarrow> nat" where
  "readableBytes b = subsz (writerIndex b) (readerIndex b)"

definition writableBytes :: "buffer \<Rightarrow> nat" where
  "writableBytes b = subsz (length (storage b)) (writerIndex b)"

definition prependableBytes :: "buffer \<Rightarrow> nat" where
  "prependableBytes b = readerIndex b"

definition retrieveAll :: "buffer \<Rightarrow> buffer" where
  "retrieveAll b = b\<lparr>readerIndex := kCheapPrepend, writerIndex := kCheapPrepend\<rparr>"

definition retrieve :: "buffer \<Rightarrow> nat \<Rightarrow> buffer" where
  "retrieve b len =
     (if len < readableBytes b then b\<lparr>readerIndex := addsz (readerIndex b) len\<rparr>
      else retrieveAll b)"

text \<open>\<^verbatim>\<open>std::string(peek(), len)\<close> reads \<open>len\<close> bytes from \<open>readerIndex_\<close>, whatever is stored there.\<close>

definition retrieveAsString :: "buffer \<Rightarrow> nat \<Rightarrow> (string \<times> buffer) result" where
  "retrieveAsString b len =
     bind_result (read_range (storage b) (readerIndex b) len)
       (\<lambda>result. Inr (result, retrieve b len))"

definition retrieveAllAsString :: "buffer \<Rightarrow> (string \<times> buffer) result" where
  "retrieveAllAsString b = retrieveAsString b (readableBytes b)"

definition makeSpace :: "buffer \<Rightarrow> nat \<Rightarrow> buffer result" where
  "makeSpace b len =
     (if addsz (writableBytes b) (prependableBytes b) < addsz len kCheapPrepend
      then bind_result (vec_resize (storage b) (addsz (writerIndex b) len))
             (\<lambda>v. Inr (b\<lparr>storage := v\<rparr>))
      else let readable = readableBytes b in
           bind_result (read_range (storage b) (readerIndex b) (writerIndex b - readerIndex b))
             (\<lambda>xs. bind_result (copy_to (storage b) kCheapPrepend xs)
               (\<lambda>v. Inr (b\<lparr>storage := v, readerIndex := kCheapPrepend,
                          writerIndex := addsz kCheapPrepend readable\<rparr>))))"

definition ensureWritableBytes :: "buffer \<Rightarrow> nat \<Rightarrow> buffer result" where
  "ensureWritableBytes b len = (if writableBytes b < len then makeSpace b len else Inr b)"

definition Buffer_append :: "buffer \<Rightarrow> char list \<Rightarrow> buffer result" where
  "Buffer_append b data =
     bind_result (ensureWritableBytes b (length data))
       (\<lambda>b'. bind_result (copy_to (storage b') (writerIndex b') data)
         (\<lambda>v. Inr (b'\<lparr>storage := v, writerIndex := addsz (writerIndex b') (length data)\<rparr>)))"

text \<open>
  \<^verbatim>\<open>readFd\<close> hands the kernel one or two regions; \<open>readv\<close>, the system call, is a parameter that is
  given the lengths of the regions and returns an error number or the bytes it stored, which fill
  the regions in order. The result is the returned count (\<open>Inl\<close> the saved error number) and the
  buffer.
\<close>

definition extrabuf_size :: nat where "extrabuf_size = 65536"

definition read_iov :: "buffer \<Rightarrow> nat list" where
  "read_iov b = (let writable = writableBytes b in
     if writable < extrabuf_size then [writable, extrabuf_size] else [writable])"

definition readFd ::
    "(nat list \<Rightarrow> int + char list) \<Rightarrow> buffer \<Rightarrow> ((int + nat) \<times> buffer) result" where
  "readFd readv b =
     (let writable = writableBytes b
      in case readv (read_iov b) of
           Inl errno \<Rightarrow> Inr (Inl errno, b)
         | Inr data \<Rightarrow>
             let n = length data in
             bind_result (copy_to (storage b) (writerIndex b) (take writable data))
               (\<lambda>v. let b' = b\<lparr>storage := v\<rparr>; extrabuf = drop writable data in
                 if n \<le> writable
                 then Inr (Inr n, b'\<lparr>writerIndex := addsz (writerIndex b') n\<rparr>)
                 else bind_result
                        (Buffer_append (b'\<lparr>writerIndex := length (storage b')\<rparr>) extrabuf)
                        (\<lambda>b''. Inr (Inr n, b''))))"

text \<open>\<^verbatim>\<open>writeFd\<close> offers all readable bytes to the kernel's \<open>write\<close>, a parameter; the buffer is unchanged.\<close>

definition writeFd :: "(char list \<Rightarrow> int + nat) \<Rightarrow> buffer \<Rightarrow> (int + nat) result" where
  "writeFd write b =
     bind_result (read_range (storage b) (readerIndex b) (readableBytes b))
       (\<lambda>data. Inr (write data))"

section \<open>Invariant and content\<close>

definition buffer_ok :: "buffer \<Rightarrow> bool" where
  "buffer_ok b \<longleftrightarrow> kCheapPrepend \<le> readerIndex b \<and> readerIndex b \<le> writerIndex b \<and>
     writerIndex b \<le> length (storage b) \<and> length (storage b) \<le> vec_max_size"

definition content :: "buffer \<Rightarrow> char list" where
  "content b = take (writerIndex b - readerIndex b) (drop (readerIndex b) (storage b))"

lemmas buffer_consts = kCheapPrepend_def kInitialSize_def extrabuf_size_def vec_max_size_def

lemma readableBytes_ok: "buffer_ok b \<Longrightarrow> readableBytes b = writerIndex b - readerIndex b"
  by (simp add: buffer_ok_def readableBytes_def vec_max_size_def sz_simps)

lemma writableBytes_ok: "buffer_ok b \<Longrightarrow> writableBytes b = length (storage b) - writerIndex b"
  by (simp add: buffer_ok_def writableBytes_def vec_max_size_def sz_simps)

lemma readableBytes_content: "buffer_ok b \<Longrightarrow> readableBytes b = length (content b)"
  by (auto simp: readableBytes_ok content_def buffer_ok_def)

lemma content_length_bound: "buffer_ok b \<Longrightarrow> length (content b) + kCheapPrepend \<le> vec_max_size"
  by (auto simp: content_def buffer_ok_def)

lemma Buffer_ok: "n + kCheapPrepend \<le> vec_max_size \<Longrightarrow> buffer_ok (Buffer n) \<and> content (Buffer n) = []"
  by (simp add: buffer_ok_def Buffer_def content_def)

lemma retrieveAll_ok: "buffer_ok b \<Longrightarrow> buffer_ok (retrieveAll b) \<and> content (retrieveAll b) = []"
  by (simp add: buffer_ok_def retrieveAll_def content_def)

lemma retrieve_ok:
  assumes "buffer_ok b"
  shows "buffer_ok (retrieve b len) \<and> content (retrieve b len) = drop len (content b)"
proof (cases "len < readableBytes b")
  case True
  with assms have "readerIndex b + len < 2 ^ 64"
    by (auto simp: readableBytes_ok buffer_ok_def vec_max_size_def)
  with True assms show ?thesis
    by (auto simp: retrieve_def readableBytes_ok sz_simps buffer_ok_def content_def drop_take add.commute)
next
  case False
  with assms have "drop len (content b) = []" by (simp add: readableBytes_content)
  with False assms show ?thesis by (simp add: retrieve_def retrieveAll_ok)
qed

text \<open>
  The size condition of an append: either the storage may grow to hold the new bytes behind the
  writer index, or moving the readable bytes to the front makes room for them.
\<close>

definition append_fits :: "buffer \<Rightarrow> nat \<Rightarrow> bool" where
  "append_fits b n \<longleftrightarrow> writerIndex b + n \<le> vec_max_size \<or>
     length (content b) + kCheapPrepend + n \<le> length (storage b)"

lemma content_length: "buffer_ok b \<Longrightarrow> length (content b) = writerIndex b - readerIndex b"
  by (auto simp: content_def buffer_ok_def)

lemma makeSpace_branch:
  assumes "buffer_ok b" and "len \<le> vec_max_size"
  shows "addsz (writableBytes b) (prependableBytes b) < addsz len kCheapPrepend \<longleftrightarrow>
    length (storage b) < length (content b) + kCheapPrepend + len"
  using assms
  by (auto simp: addsz_def writableBytes_ok prependableBytes_def content_length buffer_ok_def buffer_consts)

lemma makeSpace_ok:
  assumes ok: "buffer_ok b" and small: "writableBytes b < len" and len: "len \<le> vec_max_size"
    and fits: "append_fits b len"
  obtains b' where "makeSpace b len = Inr b'" and "buffer_ok b'" and "content b' = content b"
    and "len \<le> length (storage b') - writerIndex b'"
proof (cases "addsz (writableBytes b) (prependableBytes b) < addsz len kCheapPrepend")
  case True
  define v where "v = storage b @ replicate (writerIndex b + len - length (storage b)) (char_of (0::nat))"
  have le: "length (storage b) \<le> writerIndex b + len"
    using ok small by (auto simp: writableBytes_ok)
  have fits': "writerIndex b + len \<le> vec_max_size"
    using fits True makeSpace_branch [OF ok len] by (auto simp: append_fits_def)
  have "makeSpace b len = Inr (b\<lparr>storage := v\<rparr>)"
    using True fits' le
    by (simp add: makeSpace_def addsz_nowrap vec_resize_ok v_def vec_max_size_def)
  moreover have "length v = writerIndex b + len" using le by (simp add: v_def)
  ultimately show ?thesis
    using that ok fits' by (auto simp: buffer_ok_def content_def v_def)
next
  case False
  define xs where "xs = content b"
  define v where "v = take kCheapPrepend (storage b) @ xs @ drop (kCheapPrepend + length xs) (storage b)"
  have room: "length xs + kCheapPrepend + len \<le> length (storage b)"
    using False makeSpace_branch [OF ok len] by (simp add: xs_def)
  have lxs: "length xs = writerIndex b - readerIndex b"
    using content_length [OF ok] by (simp add: xs_def)
  have "makeSpace b len = Inr (b\<lparr>storage := v, readerIndex := kCheapPrepend,
          writerIndex := kCheapPrepend + length xs\<rparr>)"
    using False ok lxs
    by (auto simp: makeSpace_def Let_def xs_def [symmetric] content_def [symmetric] buffer_ok_def
        readableBytes_ok addsz_nowrap v_def buffer_consts)
  then show ?thesis
    using that ok lxs room
    by (auto simp: v_def xs_def buffer_ok_def content_def [of "b\<lparr>storage := _, readerIndex := _, writerIndex := _\<rparr>"])
qed

lemma ensureWritableBytes_ok:
  assumes "buffer_ok b" and "len \<le> vec_max_size" and "append_fits b len"
  obtains b' where "ensureWritableBytes b len = Inr b'" and "buffer_ok b'" and "content b' = content b"
    and "writerIndex b' + len \<le> length (storage b')"
proof (cases "writableBytes b < len")
  case True
  then obtain b' where "makeSpace b len = Inr b'" "buffer_ok b'" "content b' = content b"
    "len \<le> length (storage b') - writerIndex b'"
    using makeSpace_ok [OF assms(1) True assms(2,3)] by blast
  then show ?thesis using that True by (auto simp: ensureWritableBytes_def buffer_ok_def)
next
  case False
  then show ?thesis
    using that [of b] assms by (auto simp: ensureWritableBytes_def writableBytes_ok buffer_ok_def)
qed

lemma copy_at_writer:
  assumes "buffer_ok b" and "writerIndex b + length xs \<le> length (storage b)"
  shows "take (writerIndex b + length xs - readerIndex b)
      (drop (readerIndex b) (take (writerIndex b) (storage b) @ xs @ drop (writerIndex b + length xs) (storage b)))
    = content b @ xs"
  using assms by (auto simp: buffer_ok_def content_def drop_take Suc_diff_le)

lemma Buffer_append_ok:
  assumes "buffer_ok b" and "length data \<le> vec_max_size" and "append_fits b (length data)"
  obtains b' where "Buffer_append b data = Inr b'" and "buffer_ok b'" and "content b' = content b @ data"
proof -
  obtain b1 where b1: "ensureWritableBytes b (length data) = Inr b1" "buffer_ok b1" "content b1 = content b"
    "writerIndex b1 + length data \<le> length (storage b1)"
    using ensureWritableBytes_ok [OF assms] .
  let ?v = "take (writerIndex b1) (storage b1) @ data @ drop (writerIndex b1 + length data) (storage b1)"
  let ?b = "b1\<lparr>storage := ?v, writerIndex := writerIndex b1 + length data\<rparr>"
  have "Buffer_append b data = Inr ?b"
    using b1 by (auto simp: Buffer_append_def buffer_ok_def buffer_consts addsz_nowrap)
  moreover have "buffer_ok ?b" using b1 by (auto simp: buffer_ok_def)
  moreover have "content ?b = content b @ data"
    using copy_at_writer [OF b1(2,4)] b1(3) by (simp add: content_def [of ?b])
  ultimately show ?thesis using that by blast
qed

text \<open>The only failure of an append is the vector's size limit: the resize it would need is too large.\<close>

lemma Buffer_append_error:
  assumes "buffer_ok b" and "length data \<le> vec_max_size" and "\<not> append_fits b (length data)"
  shows "Buffer_append b data = Inl Length_error"
proof -
  have "writableBytes b < length data"
    using assms by (auto simp: writableBytes_ok buffer_ok_def append_fits_def)
  moreover have "addsz (writableBytes b) (prependableBytes b) < addsz (length data) kCheapPrepend"
    using assms makeSpace_branch [OF assms(1,2)] by (simp add: append_fits_def)
  moreover have "addsz (writerIndex b) (length data) > vec_max_size"
    using assms by (auto simp: addsz_def buffer_ok_def buffer_consts append_fits_def)
  ultimately show ?thesis
    by (simp add: Buffer_append_def ensureWritableBytes_def makeSpace_def vec_resize_def)
qed

text \<open>No append stores more bytes than a vector can hold.\<close>

lemma ensureWritableBytes_bound:
  assumes "buffer_ok b" and "ensureWritableBytes b len = Inr b'"
  shows "length (storage b') \<le> vec_max_size"
  using assms
  by (auto simp: ensureWritableBytes_def makeSpace_def Let_def vec_resize_def buffer_ok_def
      dest: copy_to_length split: if_splits)

lemma Buffer_append_bound:
  assumes "buffer_ok b" and "Buffer_append b data = Inr b'"
  shows "length data \<le> vec_max_size"
  using assms ensureWritableBytes_bound [OF assms(1)]
  by (fastforce simp: Buffer_append_def copy_to_def split: if_splits)

text \<open>An append moves the writer index by at most the number of bytes, a retrieval never forward.\<close>

lemma Buffer_append_writer:
  assumes "buffer_ok b" and "Buffer_append b data = Inr b'"
  shows "writerIndex b' \<le> writerIndex b + length data"
proof -
  from assms(2) obtain b1 where b1: "ensureWritableBytes b (length data) = Inr b1"
    "writerIndex b' = addsz (writerIndex b1) (length data)" by (auto simp: Buffer_append_def)
  have "addsz kCheapPrepend (readableBytes b) \<le> writerIndex b"
    using assms(1) by (auto simp: readableBytes_ok addsz_def buffer_ok_def buffer_consts intro: order_trans [OF mod_less_eq_dividend])
  then have "writerIndex b1 \<le> writerIndex b"
    using b1(1) by (auto simp: ensureWritableBytes_def makeSpace_def Let_def split: if_splits)
  then show ?thesis using b1(2) by (auto simp: addsz_def intro: order_trans [OF mod_less_eq_dividend])
qed

lemma retrieve_writer: "buffer_ok b \<Longrightarrow> writerIndex (retrieve b n) \<le> writerIndex b"
  by (simp add: retrieve_def retrieveAll_def buffer_ok_def)

section \<open>The byte queue interface\<close>

text \<open>
  What the connection relies on: a queue of bytes with a fallible \<open>push\<close> at the back and a \<open>pop\<close>
  of a number of bytes from the front. A run of the queue never loses, duplicates or reorders a
  byte: what was held and pushed is what was popped and is still held.
\<close>

datatype fifo_op = Push "char list" | Pop nat

fun fifo_pushed :: "fifo_op list \<Rightarrow> char list" where
  "fifo_pushed [] = []"
| "fifo_pushed (Push d # ops) = d @ fifo_pushed ops"
| "fifo_pushed (Pop n # ops) = fifo_pushed ops"

fun fifo_run :: "('b \<Rightarrow> char list) \<Rightarrow> ('b \<Rightarrow> char list \<Rightarrow> 'b result) \<Rightarrow> ('b \<Rightarrow> nat \<Rightarrow> 'b) \<Rightarrow>
    'b \<Rightarrow> fifo_op list \<Rightarrow> (char list \<times> 'b) result" where
  "fifo_run bytes push pop b [] = Inr ([], b)"
| "fifo_run bytes push pop b (Push d # ops) =
     bind_result (push b d) (\<lambda>b'. fifo_run bytes push pop b' ops)"
| "fifo_run bytes push pop b (Pop n # ops) =
     bind_result (fifo_run bytes push pop (pop b n) ops)
       (\<lambda>(out, b'). Inr (take n (bytes b) @ out, b'))"

locale byte_fifo =
  fixes ok :: "'b \<Rightarrow> bool"
    and bytes :: "'b \<Rightarrow> char list"
    and push :: "'b \<Rightarrow> char list \<Rightarrow> 'b result"
    and pop :: "'b \<Rightarrow> nat \<Rightarrow> 'b"
    and limit :: "'b \<Rightarrow> nat"
  assumes push_fits: "ok b \<Longrightarrow> length d \<le> limit b \<Longrightarrow> \<exists>b'. push b d = Inr b'"
    and push_fifo: "ok b \<Longrightarrow> push b d = Inr b' \<Longrightarrow> ok b' \<and> bytes b' = bytes b @ d"
    and pop_fifo: "ok b \<Longrightarrow> ok (pop b n) \<and> bytes (pop b n) = drop n (bytes b)"
begin

lemma run_conserves:
  "ok b \<Longrightarrow> fifo_run bytes push pop b ops = Inr (out, b') \<Longrightarrow>
     ok b' \<and> bytes b @ fifo_pushed ops = out @ bytes b'"
proof (induction ops arbitrary: b out)
  case (Cons a ops)
  then show ?case
  proof (cases a)
    case (Push d)
    with Cons.prems obtain b1 where "push b d = Inr b1" "fifo_run bytes push pop b1 ops = Inr (out, b')"
      by auto
    with Cons.IH [of b1 out] Cons.prems(1) push_fifo Push show ?thesis by fastforce
  next
    case (Pop n)
    with Cons.prems obtain o1 where o1: "fifo_run bytes push pop (pop b n) ops = Inr (o1, b')"
      "out = take n (bytes b) @ o1" by auto
    with Cons.IH [OF _ o1(1)] Cons.prems(1) pop_fifo [of b n] Pop
    show ?thesis by simp (metis append.assoc append_take_drop_id)
  qed
qed simp

lemma push_pop_all: "ok b \<Longrightarrow> push b d = Inr b' \<Longrightarrow> bytes (pop b' (length (bytes b) + length d)) = []"
  using push_fifo pop_fifo by fastforce

end

lemma Buffer_append_fifo:
  assumes ok: "buffer_ok b" and app: "Buffer_append b data = Inr b'"
  shows "buffer_ok b' \<and> content b' = content b @ data"
proof -
  note len = Buffer_append_bound [OF ok app]
  have "append_fits b (length data)" using Buffer_append_error [OF ok len] app by fastforce
  with Buffer_append_ok [OF ok len] app show ?thesis by (metis sum.inject(2))
qed

interpretation net_buffer: byte_fifo buffer_ok content Buffer_append retrieve
    "\<lambda>b. vec_max_size - writerIndex b"
proof unfold_locales
  fix b :: buffer and d :: "char list"
  assume ok: "buffer_ok b" and len: "length d \<le> vec_max_size - writerIndex b"
  then have "append_fits b (length d)" "length d \<le> vec_max_size"
    by (auto simp: append_fits_def buffer_ok_def)
  with Buffer_append_ok [OF ok] show "\<exists>b'. Buffer_append b d = Inr b'" by metis
qed (auto simp: Buffer_append_fifo retrieve_ok)

section \<open>Reading and writing descriptors\<close>

lemma readFd_error: "readv (read_iov b) = Inl e \<Longrightarrow> readFd readv b = Inr (Inl e, b)"
  by (simp add: readFd_def)

text \<open>The documented contract of \<open>readv\<close>: it stores no more bytes than the regions hold.\<close>

definition readv_contract :: "(nat list \<Rightarrow> int + char list) \<Rightarrow> bool" where
  "readv_contract readv \<longleftrightarrow> (\<forall>iov data. readv iov = Inr data \<longrightarrow> length data \<le> sum_list iov)"

lemma fill_ok:
  assumes "buffer_ok b" and "length xs \<le> length (storage b) - writerIndex b"
  defines "b' \<equiv> b\<lparr>storage := take (writerIndex b) (storage b) @ xs @
      drop (writerIndex b + length xs) (storage b), writerIndex := writerIndex b + length xs\<rparr>"
  shows "buffer_ok b' \<and> content b' = content b @ xs \<and> length (storage b') = length (storage b)"
proof -
  have le: "writerIndex b + length xs \<le> length (storage b)" using assms(1,2) by (auto simp: buffer_ok_def)
  show ?thesis
  proof (intro conjI)
    show "content b' = content b @ xs"
      using copy_at_writer [OF assms(1) le] by (simp add: b'_def content_def [of "b\<lparr>storage := _, writerIndex := _\<rparr>"])
  qed (use assms(1) le in \<open>auto simp: b'_def buffer_ok_def\<close>)
qed

lemma readFd_ok:
  assumes ok: "buffer_ok b" and contract: "readv_contract readv"
    and size: "length (storage b) + extrabuf_size \<le> vec_max_size"
    and data: "readv (read_iov b) = Inr data"
  obtains b' where "readFd readv b = Inr (Inr (length data), b')" and "buffer_ok b'"
    and "content b' = content b @ data"
proof -
  let ?w = "writableBytes b"
  have w: "?w = length (storage b) - writerIndex b" using ok by (rule writableBytes_ok)
  have len: "length data \<le> ?w \<or> length data \<le> ?w + extrabuf_size \<and> ?w < extrabuf_size"
    using contract data by (fastforce simp: readv_contract_def read_iov_def Let_def split: if_splits)
  define xs where "xs = take ?w data"
  define b1 where "b1 = b\<lparr>storage := take (writerIndex b) (storage b) @ xs @
      drop (writerIndex b + length xs) (storage b), writerIndex := writerIndex b + length xs\<rparr>"
  have xs: "length xs \<le> length (storage b) - writerIndex b" by (simp add: xs_def w)
  have b1: "buffer_ok b1" "content b1 = content b @ xs" "length (storage b1) = length (storage b)"
    using fill_ok [OF ok xs] by (simp_all add: b1_def)
  have copy: "copy_to (storage b) (writerIndex b) xs = Inr (storage b1)"
    using xs ok by (auto simp: b1_def buffer_ok_def)
  show ?thesis
  proof (cases "length data \<le> ?w")
    case True
    then have "xs = data" by (simp add: xs_def)
    moreover have "readFd readv b = Inr (Inr (length data), b1)"
      using True data copy ok b1(3) \<open>xs = data\<close>
      by (auto simp: readFd_def Let_def b1_def buffer_ok_def addsz_nowrap vec_max_size_def w)
    ultimately show ?thesis using that b1 by simp
  next
    case False
    let ?ys = "drop ?w data"
    have w1: "writerIndex b1 = length (storage b1)"
      using False ok b1(3) by (auto simp: b1_def xs_def w buffer_ok_def)
    have ys: "length ?ys \<le> extrabuf_size" using len False by auto
    have "append_fits b1 (length ?ys)" "length ?ys \<le> vec_max_size"
      using ys size w1 b1(3) by (auto simp: append_fits_def)
    from Buffer_append_ok [OF b1(1) this(2,1)] obtain b2 where
      b2: "Buffer_append b1 ?ys = Inr b2" "buffer_ok b2" "content b2 = content b1 @ ?ys" by blast
    have eq: "b\<lparr>storage := storage b1, writerIndex := length (storage b1)\<rparr> = b1"
      using w1 by (simp add: b1_def)
    have "readFd readv b = Inr (Inr (length data), b2)"
      using False data copy b2(1) eq by (auto simp: readFd_def Let_def xs_def [symmetric])
    moreover have "content b2 = content b @ data"
      using b2(3) b1(2) by (simp add: xs_def)
    ultimately show ?thesis using that b2 by blast
  qed
qed

lemma writeFd_ok: "buffer_ok b \<Longrightarrow> writeFd write b = Inr (write (content b))"
  by (auto simp: writeFd_def readableBytes_ok content_def buffer_ok_def)

section \<open>Properties\<close>

text \<open>
  C20: appending to a well-formed buffer never writes outside its storage. It fails only with the
  vector's length error, exactly when the bytes fit neither by growing nor by compaction, and
  otherwise the buffer stays well-formed and its readable bytes are the old ones followed by the
  new ones.
\<close>

theorem append_is_enqueue:
  assumes "buffer_ok b" and "length data \<le> vec_max_size"
  shows "if append_fits b (length data)
    then \<exists>b'. Buffer_append b data = Inr b' \<and> buffer_ok b' \<and> content b' = content b @ data
    else Buffer_append b data = Inl Length_error"
  using Buffer_append_ok [OF assms] Buffer_append_error [OF assms] by metis

theorem append_is_enqueue_witness:
  "buffer_ok (Buffer 2) \<and> (\<exists>b'. Buffer_append (Buffer 2) ''hello'' = Inr b' \<and> buffer_ok b' \<and> content b' = ''hello'')"
proof -
  have ok: "buffer_ok (Buffer 2)" and empty: "content (Buffer 2) = []"
    using Buffer_ok [of 2] by (simp_all add: buffer_consts)
  have "append_fits (Buffer 2) (length ''hello'')"
    by (simp add: append_fits_def Buffer_def buffer_consts)
  with append_is_enqueue [OF ok, of "''hello''"] ok empty show ?thesis by (simp add: buffer_consts)
qed

text \<open>
  over any run of appends and retrieves that a well-formed buffer completes, no byte is lost,
  duplicated or reordered: the bytes it held followed by all bytes appended are the bytes
  retrieved followed by the bytes it still holds.
\<close>

theorem buffer_run_conserves:
  assumes "buffer_ok b" and "fifo_run content Buffer_append retrieve b ops = Inr (out, b')"
  shows "buffer_ok b' \<and> content b @ fifo_pushed ops = out @ content b'"
  using assms by (rule net_buffer.run_conserves)

theorem buffer_run_conserves_witness:
  "\<exists>out b'. fifo_run content Buffer_append retrieve \<lparr>storage = ''--------abcd'', readerIndex = 8, writerIndex = 10\<rparr>
       [Push ''xy'', Pop 3, Push ''uv''] = Inr (out, b') \<and>
     ''ab'' @ ''xy'' @ ''uv'' = out @ content b'"
proof -
  let ?b = "\<lparr>storage = ''--------abcd'', readerIndex = 8, writerIndex = 10\<rparr>"
  have ok: "buffer_ok ?b" and c: "content ?b = ''ab''"
    by (simp_all add: buffer_ok_def content_def buffer_consts)
  obtain out b' where run: "fifo_run content Buffer_append retrieve ?b [Push ''xy'', Pop 3, Push ''uv''] = Inr (out, b')"
    by (simp add: Buffer_append_def ensureWritableBytes_def makeSpace_def writableBytes_def
        readableBytes_def prependableBytes_def retrieve_def subsz_def addsz_def buffer_consts
        copy_to_def read_range_def)
  from buffer_run_conserves [OF ok run] c run show ?thesis by simp
qed

text \<open>
  C26: reading a descriptor into a well-formed buffer stays inside the buffer and the stack area
  and appends exactly the bytes the kernel delivered, in order, also when they spill over into
  the stack area; the returned count is their number, and an error of the kernel leaves the
  buffer unchanged and is reported.
\<close>

theorem readFd_appends_received:
  assumes "buffer_ok b" and "readv_contract readv" and "length (storage b) + extrabuf_size \<le> vec_max_size"
  shows "case readv (read_iov b) of
      Inl e \<Rightarrow> readFd readv b = Inr (Inl e, b)
    | Inr data \<Rightarrow> \<exists>b'. readFd readv b = Inr (Inr (length data), b') \<and> buffer_ok b' \<and> content b' = content b @ data"
proof (cases "readv (read_iov b)")
  case (Inl e)
  then show ?thesis by (simp add: readFd_error)
next
  case (Inr data)
  obtain b' where "readFd readv b = Inr (Inr (length data), b')" "buffer_ok b'" "content b' = content b @ data"
    using readFd_ok [OF assms Inr] .
  with Inr show ?thesis by simp
qed

theorem readFd_appends_received_witness:
  "\<exists>b'. readFd (\<lambda>iov. Inr ''ping'') (Buffer 2) = Inr (Inr 4, b') \<and> content b' = ''ping''"
proof -
  let ?rv = "\<lambda>iov :: nat list. (if sum_list iov \<ge> 4 then Inr ''ping'' else Inl 11) :: int + char list"
  have ok: "buffer_ok (Buffer 2)" and empty: "content (Buffer 2) = []"
    using Buffer_ok [of 2] by (simp_all add: buffer_consts)
  have c: "readv_contract ?rv" by (auto simp: readv_contract_def)
  have w: "writableBytes (Buffer 2) = 2" using writableBytes_ok [OF ok] by (simp add: Buffer_def)
  have sz: "length (storage (Buffer 2)) + extrabuf_size \<le> vec_max_size"
    by (simp add: Buffer_def buffer_consts)
  from readFd_appends_received [OF ok c sz] empty w
  have "\<exists>b'. readFd ?rv (Buffer 2) = Inr (Inr 4, b') \<and> content b' = ''ping''"
    by (auto simp: extrabuf_size_def read_iov_def)
  moreover have "readFd ?rv (Buffer 2) = readFd (\<lambda>iov. Inr ''ping'') (Buffer 2)"
    by (simp add: readFd_def read_iov_def w extrabuf_size_def)
  ultimately show ?thesis by simp
qed

text \<open>
  taking all readable bytes as a string returns exactly the readable bytes and leaves the
  buffer well-formed and empty; taking \<open>len\<close> bytes returns the first \<open>len\<close> readable bytes and keeps
  the rest, when that many are readable.
\<close>

theorem retrieveAsString_takes_front:
  assumes "buffer_ok b" and "len \<le> length (content b)"
  shows "\<exists>b'. retrieveAsString b len = Inr (take len (content b), b') \<and> buffer_ok b' \<and>
      content b' = drop len (content b) \<and>
      (len = length (content b) \<longrightarrow> retrieveAllAsString b = retrieveAsString b len)"
proof -
  have len: "len \<le> writerIndex b - readerIndex b" using assms by (simp add: content_length)
  have "readerIndex b + len \<le> length (storage b)" using assms(1) len by (auto simp: buffer_ok_def)
  moreover have "take len (drop (readerIndex b) (storage b)) = take len (content b)"
    using len by (simp add: content_def min_def)
  ultimately show ?thesis
    using retrieve_ok [OF assms(1), of len] assms
    by (auto simp: retrieveAsString_def retrieveAllAsString_def readableBytes_content)
qed

theorem retrieveAsString_takes_front_witness:
  "\<exists>b'. retrieveAsString \<lparr>storage = ''--------abcd'', readerIndex = 9, writerIndex = 12\<rparr> 2 = Inr (''bc'', b') \<and>
     content b' = ''d''"
proof -
  let ?b = "\<lparr>storage = ''--------abcd'', readerIndex = 9, writerIndex = 12\<rparr>"
  have ok: "buffer_ok ?b" and c: "content ?b = ''bcd''"
    by (simp_all add: buffer_ok_def content_def buffer_consts)
  have len: "2 \<le> length (content ?b)" using c by simp
  show ?thesis using retrieveAsString_takes_front [OF ok len] c by (auto simp: numeral_2_eq_2)
qed

end
