(* ===== verification/EpollPoller.thy ===== *)
theory EpollPoller
  imports Prelude
begin

unbundle bit_operations_syntax

text \<open>
  Channels and the poller: \<^verbatim>\<open>include/Channel.h\<close>, \<^verbatim>\<open>src/Channel.cc\<close>, \<^verbatim>\<open>include/Poller.h\<close>, \<^verbatim>\<open>src/Poller.cc\<close>,
  \<^verbatim>\<open>src/DefaultPoller.cc\<close>, \<^verbatim>\<open>include/EPollPoller.h\<close>, \<^verbatim>\<open>src/EPollPoller.cc\<close>. The \<open>Channel\<close> objects live in a store indexed by
  address, shared by everybody who holds a \<^verbatim>\<open>Channel*\<close>. The calls of \<^verbatim>\<open>epoll_ctl\<close> are recorded in order with
  their arguments, and their return values are a parameter \<open>ret\<close> (the value of the n-th call); the
  interest list the kernel keeps is the specification \<open>interest\<close>, a replay of the recorded calls.
\<close>

section \<open>Event masks\<close>

type_synonym ptr = nat
type_synonym ev = "32 word"

definition EPOLLIN :: ev where "EPOLLIN = 0x001"
definition EPOLLPRI :: ev where "EPOLLPRI = 0x002"
definition EPOLLOUT :: ev where "EPOLLOUT = 0x004"
definition EPOLLERR :: ev where "EPOLLERR = 0x008"
definition EPOLLHUP :: ev where "EPOLLHUP = 0x010"

definition kNoneEvent :: ev where "kNoneEvent = 0"
definition kReadEvent :: ev where "kReadEvent = EPOLLIN OR EPOLLPRI"
definition kWriteEvent :: ev where "kWriteEvent = EPOLLOUT"

lemmas event_bits = EPOLLIN_def EPOLLPRI_def EPOLLOUT_def EPOLLERR_def EPOLLHUP_def
  kNoneEvent_def kReadEvent_def kWriteEvent_def

section \<open>Channel\<close>

text \<open>\<open>tie\<close> is the object the weak pointer refers to; \<open>tied\<close> says whether it was set.\<close>

record 'cb channel =
  fd :: int
  events :: ev
  revents :: ev
  index :: int
  tie :: ptr
  tied :: bool
  readCallback :: "'cb option"
  writeCallback :: "'cb option"
  closeCallback :: "'cb option"
  errorCallback :: "'cb option"

definition kNew :: int where "kNew = -1"
definition kAdded :: int where "kAdded = 1"
definition kDeleted :: int where "kDeleted = 2"

lemmas index_defs = kNew_def kAdded_def kDeleted_def

definition Channel :: "int \<Rightarrow> 'cb channel" where
  "Channel f = \<lparr>fd = f, events = 0, revents = 0, index = -1, tie = 0, tied = False,
     readCallback = None, writeCallback = None, closeCallback = None, errorCallback = None\<rparr>"

definition Channel_tie :: "ptr \<Rightarrow> 'cb channel \<Rightarrow> 'cb channel" where
  "Channel_tie obj ch = ch\<lparr>tie := obj, tied := True\<rparr>"

definition setReadCallback :: "'cb \<Rightarrow> 'cb channel \<Rightarrow> 'cb channel" where
  "setReadCallback cb ch = ch\<lparr>readCallback := Some cb\<rparr>"

definition setWriteCallback :: "'cb \<Rightarrow> 'cb channel \<Rightarrow> 'cb channel" where
  "setWriteCallback cb ch = ch\<lparr>writeCallback := Some cb\<rparr>"

definition setCloseCallback :: "'cb \<Rightarrow> 'cb channel \<Rightarrow> 'cb channel" where
  "setCloseCallback cb ch = ch\<lparr>closeCallback := Some cb\<rparr>"

definition setErrorCallback :: "'cb \<Rightarrow> 'cb channel \<Rightarrow> 'cb channel" where
  "setErrorCallback cb ch = ch\<lparr>errorCallback := Some cb\<rparr>"

definition isNoneEvent :: "'cb channel \<Rightarrow> bool" where
  "isNoneEvent ch = (events ch = kNoneEvent)"

definition isWriting :: "'cb channel \<Rightarrow> bool" where
  "isWriting ch = (events ch AND kWriteEvent \<noteq> 0)"

definition isReading :: "'cb channel \<Rightarrow> bool" where
  "isReading ch = (events ch AND kReadEvent \<noteq> 0)"

text \<open>
  The dispatch of the returned events. \<open>run cb t s\<close> is the call of a callback (the read callback also
  receives the time) on the rest of the program's state; \<open>lock obj s\<close> says whether the object behind the
  weak pointer is still alive.
\<close>

definition call_cb :: "('cb \<Rightarrow> int \<Rightarrow> 's \<Rightarrow> 's result) \<Rightarrow> 'cb option \<Rightarrow> int \<Rightarrow> 's \<Rightarrow> 's result" where
  "call_cb run cb t s = (case cb of None \<Rightarrow> Inr s | Some f \<Rightarrow> run f t s)"

definition handleEventWithGuard ::
    "('cb \<Rightarrow> int \<Rightarrow> 's \<Rightarrow> 's result) \<Rightarrow> int \<Rightarrow> 'cb channel \<Rightarrow> 's \<Rightarrow> 's result" where
  "handleEventWithGuard run t ch s =
     bind_result (if revents ch AND EPOLLHUP \<noteq> 0 \<and> \<not> revents ch AND EPOLLIN \<noteq> 0 then call_cb run (closeCallback ch) t s else Inr s) (\<lambda>s.
     bind_result (if revents ch AND EPOLLERR \<noteq> 0 then call_cb run (errorCallback ch) t s else Inr s) (\<lambda>s.
     bind_result (if revents ch AND (EPOLLIN OR EPOLLPRI) \<noteq> 0 then call_cb run (readCallback ch) t s else Inr s) (\<lambda>s.
     if revents ch AND EPOLLOUT \<noteq> 0 then call_cb run (writeCallback ch) t s else Inr s)))"

definition handleEvent ::
    "('cb \<Rightarrow> int \<Rightarrow> 's \<Rightarrow> 's result) \<Rightarrow> (ptr \<Rightarrow> 's \<Rightarrow> bool) \<Rightarrow> int \<Rightarrow> 'cb channel \<Rightarrow> 's \<Rightarrow> 's result" where
  "handleEvent run lock t ch s =
     (if tied ch
      then if lock (tie ch) s then handleEventWithGuard run t ch s else Inr s
      else handleEventWithGuard run t ch s)"

section \<open>EPollPoller\<close>

datatype ctl_op = EPOLL_CTL_ADD | EPOLL_CTL_MOD | EPOLL_CTL_DEL

type_synonym ctl_call = "ctl_op \<times> int \<times> ev \<times> ptr"

text \<open>\<open>event_slots\<close> is the size of the vector \<open>events_\<close> handed to \<^verbatim>\<open>epoll_wait\<close>.\<close>

record poller =
  channels :: "int \<rightharpoonup> ptr"
  event_slots :: nat
  ctl_calls :: "ctl_call list"

record 'cb reactor =
  chans :: "ptr \<rightharpoonup> 'cb channel"
  poll_ptr :: "poller option"

definition kInitEventListSize :: nat where "kInitEventListSize = 16"

definition EPollPoller :: "int \<Rightarrow> poller result" where
  "EPollPoller epollfd =
     (if epollfd < 0 then Inl Fatal_abort
      else Inr \<lparr>channels = Map.empty, event_slots = kInitEventListSize, ctl_calls = []\<rparr>)"

text \<open>\<open>env\<close> says whether \<^verbatim>\<open>MUDUO_USE_POLL\<close> is set; the poller is then a null pointer.\<close>

definition newDefaultPoller :: "bool \<Rightarrow> int \<Rightarrow> poller option result" where
  "newDefaultPoller env epollfd =
     (if env then Inr None else bind_result (EPollPoller epollfd) (\<lambda>p. Inr (Some p)))"

definition epoll_update :: "(nat \<Rightarrow> int) \<Rightarrow> ctl_op \<Rightarrow> ptr \<Rightarrow> 'cb channel \<Rightarrow> poller \<Rightarrow> poller result" where
  "epoll_update ret operation c ch p =
     (if ret (length (ctl_calls p)) < 0 \<and> operation \<noteq> EPOLL_CTL_DEL then Inl Fatal_abort
      else Inr (p\<lparr>ctl_calls := ctl_calls p @ [(operation, fd ch, events ch, c)]\<rparr>))"

definition updateChannel :: "(nat \<Rightarrow> int) \<Rightarrow> ptr \<Rightarrow> 'cb reactor \<Rightarrow> 'cb reactor result" where
  "updateChannel ret c r =
     (case (chans r c, poll_ptr r) of
        (Some ch, Some p) \<Rightarrow>
          if index ch = kNew \<or> index ch = kDeleted
          then let p1 = (if index ch = kNew then p\<lparr>channels := (channels p)(fd ch \<mapsto> c)\<rparr> else p);
                   ch1 = ch\<lparr>index := kAdded\<rparr>
               in bind_result (epoll_update ret EPOLL_CTL_ADD c ch1 p1) (\<lambda>p2.
                    Inr (r\<lparr>chans := (chans r)(c \<mapsto> ch1), poll_ptr := Some p2\<rparr>))
          else if isNoneEvent ch
          then bind_result (epoll_update ret EPOLL_CTL_DEL c ch p) (\<lambda>p2.
                 Inr (r\<lparr>chans := (chans r)(c \<mapsto> ch\<lparr>index := kDeleted\<rparr>), poll_ptr := Some p2\<rparr>))
          else bind_result (epoll_update ret EPOLL_CTL_MOD c ch p) (\<lambda>p2. Inr (r\<lparr>poll_ptr := Some p2\<rparr>))
      | _ \<Rightarrow> Inl Null_deref)"

definition removeChannel :: "(nat \<Rightarrow> int) \<Rightarrow> ptr \<Rightarrow> 'cb reactor \<Rightarrow> 'cb reactor result" where
  "removeChannel ret c r =
     (case (chans r c, poll_ptr r) of
        (Some ch, Some p) \<Rightarrow>
          let p1 = p\<lparr>channels := (channels p)(fd ch := None)\<rparr>
          in bind_result (if index ch = kAdded then epoll_update ret EPOLL_CTL_DEL c ch p1 else Inr p1) (\<lambda>p2.
               Inr (r\<lparr>chans := (chans r)(c \<mapsto> ch\<lparr>index := kNew\<rparr>), poll_ptr := Some p2\<rparr>))
      | _ \<Rightarrow> Inl Null_deref)"

definition hasChannel :: "ptr \<Rightarrow> 'cb reactor \<Rightarrow> bool result" where
  "hasChannel c r =
     (case (chans r c, poll_ptr r) of
        (Some ch, Some p) \<Rightarrow> Inr (case channels p (fd ch) of None \<Rightarrow> False | Some d \<Rightarrow> d = c)
      | _ \<Rightarrow> Inl Null_deref)"

fun fillActiveChannels :: "(ev \<times> ptr) list \<Rightarrow> (ptr \<rightharpoonup> 'cb channel) \<Rightarrow> (ptr list \<times> (ptr \<rightharpoonup> 'cb channel)) result" where
  "fillActiveChannels [] cs = Inr ([], cs)"
| "fillActiveChannels ((e, c) # es) cs =
     (case cs c of None \<Rightarrow> Inl Null_deref
      | Some ch \<Rightarrow>
        bind_result (fillActiveChannels es (cs(c \<mapsto> ch\<lparr>revents := e\<rparr>))) (\<lambda>(active, cs'). Inr (c # active, cs')))"

text \<open>The outcome of \<^verbatim>\<open>epoll_wait\<close>: the returned events, or an \<open>errno\<close>.\<close>

definition poll :: "int + (ev \<times> ptr) list \<Rightarrow> 'cb reactor \<Rightarrow> (ptr list \<times> 'cb reactor) result" where
  "poll outcome r =
     (case poll_ptr r of None \<Rightarrow> Inl Null_deref
      | Some p \<Rightarrow>
        (case outcome of
           Inl errno \<Rightarrow> Inr ([], r)
         | Inr es \<Rightarrow>
             if es = [] then Inr ([], r)
             else bind_result (fillActiveChannels es (chans r)) (\<lambda>(active, cs).
                    Inr (active, r\<lparr>chans := cs,
                      poll_ptr := Some (if length es = event_slots p then p\<lparr>event_slots := event_slots p * 2\<rparr> else p)\<rparr>))))"

section \<open>Channel operations\<close>

text \<open>Each changes the mask and calls \<open>update\<close>, which reaches \<open>updateChannel\<close> through the loop.\<close>

definition change_events :: "(nat \<Rightarrow> int) \<Rightarrow> (ev \<Rightarrow> ev) \<Rightarrow> ptr \<Rightarrow> 'cb reactor \<Rightarrow> 'cb reactor result" where
  "change_events ret f c r =
     (case chans r c of None \<Rightarrow> Inl Null_deref
      | Some ch \<Rightarrow> updateChannel ret c (r\<lparr>chans := (chans r)(c \<mapsto> ch\<lparr>events := f (events ch)\<rparr>)\<rparr>))"

definition enableReading :: "(nat \<Rightarrow> int) \<Rightarrow> ptr \<Rightarrow> 'cb reactor \<Rightarrow> 'cb reactor result" where
  "enableReading ret = change_events ret (\<lambda>e. e OR kReadEvent)"

definition disableReading :: "(nat \<Rightarrow> int) \<Rightarrow> ptr \<Rightarrow> 'cb reactor \<Rightarrow> 'cb reactor result" where
  "disableReading ret = change_events ret (\<lambda>e. e AND NOT kReadEvent)"

definition enableWriting :: "(nat \<Rightarrow> int) \<Rightarrow> ptr \<Rightarrow> 'cb reactor \<Rightarrow> 'cb reactor result" where
  "enableWriting ret = change_events ret (\<lambda>e. e OR kWriteEvent)"

definition disableWriting :: "(nat \<Rightarrow> int) \<Rightarrow> ptr \<Rightarrow> 'cb reactor \<Rightarrow> 'cb reactor result" where
  "disableWriting ret = change_events ret (\<lambda>e. e AND NOT kWriteEvent)"

definition disableAll :: "(nat \<Rightarrow> int) \<Rightarrow> ptr \<Rightarrow> 'cb reactor \<Rightarrow> 'cb reactor result" where
  "disableAll ret = change_events ret (\<lambda>e. kNoneEvent)"

section \<open>The kernel's interest list\<close>

text \<open>
  The documented effect of \<^verbatim>\<open>epoll_ctl\<close>: an addition of a descriptor that is present and a change or removal of one that
  is absent are refused. A removal that is refused leaves the descriptor absent all the same, and a refused addition or
  change ends the process, so the replay covers every state in which the program goes on.
\<close>

type_synonym interest_list = "int \<rightharpoonup> ev \<times> ptr"

fun ctl_effect :: "ctl_call \<Rightarrow> interest_list \<Rightarrow> interest_list" where
  "ctl_effect (EPOLL_CTL_ADD, f, e, c) m = m(f \<mapsto> (e, c))"
| "ctl_effect (EPOLL_CTL_MOD, f, e, c) m = m(f \<mapsto> (e, c))"
| "ctl_effect (EPOLL_CTL_DEL, f, e, c) m = m(f := None)"

fun ctl_legal :: "ctl_call \<Rightarrow> interest_list \<Rightarrow> bool" where
  "ctl_legal (EPOLL_CTL_ADD, f, e, c) m = (m f = None)"
| "ctl_legal (EPOLL_CTL_MOD, f, e, c) m = (m f \<noteq> None)"
| "ctl_legal (EPOLL_CTL_DEL, f, e, c) m = (m f \<noteq> None)"

definition interest :: "ctl_call list \<Rightarrow> interest_list" where
  "interest calls = fold ctl_effect calls Map.empty"

definition legal_calls :: "ctl_call list \<Rightarrow> bool" where
  "legal_calls calls = (\<forall>n<length calls. ctl_legal (calls ! n) (interest (take n calls)))"

lemma interest_snoc [simp]: "interest (calls @ [c]) = ctl_effect c (interest calls)"
  by (simp add: interest_def)

lemma interest_Nil [simp]: "interest [] = Map.empty"
  by (simp add: interest_def)

lemma legal_calls_snoc [simp]: "legal_calls (calls @ [c]) \<longleftrightarrow> legal_calls calls \<and> ctl_legal c (interest calls)"
  by (auto simp: legal_calls_def nth_append less_Suc_eq)

lemma legal_calls_Nil [simp]: "legal_calls []"
  by (simp add: legal_calls_def)

section \<open>Invariant\<close>

text \<open>
  The map of the poller holds exactly the channels that are not new, the interest list exactly the added ones, each with its own
  mask, and every call made so far was one the kernel accepts.
\<close>

definition poller_ok :: "(ptr \<rightharpoonup> 'cb channel) \<Rightarrow> poller \<Rightarrow> bool" where
  "poller_ok cs p \<longleftrightarrow> legal_calls (ctl_calls p) \<and>
     (\<forall>c ch. cs c = Some ch \<longrightarrow> index ch \<in> {kNew, kAdded, kDeleted}) \<and>
     (\<forall>f c. channels p f = Some c \<longleftrightarrow> (\<exists>ch. cs c = Some ch \<and> fd ch = f \<and> index ch \<noteq> kNew)) \<and>
     (\<forall>f e c. interest (ctl_calls p) f = Some (e, c) \<longleftrightarrow>
        (\<exists>ch. cs c = Some ch \<and> fd ch = f \<and> index ch = kAdded \<and> events ch = e))"

definition reactor_ok :: "'cb reactor \<Rightarrow> bool" where
  "reactor_ok r = (case poll_ptr r of None \<Rightarrow> False | Some p \<Rightarrow> poller_ok (chans r) p)"

text \<open>A channel may be updated or removed when it is alive and no other channel is registered for its descriptor.\<close>

definition usable :: "'cb reactor \<Rightarrow> ptr \<Rightarrow> bool" where
  "usable r c =
     (case (chans r c, poll_ptr r) of
        (Some ch, Some p) \<Rightarrow> channels p (fd ch) = None \<or> channels p (fd ch) = Some c
      | _ \<Rightarrow> False)"

lemma usableE:
  assumes "reactor_ok r" and "usable r c"
  obtains ch p where "chans r c = Some ch" and "poll_ptr r = Some p" and "poller_ok (chans r) p"
    and "channels p (fd ch) = None \<or> channels p (fd ch) = Some c"
  using assms by (auto simp: usable_def reactor_ok_def split: option.splits)

lemma poller_okD:
  assumes "poller_ok cs p" and "cs c = Some ch"
  shows "index ch \<in> {kNew, kAdded, kDeleted}"
    and "index ch = kNew \<longleftrightarrow> channels p (fd ch) \<noteq> Some c"
    and "index ch = kAdded \<Longrightarrow> interest (ctl_calls p) (fd ch) = Some (events ch, c)"
  using assms by (auto simp: poller_ok_def)

lemma not_added_absent:
  assumes ok: "poller_ok cs p" and c: "cs c = Some ch" and ne: "index ch \<noteq> kAdded"
    and use: "channels p (fd ch) = None \<or> channels p (fd ch) = Some c"
  shows "interest (ctl_calls p) (fd ch) = None"
proof (rule ccontr)
  assume "\<not> ?thesis"
  then obtain e d where "interest (ctl_calls p) (fd ch) = Some (e, d)" by fastforce
  then obtain dh where d: "cs d = Some dh" "fd dh = fd ch" "index dh = kAdded" using ok by (auto simp: poller_ok_def)
  then have "channels p (fd ch) = Some d" using ok by (auto simp: poller_ok_def index_defs)
  with use d c ne show False by auto
qed

text \<open>Registering, re-registering and forgetting a channel keep the invariant.\<close>

lemma poller_ok_set:
  assumes ok: "poller_ok cs p" and c: "cs c = Some ch" and legal: "legal_calls calls"
    and same: "fd ch' = fd ch" and idx: "index ch' \<in> {kNew, kAdded, kDeleted}"
    and use: "channels p (fd ch) = None \<or> channels p (fd ch) = Some c"
    and int: "interest calls = (interest (ctl_calls p))(fd ch := (if index ch' = kAdded then Some (events ch', c) else None))"
  shows "poller_ok (cs(c \<mapsto> ch'))
    (p\<lparr>channels := (channels p)(fd ch := (if index ch' = kNew then None else Some c)), ctl_calls := calls\<rparr>)"
proof -
  have reg: "d = c" if "cs d = Some dh" "fd dh = fd ch" "index dh \<noteq> kNew" for d dh
  proof -
    have "channels p (fd ch) = Some d" using that ok by (auto simp: poller_ok_def)
    with use show ?thesis by auto
  qed
  have added: "index dh \<noteq> kNew" if "index dh = kAdded" for dh :: "'cb channel" using that by (simp add: index_defs)
  show ?thesis
    using ok c legal same idx int reg added unfolding poller_ok_def by (auto simp: index_defs)
qed

section \<open>The operations keep the invariant\<close>

definition epoll_accepts :: "(nat \<Rightarrow> int) \<Rightarrow> bool" where
  "epoll_accepts ret = (\<forall>n. 0 \<le> ret n)"

lemma epoll_update_cases:
  "epoll_update ret op c ch p = Inl Fatal_abort \<and> \<not> epoll_accepts ret \<or>
   epoll_update ret op c ch p = Inr (p\<lparr>ctl_calls := ctl_calls p @ [(op, fd ch, events ch, c)]\<rparr>)"
proof (cases "ret (length (ctl_calls p)) < 0 \<and> op \<noteq> EPOLL_CTL_DEL")
  case True
  then have "\<not> epoll_accepts ret" unfolding epoll_accepts_def by (metis not_le)
  with True show ?thesis by (simp add: epoll_update_def)
qed (auto simp: epoll_update_def)

definition next_index :: "int \<Rightarrow> ev \<Rightarrow> int" where
  "next_index i e = (if i = kAdded \<and> e = 0 then kDeleted else kAdded)"

lemma same_index: "index ch = i \<Longrightarrow> ch\<lparr>events := e, index := i\<rparr> = ch\<lparr>events := e\<rparr>"
  by (cases ch) simp

lemma change_events_cases:
  assumes ok: "reactor_ok r" and use: "usable r c" and c: "chans r c = Some ch"
  shows "change_events ret f c r = Inl Fatal_abort \<and> \<not> epoll_accepts ret \<or>
    (\<exists>p'. change_events ret f c r =
       Inr (r\<lparr>chans := (chans r)(c \<mapsto> ch\<lparr>events := f (events ch), index := next_index (index ch) (f (events ch))\<rparr>),
              poll_ptr := Some p'\<rparr>) \<and>
     poller_ok ((chans r)(c \<mapsto> ch\<lparr>events := f (events ch), index := next_index (index ch) (f (events ch))\<rparr>)) p')"
proof -
  obtain p where p: "poll_ptr r = Some p" "poller_ok (chans r) p" and
    u: "channels p (fd ch) = None \<or> channels p (fd ch) = Some c"
    using usableE [OF ok use] c by (metis option.inject)
  let ?ch = "ch\<lparr>events := f (events ch), index := next_index (index ch) (f (events ch))\<rparr>"
  have set: "poller_ok ((chans r)(c \<mapsto> ?ch)) (p\<lparr>channels := (channels p)(fd ch \<mapsto> c), ctl_calls := calls\<rparr>)"
    if "legal_calls calls" "interest calls = (interest (ctl_calls p))(fd ch := (if index ?ch = kAdded then Some (events ?ch, c) else None))"
    for calls
  proof -
    have i: "index ?ch \<in> {kNew, kAdded, kDeleted}" "index ?ch \<noteq> kNew" by (simp_all add: next_index_def index_defs)
    from poller_ok_set [OF p(2) c that(1) _ i(1) u that(2)] i(2) show ?thesis by simp
  qed
  have legal: "legal_calls (ctl_calls p)" using p(2) by (simp add: poller_ok_def)
  note d = change_events_def updateChannel_def c p(1) isNoneEvent_def kNoneEvent_def Let_def
  consider "index ch = kNew" | "index ch = kDeleted" | "index ch = kAdded"
    using poller_okD(1) [OF p(2) c] by auto
  then show ?thesis
  proof cases
    case 1
    have a: "interest (ctl_calls p) (fd ch) = None"
      using not_added_absent [OF p(2) c _ u] 1 by (simp add: index_defs)
    let ?calls = "ctl_calls p @ [(EPOLL_CTL_ADD, fd ch, f (events ch), c)]"
    have "poller_ok ((chans r)(c \<mapsto> ?ch)) (p\<lparr>channels := (channels p)(fd ch \<mapsto> c), ctl_calls := ?calls\<rparr>)"
      by (rule set) (use 1 a legal in \<open>simp_all add: next_index_def index_defs\<close>)
    then show ?thesis
      using 1 epoll_update_cases [of ret EPOLL_CTL_ADD c "ch\<lparr>events := f (events ch), index := kAdded\<rparr>" "p\<lparr>channels := (channels p)(fd ch \<mapsto> c)\<rparr>"]
      by (auto simp: d next_index_def index_defs)
  next
    case 2
    have a: "interest (ctl_calls p) (fd ch) = None"
      using not_added_absent [OF p(2) c _ u] 2 by (simp add: index_defs)
    have m: "(channels p)(fd ch \<mapsto> c) = channels p" using poller_okD(2) [OF p(2) c] 2 by (auto simp: index_defs)
    let ?calls = "ctl_calls p @ [(EPOLL_CTL_ADD, fd ch, f (events ch), c)]"
    have "poller_ok ((chans r)(c \<mapsto> ?ch)) (p\<lparr>channels := (channels p)(fd ch \<mapsto> c), ctl_calls := ?calls\<rparr>)"
      by (rule set) (use 2 a legal in \<open>simp_all add: next_index_def index_defs\<close>)
    then show ?thesis
      using 2 m epoll_update_cases [of ret EPOLL_CTL_ADD c "ch\<lparr>events := f (events ch), index := kAdded\<rparr>" p]
      by (auto simp: d next_index_def index_defs)
  next
    case 3
    have a: "interest (ctl_calls p) (fd ch) = Some (events ch, c)" using poller_okD(3) [OF p(2) c 3] .
    have m: "(channels p)(fd ch \<mapsto> c) = channels p" using poller_okD(2) [OF p(2) c] 3 by (auto simp: index_defs)
    let ?op = "if f (events ch) = 0 then EPOLL_CTL_DEL else EPOLL_CTL_MOD"
    let ?calls = "ctl_calls p @ [(?op, fd ch, f (events ch), c)]"
    have "poller_ok ((chans r)(c \<mapsto> ?ch)) (p\<lparr>channels := (channels p)(fd ch \<mapsto> c), ctl_calls := ?calls\<rparr>)"
      by (rule set) (use 3 a legal in \<open>simp_all add: next_index_def index_defs\<close>)
    then show ?thesis
      using 3 m epoll_update_cases [of ret ?op c "ch\<lparr>events := f (events ch)\<rparr>" p]
      by (cases "f (events ch) = 0") (auto simp: d next_index_def index_defs same_index)
  qed
qed

lemma removeChannel_ok:
  assumes ok: "reactor_ok r" and use: "usable r c" and c: "chans r c = Some ch"
  shows "\<exists>p'. removeChannel ret c r = Inr (r\<lparr>chans := (chans r)(c \<mapsto> ch\<lparr>index := kNew\<rparr>), poll_ptr := Some p'\<rparr>) \<and>
     poller_ok ((chans r)(c \<mapsto> ch\<lparr>index := kNew\<rparr>)) p' \<and> channels p' (fd ch) = None"
proof -
  obtain p where p: "poll_ptr r = Some p" "poller_ok (chans r) p" and
    u: "channels p (fd ch) = None \<or> channels p (fd ch) = Some c"
    using usableE [OF ok use] c by (metis option.inject)
  have legal: "legal_calls (ctl_calls p)" using p(2) by (simp add: poller_ok_def)
  define calls where "calls = (if index ch = kAdded then ctl_calls p @ [(EPOLL_CTL_DEL, fd ch, events ch, c)] else ctl_calls p)"
  have int: "interest calls = (interest (ctl_calls p))(fd ch := None)" "legal_calls calls"
    using legal poller_okD(3) [OF p(2) c] not_added_absent [OF p(2) c _ u] by (auto simp: calls_def)
  have "poller_ok ((chans r)(c \<mapsto> ch\<lparr>index := kNew\<rparr>)) (p\<lparr>channels := (channels p)(fd ch := None), ctl_calls := calls\<rparr>)"
    using poller_ok_set [OF p(2) c int(2), of "ch\<lparr>index := kNew\<rparr>"] u int(1) by (simp add: index_defs)
  then show ?thesis
    by (auto simp: removeChannel_def c p(1) Let_def calls_def epoll_update_def)
qed

text \<open>
  Filling in the returned events touches nothing but \<open>revents\<close>, and every channel it touches is alive.
\<close>

definition same_but_revents :: "'cb channel \<Rightarrow> 'cb channel \<Rightarrow> bool" where
  "same_but_revents ch ch' = (\<exists>e. ch' = ch\<lparr>revents := e\<rparr>)"

lemma fillActiveChannels_ok:
  assumes "\<forall>(e, c)\<in>set es. cs c \<noteq> None"
  shows "\<exists>cs'. fillActiveChannels es cs = Inr (map snd es, cs') \<and> rel_fun (=) (rel_option same_but_revents) cs cs' \<and>
    (distinct (map snd es) \<longrightarrow> (\<forall>(e, c)\<in>set es. \<exists>ch. cs' c = Some ch \<and> revents ch = e)) \<and>
    (\<forall>c. c \<notin> snd ` set es \<longrightarrow> cs' c = cs c)"
  using assms
proof (induction es arbitrary: cs)
  case Nil
  have "rel_option same_but_revents x x" for x :: "'a channel option"
  proof (cases x)
    case (Some ch)
    have "ch = ch\<lparr>revents := revents ch\<rparr>" by (cases ch) simp
    then have "same_but_revents ch ch" unfolding same_but_revents_def by blast
    with Some show ?thesis by simp
  qed simp
  then show ?case by (simp add: rel_fun_def)
next
  case (Cons a es)
  obtain e c ch where a: "a = (e, c)" "cs c = Some ch" using Cons.prems by (cases a) auto
  let ?cs = "cs(c \<mapsto> ch\<lparr>revents := e\<rparr>)"
  have "\<forall>(e, c)\<in>set es. ?cs c \<noteq> None" using Cons.prems by auto
  from Cons.IH [OF this] obtain cs' where cs': "fillActiveChannels es ?cs = Inr (map snd es, cs')"
    "rel_fun (=) (rel_option same_but_revents) ?cs cs'"
    "distinct (map snd es) \<longrightarrow> (\<forall>(e, c)\<in>set es. \<exists>ch. cs' c = Some ch \<and> revents ch = e)"
    "\<forall>c. c \<notin> snd ` set es \<longrightarrow> cs' c = ?cs c" by blast
  have "rel_option same_but_revents (cs d) (cs' d)" for d
  proof (cases "d = c")
    case True
    have "rel_option same_but_revents (Some (ch\<lparr>revents := e\<rparr>)) (cs' c)"
      using cs'(2) unfolding rel_fun_def by (metis fun_upd_same)
    then show ?thesis using True a(2) by (cases "cs' c") (auto simp: same_but_revents_def)
  next
    case False
    then show ?thesis using cs'(2) unfolding rel_fun_def by (metis fun_upd_other)
  qed
  moreover have "\<exists>ch. cs' c = Some ch \<and> revents ch = e" if "c \<notin> snd ` set es"
    using cs'(4) that by simp
  ultimately show ?case using a cs' by (auto simp: rel_fun_def)
qed

lemma poller_ok_same_but_revents:
  assumes rel: "rel_fun (=) (rel_option same_but_revents) cs cs'" and ok: "poller_ok cs p"
  shows "poller_ok cs' p"
proof -
  have r: "rel_option same_but_revents (cs c) (cs' c)" for c using rel by (simp add: rel_fun_def)
  have 1: "\<exists>ch. cs c = Some ch \<and> fd ch = fd ch' \<and> index ch = index ch' \<and> events ch = events ch'" if "cs' c = Some ch'" for c ch'
    using r [of c] that by (cases "cs c") (auto simp: same_but_revents_def)
  have 2: "\<exists>ch'. cs' c = Some ch' \<and> fd ch' = fd ch \<and> index ch' = index ch \<and> events ch' = events ch" if "cs c = Some ch" for c ch
    using r [of c] that by (cases "cs' c") (auto simp: same_but_revents_def)
  have "(\<exists>ch. cs c = Some ch \<and> P (fd ch) (index ch) (events ch)) \<longleftrightarrow> (\<exists>ch. cs' c = Some ch \<and> P (fd ch) (index ch) (events ch))"
    for c and P :: "int \<Rightarrow> int \<Rightarrow> ev \<Rightarrow> bool"
    using 1 2 by metis
  from this [where P = "\<lambda>a b e. a = f \<and> b \<noteq> kNew" for f] this [where P = "\<lambda>a b x. a = f \<and> b = kAdded \<and> x = e" for f e]
  show ?thesis using ok 1 unfolding poller_ok_def by simp (metis)
qed

definition wait_contract :: "'cb reactor \<Rightarrow> (ev \<times> ptr) list \<Rightarrow> bool" where
  "wait_contract r es =
     (case poll_ptr r of None \<Rightarrow> False
      | Some p \<Rightarrow> length es \<le> event_slots p \<and> distinct (map snd es) \<and>
          (\<forall>(e, c)\<in>set es. \<exists>f m. interest (ctl_calls p) f = Some (m, c)))"

lemma poll_ok:
  assumes ok: "reactor_ok r" and wait: "wait_contract r es"
  shows "\<exists>r'. poll (Inr es) r = Inr (map snd es, r') \<and> reactor_ok r' \<and>
    rel_fun (=) (rel_option same_but_revents) (chans r) (chans r') \<and>
    (\<forall>(e, c)\<in>set es. \<exists>ch. chans r' c = Some ch \<and> revents ch = e)"
proof -
  obtain p where p: "poll_ptr r = Some p" "poller_ok (chans r) p" using ok by (auto simp: reactor_ok_def split: option.splits)
  have d: "distinct (map snd es)" using wait p(1) by (simp add: wait_contract_def)
  have "\<forall>(e, c)\<in>set es. chans r c \<noteq> None"
  proof (clarify)
    fix e c assume "(e, c) \<in> set es"
    then obtain f m where "interest (ctl_calls p) f = Some (m, c)" using wait p(1) by (auto simp: wait_contract_def)
    then have "\<exists>ch. chans r c = Some ch" using p(2) unfolding poller_ok_def by blast
    then show "\<exists>y. chans r c = Some y" .
  qed
  from fillActiveChannels_ok [OF this] d obtain cs where cs: "fillActiveChannels es (chans r) = Inr (map snd es, cs)"
    "rel_fun (=) (rel_option same_but_revents) (chans r) cs" "\<forall>(e, c)\<in>set es. \<exists>ch. cs c = Some ch \<and> revents ch = e" by blast
  have "poller_ok cs p" by (rule poller_ok_same_but_revents [OF cs(2) p(2)])
  moreover have "poller_ok cs (p\<lparr>event_slots := n\<rparr>)" if "poller_ok cs p" for n using that by (simp add: poller_ok_def)
  ultimately show ?thesis using cs p by (cases "es = []") (auto simp: poll_def reactor_ok_def)
qed

section \<open>Masks\<close>

lemma bit_tests:
  fixes w :: ev
  shows "w AND EPOLLIN \<noteq> 0 \<longleftrightarrow> bit w 0" and "w AND EPOLLPRI \<noteq> 0 \<longleftrightarrow> bit w 1" and "w AND EPOLLOUT \<noteq> 0 \<longleftrightarrow> bit w 2"
    and "w AND EPOLLERR \<noteq> 0 \<longleftrightarrow> bit w 3" and "w AND EPOLLHUP \<noteq> 0 \<longleftrightarrow> bit w 4"
  using and_exp_eq_0_iff_not_bit [of w 0] and_exp_eq_0_iff_not_bit [of w 1] and_exp_eq_0_iff_not_bit [of w 2]
    and_exp_eq_0_iff_not_bit [of w 3] and_exp_eq_0_iff_not_bit [of w 4]
  by (simp_all add: event_bits)

lemma read_test: "(w :: ev) AND (EPOLLIN OR EPOLLPRI) \<noteq> 0 \<longleftrightarrow> bit w 0 \<or> bit w 1"
proof -
  have "w AND (EPOLLIN OR EPOLLPRI) = (w AND EPOLLIN) OR (w AND EPOLLPRI)"
    by (simp add: bit_eq_iff bit_simps) blast
  then show ?thesis using bit_tests(1,2) [of w] by (simp add: or_eq_0_iff)
qed

lemma isWriting_bit: "isWriting ch \<longleftrightarrow> bit (events ch) 2"
  using bit_tests(3) by (simp add: isWriting_def kWriteEvent_def)

lemma isReading_bit: "isReading ch \<longleftrightarrow> bit (events ch) 0 \<or> bit (events ch) 1"
  using read_test by (simp add: isReading_def kReadEvent_def)

lemma write_mask_bits:
  fixes w :: ev
  shows "bit (w OR kWriteEvent) 2" and "\<not> bit (w AND NOT kWriteEvent) 2"
    and "n \<noteq> 2 \<Longrightarrow> bit (w OR kWriteEvent) n = bit w n" and "n \<noteq> 2 \<Longrightarrow> bit (w AND NOT kWriteEvent) n = bit w n"
    and "bit (w OR kReadEvent) 2 = bit w 2" and "bit (w OR kReadEvent) 0"
proof -
  have k: "kWriteEvent = 2 ^ 2" "kReadEvent = 2 ^ 0 OR 2 ^ 1" by (simp_all add: event_bits)
  show "bit (w OR kWriteEvent) 2" "\<not> bit (w AND NOT kWriteEvent) 2"
    "n \<noteq> 2 \<Longrightarrow> bit (w OR kWriteEvent) n = bit w n" "bit (w OR kReadEvent) 2 = bit w 2" "bit (w OR kReadEvent) 0"
    unfolding k bit_or_iff bit_and_iff bit_not_iff bit_exp_iff by simp_all
  show "bit (w AND NOT kWriteEvent) n = bit w n" if "n \<noteq> 2"
    using that bit_imp_le_length [of w n] unfolding k bit_and_iff bit_not_iff bit_exp_iff by auto
qed

section \<open>The demultiplexer interface\<close>

text \<open>
  What the users of a poller rely on (\<^verbatim>\<open>class Poller\<close> is abstract): each channel has a mask, and the events the kernel
  watches for a channel are those of the mask it last asked for, whatever other channels did since.
\<close>

datatype 'c request = Change (req_mask: "ev \<Rightarrow> ev") (target: 'c) | Forget (target: 'c)

fun serve :: "('s \<Rightarrow> 'c \<Rightarrow> bool) \<Rightarrow> ((ev \<Rightarrow> ev) \<Rightarrow> 'c \<Rightarrow> 's \<Rightarrow> 's result) \<Rightarrow> ('c \<Rightarrow> 's \<Rightarrow> 's result) \<Rightarrow>
    'c request list \<Rightarrow> 's \<Rightarrow> 's result" where
  "serve able upd rem [] s = Inr s"
| "serve able upd rem (q # qs) s =
     (if able s (target q)
      then bind_result (case q of Change f c \<Rightarrow> upd f c s | Forget c \<Rightarrow> rem c s) (serve able upd rem qs)
      else Inl Runtime_error)"

text \<open>The mask that a channel has after a list of requests: each change of its own applies to the mask before, nothing else matters.\<close>

fun asked :: "'c \<Rightarrow> 'c request list \<Rightarrow> ev \<Rightarrow> ev" where
  "asked c [] m = m"
| "asked c (Change f d # qs) m = asked c qs (if d = c then f m else m)"
| "asked c (Forget d # qs) m = asked c qs m"

locale demultiplexer =
  fixes inv :: "'s \<Rightarrow> bool" and able :: "'s \<Rightarrow> 'c \<Rightarrow> bool"
    and mask watch :: "'s \<Rightarrow> 'c \<Rightarrow> ev option"
    and upd :: "(ev \<Rightarrow> ev) \<Rightarrow> 'c \<Rightarrow> 's \<Rightarrow> 's result" and rem :: "'c \<Rightarrow> 's \<Rightarrow> 's result"
  assumes upd_ok: "inv s \<Longrightarrow> able s c \<Longrightarrow> upd f c s = Inr s' \<Longrightarrow>
      inv s' \<and> mask s' = (mask s)(c := map_option f (mask s c)) \<and> (\<forall>d. d \<noteq> c \<longrightarrow> watch s' d = watch s d)"
    and upd_watch: "inv s \<Longrightarrow> able s c \<Longrightarrow> upd f c s = Inr s' \<Longrightarrow> mask s' c \<noteq> Some 0 \<Longrightarrow> watch s' c = mask s' c"
    and rem_ok: "inv s \<Longrightarrow> able s c \<Longrightarrow> rem c s = Inr s' \<Longrightarrow>
      inv s' \<and> mask s' = mask s \<and> watch s' c = None \<and> (\<forall>d. d \<noteq> c \<longrightarrow> watch s' d = watch s d)"
    and watch_mask: "inv s \<Longrightarrow> watch s c = Some e \<Longrightarrow> mask s c = Some e"
begin

lemma serve_inv: "inv s \<Longrightarrow> serve able upd rem qs s = Inr s' \<Longrightarrow> inv s'"
  by (induction qs arbitrary: s) (auto split: if_splits request.splits dest: upd_ok rem_ok)

lemma serve_append: "serve able upd rem (xs @ ys) s = bind_result (serve able upd rem xs s) (serve able upd rem ys)"
proof (induction xs arbitrary: s)
  case (Cons q qs)
  show ?case
  proof (cases "case q of Change f c \<Rightarrow> upd f c s | Forget c \<Rightarrow> rem c s")
    case (Inr t)
    then show ?thesis by (simp add: Cons.IH)
  qed simp
qed simp

lemma serve_frame:
  assumes "inv s" and "serve able upd rem qs s = Inr s'" and "\<forall>q\<in>set qs. target q \<noteq> c"
  shows "watch s' c = watch s c \<and> mask s' c = mask s c"
  using assms
proof (induction qs arbitrary: s)
  case (Cons q qs)
  from Cons.prems obtain t where t: "able s (target q)" "(case q of Change f c \<Rightarrow> upd f c s | Forget c \<Rightarrow> rem c s) = Inr t"
    "serve able upd rem qs t = Inr s'" by (auto split: if_splits)
  have "inv t \<and> watch t c = watch s c \<and> mask t c = mask s c"
  proof (cases q)
    case (Change f d)
    then show ?thesis using upd_ok [OF Cons.prems(1), of d f t] t Cons.prems(3) by auto
  next
    case (Forget d)
    then show ?thesis using rem_ok [OF Cons.prems(1), of d t] t Cons.prems(3) by auto
  qed
  with Cons.IH [of t] Cons.prems(3) t(3) show ?case by simp
qed simp

lemma asked_Nil: "asked c [] = (\<lambda>m. m)"
  by (rule ext) simp

lemma serve_mask:
  assumes "inv s" and "serve able upd rem qs s = Inr s'"
  shows "mask s' c = map_option (asked c qs) (mask s c)"
  using assms
proof (induction qs arbitrary: s)
  case (Cons q qs)
  from Cons.prems obtain t where t: "able s (target q)" "(case q of Change f c \<Rightarrow> upd f c s | Forget c \<Rightarrow> rem c s) = Inr t"
    "serve able upd rem qs t = Inr s'" by (auto split: if_splits)
  show ?case
  proof (cases q)
    case (Change f d)
    then have "inv t" "mask t = (mask s)(d := map_option f (mask s d))" using upd_ok [OF Cons.prems(1), of d f t] t by auto
    then show ?thesis using Cons.IH [of t] t(3) Change by (simp add: option.map_comp comp_def)
  next
    case (Forget d)
    then show ?thesis using rem_ok [OF Cons.prems(1), of d t] t Cons.IH [of t] by simp
  qed
qed (simp add: asked_Nil option.map_ident)

lemma last_request:
  assumes "inv s" and "serve able upd rem (xs @ q # ys) s = Inr s'" and "\<forall>r\<in>set ys. target r \<noteq> target q"
    and "mask s (target q) = Some m"
  shows "mask s' (target q) = Some (asked (target q) (xs @ [q]) m)"
    and "case q of Change f c \<Rightarrow> if asked c (xs @ [q]) m \<noteq> 0 then watch s' c = Some (asked c (xs @ [q]) m) else watch s' c \<in> {None, Some 0}
       | Forget c \<Rightarrow> watch s' c = None"
proof -
  from assms(2) obtain t u where t: "serve able upd rem xs s = Inr t" "able t (target q)"
    "(case q of Change f c \<Rightarrow> upd f c t | Forget c \<Rightarrow> rem c t) = Inr u" "serve able upd rem ys u = Inr s'"
    by (auto simp: serve_append split: if_splits)
  have it: "inv t" using serve_inv [OF assms(1) t(1)] .
  have iu: "inv u" using t(2,3) upd_ok [OF it] rem_ok [OF it] by (auto split: request.splits)
  have is': "inv s'" using serve_inv [OF iu t(4)] .
  have "serve able upd rem (xs @ [q]) s = Inr u" using t(1-3) by (simp add: serve_append)
  then have mu: "mask u (target q) = Some (asked (target q) (xs @ [q]) m)" using serve_mask [OF assms(1)] assms(4) by simp
  note fr = serve_frame [OF iu t(4) assms(3)]
  show m': "mask s' (target q) = Some (asked (target q) (xs @ [q]) m)" using fr mu by simp
  have none: "watch s' c = None \<or> watch s' c = Some (the (mask s' c))" for c
    using watch_mask [OF is', of c] by (cases "watch s' c") auto
  show "case q of Change f c \<Rightarrow> if asked c (xs @ [q]) m \<noteq> 0 then watch s' c = Some (asked c (xs @ [q]) m) else watch s' c \<in> {None, Some 0}
       | Forget c \<Rightarrow> watch s' c = None"
  proof (cases q)
    case (Change f c)
    then show ?thesis using upd_watch [OF it, of c f u] t(2,3) fr mu none [of c] m' by auto
  next
    case (Forget c)
    then show ?thesis using rem_ok [OF it, of c u] t(2,3) fr by simp
  qed
qed

end

definition mask_of :: "'cb reactor \<Rightarrow> ptr \<Rightarrow> ev option" where
  "mask_of r c = map_option events (chans r c)"

definition watched :: "'cb reactor \<Rightarrow> ptr \<Rightarrow> ev option" where
  "watched r c =
     (case (chans r c, poll_ptr r) of
        (Some ch, Some p) \<Rightarrow> (case interest (ctl_calls p) (fd ch) of None \<Rightarrow> None | Some (e, d) \<Rightarrow> if d = c then Some e else None)
      | _ \<Rightarrow> None)"

lemma watched_ok:
  assumes "reactor_ok r"
  shows "watched r c = (case chans r c of None \<Rightarrow> None | Some ch \<Rightarrow> if index ch = kAdded then Some (events ch) else None)"
proof (cases "chans r c")
  case (Some ch)
  obtain p where p: "poll_ptr r = Some p" "poller_ok (chans r) p"
    using assms by (auto simp: reactor_ok_def split: option.splits)
  show ?thesis
  proof (cases "interest (ctl_calls p) (fd ch)")
    case None
    then show ?thesis using poller_okD(3) [OF p(2) Some] p(1) Some by (auto simp: watched_def)
  next
    case (Some x)
    obtain e d where x: "x = (e, d)" by (cases x)
    then obtain dh where "chans r d = Some dh" "index dh = kAdded" "events dh = e" "fd dh = fd ch"
      using p(2) Some unfolding poller_ok_def by blast
    then show ?thesis using poller_okD(3) [OF p(2) \<open>chans r c = Some ch\<close>] p(1) Some x \<open>chans r c = Some ch\<close>
      by (auto simp: watched_def)
  qed
qed (simp add: watched_def)

lemma change_events_Inr:
  assumes "reactor_ok r" and "usable r c" and "change_events ret f c r = Inr r'"
  obtains ch where "chans r c = Some ch" and "reactor_ok r'"
    and "chans r' = (chans r)(c \<mapsto> ch\<lparr>events := f (events ch), index := next_index (index ch) (f (events ch))\<rparr>)"
proof -
  obtain ch where ch: "chans r c = Some ch" using assms(2) by (auto simp: usable_def split: option.splits)
  from change_events_cases [OF assms(1,2) ch, of ret f] assms(3) show ?thesis
    using that [OF ch] by (auto simp: reactor_ok_def)
qed

lemma removeChannel_Inr:
  assumes "reactor_ok r" and "usable r c" and "removeChannel ret c r = Inr r'"
  obtains ch where "chans r c = Some ch" and "reactor_ok r'" and "chans r' = (chans r)(c \<mapsto> ch\<lparr>index := kNew\<rparr>)"
proof -
  obtain ch where ch: "chans r c = Some ch" using assms(2) by (auto simp: usable_def split: option.splits)
  from removeChannel_ok [OF assms(1,2) ch, of ret] assms(3) show ?thesis
    using that [OF ch] by (auto simp: reactor_ok_def)
qed

interpretation epoll: demultiplexer reactor_ok usable mask_of watched "change_events ret" "removeChannel ret" for ret
proof
  fix r r' :: "'cb reactor" and c f
  assume a: "reactor_ok r" "usable r c" "change_events ret f c r = Inr r'"
  then obtain ch where ch: "chans r c = Some ch" "reactor_ok r'"
    "chans r' = (chans r)(c \<mapsto> ch\<lparr>events := f (events ch), index := next_index (index ch) (f (events ch))\<rparr>)"
    by (rule change_events_Inr)
  then show "reactor_ok r' \<and> mask_of r' = (mask_of r)(c := map_option f (mask_of r c)) \<and> (\<forall>d. d \<noteq> c \<longrightarrow> watched r' d = watched r d)"
    using a(1) by (auto simp: mask_of_def watched_ok)
  show "mask_of r' c \<noteq> Some 0 \<Longrightarrow> watched r' c = mask_of r' c"
    using ch a(1) by (auto simp: mask_of_def watched_ok next_index_def)
next
  fix r r' :: "'cb reactor" and c
  assume a: "reactor_ok r" "usable r c" "removeChannel ret c r = Inr r'"
  then obtain ch where "chans r c = Some ch" "reactor_ok r'" "chans r' = (chans r)(c \<mapsto> ch\<lparr>index := kNew\<rparr>)"
    by (rule removeChannel_Inr)
  then show "reactor_ok r' \<and> mask_of r' = mask_of r \<and> watched r' c = None \<and> (\<forall>d. d \<noteq> c \<longrightarrow> watched r' d = watched r d)"
    using a(1) by (auto simp: mask_of_def watched_ok index_defs)
next
  fix r :: "'cb reactor" and c e
  assume "reactor_ok r" "watched r c = Some e"
  then show "mask_of r c = Some e" by (auto simp: mask_of_def watched_ok split: option.splits if_splits)
qed

text \<open>What the owner of a channel gets from one of its own requests when the kernel accepts it.\<close>

lemma own_change:
  assumes ok: "reactor_ok r" and use: "usable r c" and acc: "epoll_accepts ret" and m: "mask_of r c = Some m"
  shows "\<exists>r'. change_events ret f c r = Inr r' \<and> reactor_ok r' \<and> usable r' c \<and> mask_of r' c = Some (f m)"
proof -
  obtain ch where ch: "chans r c = Some ch" "events ch = m" using m by (auto simp: mask_of_def)
  from change_events_cases [OF ok use ch(1), of ret f] acc obtain r' where r': "change_events ret f c r = Inr r'" by blast
  obtain p' where ok': "reactor_ok r'" and p': "poll_ptr r' = Some p'" "poller_ok (chans r') p'"
    and c': "chans r' c = Some (ch\<lparr>events := f m, index := next_index (index ch) (f m)\<rparr>)"
    using change_events_Inr [OF ok use r'] ch by (fastforce simp: reactor_ok_def split: option.splits)
  have "usable r' c"
    using poller_okD(2) [OF p'(2) c'] p'(1) c' by (simp add: usable_def next_index_def index_defs split: if_splits)
  with r' ok' c' show ?thesis by (simp add: mask_of_def)
qed

lemma own_remove:
  assumes ok: "reactor_ok r" and use: "usable r c" and m: "mask_of r c = Some m"
  shows "\<exists>r'. removeChannel ret c r = Inr r' \<and> reactor_ok r' \<and> watched r' c = None \<and> mask_of r' c = Some m"
proof -
  obtain ch where "chans r c = Some ch" using m by (auto simp: mask_of_def)
  from removeChannel_ok [OF ok use this, of ret] obtain r' where r': "removeChannel ret c r = Inr r'" by blast
  from epoll.rem_ok [OF ok use r'] m r' show ?thesis by auto
qed

section \<open>All runs of a reactor\<close>

text \<open>
  The ways the objects of a loop thread use the reactor: they create channels, change masks, remove a channel, destroy
  one that is no longer registered, and the loop polls.
\<close>

inductive reactor_step :: "(nat \<Rightarrow> int) \<Rightarrow> 'cb reactor \<Rightarrow> 'cb reactor \<Rightarrow> bool" for ret where
  create: "chans r c = None \<Longrightarrow> reactor_step ret r (r\<lparr>chans := (chans r)(c \<mapsto> Channel f)\<rparr>)"
| change: "usable r c \<Longrightarrow> change_events ret g c r = Inr r' \<Longrightarrow> reactor_step ret r r'"
| remove: "usable r c \<Longrightarrow> removeChannel ret c r = Inr r' \<Longrightarrow> reactor_step ret r r'"
| destroy: "chans r c = Some ch \<Longrightarrow> index ch = kNew \<Longrightarrow> reactor_step ret r (r\<lparr>chans := (chans r)(c := None)\<rparr>)"
| polled: "wait_contract r es \<Longrightarrow> poll (Inr es) r = Inr (active, r') \<Longrightarrow> reactor_step ret r r'"

definition reactor_init :: "'cb reactor \<Rightarrow> bool" where
  "reactor_init r = (\<exists>p fd. EPollPoller fd = Inr p \<and> r = \<lparr>chans = Map.empty, poll_ptr = Some p\<rparr>)"

lemma reactor_ok_drop:
  assumes ok: "reactor_ok r" and c: "\<forall>ch. chans r c = Some ch \<longrightarrow> index ch = kNew" and new: "\<forall>ch. x = Some ch \<longrightarrow> index ch = kNew"
  shows "reactor_ok (r\<lparr>chans := (chans r)(c := x)\<rparr>)"
proof -
  obtain p where p: "poll_ptr r = Some p" "poller_ok (chans r) p"
    using ok by (auto simp: reactor_ok_def split: option.splits)
  let ?cs = "(chans r)(c := x)"
  have eq: "(\<exists>ch. ?cs d = Some ch \<and> fd ch = f \<and> index ch \<noteq> kNew) \<longleftrightarrow> (\<exists>ch. chans r d = Some ch \<and> fd ch = f \<and> index ch \<noteq> kNew)" for d f
    using c new by auto
  have eq': "(\<exists>ch. ?cs d = Some ch \<and> fd ch = f \<and> index ch = kAdded \<and> events ch = e) \<longleftrightarrow>
      (\<exists>ch. chans r d = Some ch \<and> fd ch = f \<and> index ch = kAdded \<and> events ch = e)" for d f e
    using c new by (auto simp: index_defs)
  have "\<forall>d ch. ?cs d = Some ch \<longrightarrow> index ch \<in> {kNew, kAdded, kDeleted}"
    using p(2) new by (auto simp: poller_ok_def)
  then have "poller_ok ?cs p"
    using p(2) unfolding poller_ok_def eq eq' by blast
  with p(1) show ?thesis by (simp add: reactor_ok_def)
qed

lemma reactor_step_ok:
  assumes "reactor_ok r" and "reactor_step ret r r'"
  shows "reactor_ok r'"
  using assms(2,1)
proof cases
  case (create c f)
  have "reactor_ok (r\<lparr>chans := (chans r)(c := Some (Channel f))\<rparr>)"
    by (rule reactor_ok_drop) (use assms(1) create in \<open>simp_all add: Channel_def kNew_def\<close>)
  with create show ?thesis by simp
next
  case (change c g)
  then show ?thesis using assms(1) change_events_Inr by metis
next
  case (remove c)
  then show ?thesis using assms(1) removeChannel_Inr by metis
next
  case (destroy c ch)
  have "reactor_ok (r\<lparr>chans := (chans r)(c := None)\<rparr>)"
    by (rule reactor_ok_drop) (use assms(1) destroy in simp_all)
  with destroy show ?thesis by simp
next
  case (polled es active)
  then show ?thesis using poll_ok [OF assms(1) polled(1)] by auto
qed

lemma reactor_reach_ok:
  assumes "reach reactor_init (reactor_step ret) r"
  shows "reactor_ok r"
  using assms
proof (rule reach_invariant)
  fix s :: "'a reactor" assume "reactor_init s"
  then show "reactor_ok s"
    by (auto simp: reactor_init_def EPollPoller_def reactor_ok_def poller_ok_def split: if_splits)
qed (rule reactor_step_ok)

section \<open>Properties\<close>

text \<open>C13: in every state a loop thread can reach, every call of \<^verbatim>\<open>epoll_ctl\<close> made so far was one the kernel does not refuse
  (no descriptor added twice, none changed or removed that is absent), the interest list holds exactly the channels marked as added,
  with their current masks, and any change of a channel's mask ends normally as long as the kernel accepts the call.\<close>

theorem epoll_calls_legal:
  assumes "reach reactor_init (reactor_step ret) r"
  shows "\<exists>p. poll_ptr r = Some p \<and> legal_calls (ctl_calls p) \<and>
    (\<forall>f e c. interest (ctl_calls p) f = Some (e, c) \<longleftrightarrow>
       (\<exists>ch. chans r c = Some ch \<and> fd ch = f \<and> index ch = kAdded \<and> events ch = e)) \<and>
    (\<forall>c g. epoll_accepts ret \<longrightarrow> usable r c \<longrightarrow> (\<exists>r'. change_events ret g c r = Inr r'))"
proof -
  have ok: "reactor_ok r" using assms by (rule reactor_reach_ok)
  then obtain p where p: "poll_ptr r = Some p" "poller_ok (chans r) p" by (auto simp: reactor_ok_def split: option.splits)
  have "\<exists>r'. change_events ret g c r = Inr r'" if "epoll_accepts ret" "usable r c" for c g
  proof -
    obtain ch where "chans r c = Some ch" using \<open>usable r c\<close> by (auto simp: usable_def split: option.splits)
    from change_events_cases [OF ok \<open>usable r c\<close> this, of ret g] that(1) show ?thesis by blast
  qed
  with p show ?thesis unfolding poller_ok_def by blast
qed

definition sample_poller :: poller where
  "sample_poller = \<lparr>channels = Map.empty, event_slots = 16, ctl_calls = []\<rparr>"

definition sample_reactor :: "string reactor" where
  "sample_reactor = \<lparr>chans = [7 \<mapsto> Channel 5], poll_ptr = Some sample_poller\<rparr>"

lemma sample_reactor_reach: "reach reactor_init (reactor_step (\<lambda>n. 0)) sample_reactor"
proof -
  let ?r = "\<lparr>chans = Map.empty, poll_ptr = Some sample_poller\<rparr> :: string reactor"
  have "EPollPoller 3 = Inr sample_poller" by (simp add: EPollPoller_def sample_poller_def kInitEventListSize_def)
  then have "reactor_init ?r" unfolding reactor_init_def by blast
  then have "reach reactor_init (reactor_step (\<lambda>n. 0)) ?r" by (rule reach.reach_init)
  moreover have "reactor_step (\<lambda>n. 0) ?r (?r\<lparr>chans := (chans ?r)(7 \<mapsto> Channel 5)\<rparr>)"
    by (rule reactor_step.create) simp
  ultimately show ?thesis unfolding sample_reactor_def by (auto intro: reach.reach_step)
qed

theorem epoll_calls_legal_witness:
  "\<exists>r'. change_events (\<lambda>n. 0) (\<lambda>e. e OR kReadEvent) 7 sample_reactor = Inr r'"
  using epoll_calls_legal [OF sample_reactor_reach]
  by (auto simp: epoll_accepts_def usable_def sample_reactor_def sample_poller_def Channel_def)

text \<open>C25: whatever sequence of changes and removals of channels is carried out, a channel has afterwards the mask that its own requests,
  taken one after the other, make of the mask it started with (\<open>asked\<close>), whatever other channels requested in between. After a change the kernel
  watches exactly this mask, if it is not empty, and otherwise no event at all; after a removal it does not watch the channel.\<close>

theorem kernel_watches_last_mask:
  assumes "reactor_ok r"
    and "serve usable (change_events ret) (removeChannel ret) (xs @ q # ys) r = Inr r'"
    and "\<forall>x\<in>set ys. target x \<noteq> target q" and "mask_of r (target q) = Some m"
  shows "mask_of r' (target q) = Some (asked (target q) (xs @ [q]) m) \<and>
    (case q of Change f c \<Rightarrow>
        if asked c (xs @ [q]) m \<noteq> 0 then watched r' c = Some (asked c (xs @ [q]) m) else watched r' c \<in> {None, Some 0}
     | Forget c \<Rightarrow> watched r' c = None)"
  using epoll.last_request [OF assms] by blast

definition sample_pair :: "string reactor" where
  "sample_pair = \<lparr>chans = [7 \<mapsto> Channel 5, 8 \<mapsto> Channel 6], poll_ptr = Some sample_poller\<rparr>"

lemma sample_pair_ok: "reactor_ok sample_pair"
  by (auto simp: sample_pair_def sample_poller_def reactor_ok_def poller_ok_def Channel_def kNew_def kAdded_def)

theorem kernel_watches_last_mask_witness:
  "\<exists>r'. serve usable (change_events (\<lambda>n. 0)) (removeChannel (\<lambda>n. 0))
     [Change (\<lambda>e. e OR kReadEvent) 7, Change (\<lambda>e. e OR kWriteEvent) 8] sample_pair = Inr r' \<and> watched r' 7 = Some 3"
proof -
  obtain r' where r': "serve usable (change_events (\<lambda>n. 0)) (removeChannel (\<lambda>n. 0))
      ([] @ Change (\<lambda>e. e OR kReadEvent) (7 :: ptr) # [Change (\<lambda>e. e OR kWriteEvent) 8]) sample_pair = Inr r'"
    by (simp add: sample_pair_def sample_poller_def usable_def change_events_def updateChannel_def Channel_def
        event_bits index_defs epoll_update_def isNoneEvent_def)
  have "mask_of sample_pair 7 = Some 0" by (simp add: mask_of_def sample_pair_def Channel_def)
  with kernel_watches_last_mask [OF sample_pair_ok r'] r' show ?thesis by (auto simp: event_bits)
qed

text \<open>\<open>poll\<close> reports every channel the kernel returned, in that order, each alive and carrying the returned events, changes nothing
  else of any channel, and keeps the invariant.\<close>

theorem poll_reports_live_channels:
  assumes "reactor_ok r" and "wait_contract r es"
  shows "\<exists>r'. poll (Inr es) r = Inr (map snd es, r') \<and> reactor_ok r' \<and>
    (\<forall>(e, c)\<in>set es. \<exists>ch. chans r' c = Some ch \<and> revents ch = e) \<and>
    (\<forall>c. mask_of r' c = mask_of r c \<and> watched r' c = watched r c)"
proof -
  obtain r' where r': "poll (Inr es) r = Inr (map snd es, r')" "reactor_ok r'"
    "rel_fun (=) (rel_option same_but_revents) (chans r) (chans r')"
    "\<forall>(e, c)\<in>set es. \<exists>ch. chans r' c = Some ch \<and> revents ch = e"
    using poll_ok [OF assms] by blast
  have "mask_of r' c = mask_of r c \<and> watched r' c = watched r c" for c
  proof -
    have "rel_option same_but_revents (chans r c) (chans r' c)" using r'(3) by (simp add: rel_fun_def)
    then show ?thesis
      by (cases "chans r c"; cases "chans r' c") (auto simp: mask_of_def watched_ok [OF assms(1)] watched_ok [OF r'(2)] same_but_revents_def)
  qed
  with r' show ?thesis by blast
qed

definition sample_watching :: "string reactor" where
  "sample_watching = \<lparr>chans = [7 \<mapsto> (Channel 5)\<lparr>events := 3, index := kAdded\<rparr>],
     poll_ptr = Some \<lparr>channels = [5 \<mapsto> 7], event_slots = 16, ctl_calls = [(EPOLL_CTL_ADD, 5, 3, 7)]\<rparr>\<rparr>"

theorem poll_reports_live_channels_witness:
  "\<exists>r'. poll (Inr [(1, 7)]) sample_watching = Inr ([7], r') \<and> (\<exists>ch. chans r' 7 = Some ch \<and> revents ch = 1) \<and> watched r' 7 = Some 3"
proof -
  have "legal_calls ([] @ [(EPOLL_CTL_ADD, 5, 3, 7)])" by (simp only: legal_calls_snoc) simp
  then have ok: "reactor_ok sample_watching"
    by (auto simp: sample_watching_def reactor_ok_def poller_ok_def Channel_def index_defs interest_def split: if_splits)
  moreover have "wait_contract sample_watching [(1, 7)]"
    by (auto simp: sample_watching_def wait_contract_def interest_def)
  ultimately show ?thesis
    using poll_reports_live_channels [of sample_watching "[(1, 7)]"] watched_ok [OF ok, of 7]
    by (auto simp: sample_watching_def)
qed

text \<open>the dispatch of returned events. When the owner of a tied channel is gone nothing runs; otherwise the callbacks that are set run once each in the
  order close, error, read, write: close on a hang-up without readable data, error on an error condition, read on readable or urgent data,
  write on writability.\<close>

theorem event_dispatch:
  "handleEvent (\<lambda>cb t s. Inr (s @ [(cb, t)])) lock t ch s = Inr (s @
     (if tied ch \<and> \<not> lock (tie ch) s then []
      else map (\<lambda>cb. (cb, t)) (List.map_filter (\<lambda>(due, cb). if due then cb else None)
        [(bit (revents ch) 4 \<and> \<not> bit (revents ch) 0, closeCallback ch), (bit (revents ch) 3, errorCallback ch),
         (bit (revents ch) 0 \<or> bit (revents ch) 1, readCallback ch), (bit (revents ch) 2, writeCallback ch)])))"
proof -
  have call: "call_cb (\<lambda>cb t s. Inr (s @ [(cb, t)])) cb t s = Inr (s @ (case cb of None \<Rightarrow> [] | Some f \<Rightarrow> [(f, t)]))" for cb s
    by (simp add: call_cb_def split: option.splits)
  show ?thesis
    unfolding handleEvent_def handleEventWithGuard_def bit_tests read_test call
    by (simp add: map_filter_simps split: option.splits)
qed

end
