(* ===== verification/Timers.thy ===== *)
theory Timers
  imports Prelude "HOL-Library.Product_Lexorder" "HOL-Library.Log_Nat"
begin

text \<open>
  Timers: \<^verbatim>\<open>include/Timestamp.h\<close>, \<^verbatim>\<open>src/Timestamp.cc\<close>, \<^verbatim>\<open>include/Timer.h\<close>, \<^verbatim>\<open>src/Timer.cc\<close> and the timer queue
  \<^verbatim>\<open>include/TimerQueue.h\<close>, \<^verbatim>\<open>src/TimerQueue.cc\<close>. The ordered set \<^verbatim>\<open>std::set<std::pair<Timestamp, Timer*>>\<close>
  is a strictly sorted list under the lexicographic order of pairs; the \<open>Timer\<close> objects live in a
  store indexed by their addresses, so that \<^verbatim>\<open>delete\<close> and a use after it are visible. The readings of
  the clock are a parameter, and so are the timers a callback adds when it runs.
\<close>

section \<open>Timestamps\<close>

definition kMicroSecondsPerSecond :: int where "kMicroSecondsPerSecond = 1000 * 1000"

text \<open>A timestamp is its \<open>microSecondsSinceEpoch_\<close>, here an unbounded integer; \<open>gettimeofday\<close> gives seconds and microseconds.\<close>

definition Timestamp_now :: "int \<Rightarrow> int \<Rightarrow> int" where
  "Timestamp_now tv_sec tv_usec = tv_sec * kMicroSecondsPerSecond + tv_usec"

definition secondsSinceEpoch :: "int \<Rightarrow> int" where
  "secondsSinceEpoch t = c_div t kMicroSecondsPerSecond"

text \<open>
  A finite \<^verbatim>\<open>double\<close> is \<open>mant * 2 ^ expo\<close>. Multiplying by the constant rounds the product to 53
  significant bits, ties to even; the conversion to \<^verbatim>\<open>int64_t\<close> cuts the fraction.
\<close>

datatype dbl = Dbl (mant: int) (expo: int)

definition round53 :: "int \<Rightarrow> int \<times> nat" where
  "round53 m =
     (let k = nat (bitlen \<bar>m\<bar> - 53) in
      if k = 0 then (m, 0)
      else let q = \<bar>m\<bar> div 2 ^ k; r = \<bar>m\<bar> mod 2 ^ k; half = 2 ^ (k - 1);
               q' = (if r > half \<or> r = half \<and> odd q then q + 1 else q)
           in (sgn m * q', k))"

definition trunc_dbl :: "int \<Rightarrow> int \<Rightarrow> int" where
  "trunc_dbl m e = (if e \<ge> 0 then m * 2 ^ nat e else c_div m (2 ^ nat (- e)))"

definition micros :: "dbl \<Rightarrow> int" where
  "micros d = (let (p, k) = round53 (mant d * kMicroSecondsPerSecond) in trunc_dbl p (expo d + int k))"

definition addTime :: "int \<Rightarrow> dbl \<Rightarrow> int" where
  "addTime timestamp seconds = timestamp + micros seconds"

lemma c_div_nonneg': "0 \<le> a \<Longrightarrow> 0 < b \<Longrightarrow> 0 \<le> c_div a b"
  by (simp add: c_div_nonneg pos_imp_zdiv_nonneg_iff)

lemma round53_nonneg: "0 \<le> m \<Longrightarrow> 0 \<le> fst (round53 m)"
  by (simp add: round53_def Let_def sgn_if pos_imp_zdiv_nonneg_iff)

lemma trunc_dbl_nonneg: "0 \<le> m \<Longrightarrow> 0 \<le> trunc_dbl m e"
  by (simp add: trunc_dbl_def c_div_nonneg')

lemma micros_nonneg:
  assumes "0 \<le> mant d"
  shows "0 \<le> micros d"
proof -
  have "0 \<le> mant d * kMicroSecondsPerSecond" using assms by (simp add: kMicroSecondsPerSecond_def)
  from trunc_dbl_nonneg [OF round53_nonneg [OF this]] show ?thesis
    by (simp add: micros_def case_prod_unfold Let_def)
qed

section \<open>Timer\<close>

record 'cb timer =
  callback :: 'cb
  expiration :: int
  interval :: dbl
  repeat :: bool

definition Timer :: "'cb \<Rightarrow> int \<Rightarrow> dbl \<Rightarrow> 'cb timer" where
  "Timer cb when itv = \<lparr>callback = cb, expiration = when, interval = itv, repeat = (mant itv > 0)\<rparr>"

definition restart :: "int \<Rightarrow> 'cb timer \<Rightarrow> 'cb timer" where
  "restart now t = (if repeat t then t\<lparr>expiration := addTime now (interval t)\<rparr> else t\<lparr>expiration := 0\<rparr>)"

section \<open>TimerQueue\<close>

type_synonym ptr = nat

definition uintptr_max :: nat where "uintptr_max = 2 ^ 64 - 1"

text \<open>
  \<open>tick\<close> counts the clock readings taken so far; \<open>settime\<close> is the sequence of values handed to
  \<^verbatim>\<open>timerfd_settime\<close> (seconds, nanoseconds), \<open>ran\<close> the sequence of callbacks run.
\<close>

record 'cb timer_queue =
  timers :: "(int \<times> ptr) list"
  store :: "ptr \<rightharpoonup> 'cb timer"
  callingExpiredTimers :: bool
  tick :: nat
  settime :: "(int \<times> int) list"
  ran :: "'cb list"

definition read_clock :: "(nat \<Rightarrow> int) \<Rightarrow> 'cb timer_queue \<Rightarrow> int \<times> 'cb timer_queue" where
  "read_clock clk q = (clk (tick q), q\<lparr>tick := Suc (tick q)\<rparr>)"

definition timespec_until :: "int \<Rightarrow> int \<Rightarrow> int \<times> int" where
  "timespec_until expiry now =
     (let microSecondDif = expiry - now;
          dif = (if microSecondDif < 100 then 100 else microSecondDif)
      in (c_div dif kMicroSecondsPerSecond, c_mod dif kMicroSecondsPerSecond * 1000))"

definition resetTimerfd :: "(nat \<Rightarrow> int) \<Rightarrow> int \<Rightarrow> 'cb timer_queue \<Rightarrow> 'cb timer_queue" where
  "resetTimerfd clk expiry q =
     (let (now, q1) = read_clock clk q in q1\<lparr>settime := settime q1 @ [timespec_until expiry now]\<rparr>)"

definition TimerQueue_insert :: "ptr \<Rightarrow> 'cb timer_queue \<Rightarrow> (bool \<times> 'cb timer_queue) result" where
  "TimerQueue_insert p q =
     (case store q p of None \<Rightarrow> Inl Null_deref
      | Some t \<Rightarrow>
        let when = expiration t;
            earliestChanged = (case timers q of [] \<Rightarrow> True | e # _ \<Rightarrow> when < fst e)
        in Inr (earliestChanged, q\<lparr>timers := List.insort_insert (when, p) (timers q)\<rparr>))"

definition addTimerInLoop :: "(nat \<Rightarrow> int) \<Rightarrow> ptr \<Rightarrow> 'cb timer_queue \<Rightarrow> 'cb timer_queue result" where
  "addTimerInLoop clk p q =
     bind_result (TimerQueue_insert p q) (\<lambda>(earliestChanged, q1).
       if earliestChanged
       then (case store q1 p of None \<Rightarrow> Inl Null_deref | Some t \<Rightarrow> Inr (resetTimerfd clk (expiration t) q1))
       else Inr q1)"

text \<open>\<open>addTimer\<close> called in the loop thread; \<open>p\<close> is the address that \<^verbatim>\<open>new Timer\<close> returns.\<close>

definition addTimer :: "(nat \<Rightarrow> int) \<Rightarrow> ptr \<Rightarrow> 'cb \<Rightarrow> int \<Rightarrow> dbl \<Rightarrow> 'cb timer_queue \<Rightarrow> 'cb timer_queue result" where
  "addTimer clk p cb when itv q = addTimerInLoop clk p (q\<lparr>store := (store q)(p \<mapsto> Timer cb when itv)\<rparr>)"

definition getExpired :: "int \<Rightarrow> 'cb timer_queue \<Rightarrow> (int \<times> ptr) list \<times> 'cb timer_queue" where
  "getExpired now q =
     (let sentry = (now, uintptr_max)
      in (takeWhile (\<lambda>e. e < sentry) (timers q), q\<lparr>timers := dropWhile (\<lambda>e. e < sentry) (timers q)\<rparr>))"

text \<open>Running a callback: \<open>adds cb\<close> lists the timers it adds, with the addresses they are given.\<close>

fun add_all :: "(nat \<Rightarrow> int) \<Rightarrow> (ptr \<times> 'cb \<times> int \<times> dbl) list \<Rightarrow> 'cb timer_queue \<Rightarrow> 'cb timer_queue result" where
  "add_all clk [] q = Inr q"
| "add_all clk ((p, cb, when, itv) # as) q =
     bind_result (addTimer clk p cb when itv q) (\<lambda>q'. add_all clk as q')"

fun run_expired ::
    "(nat \<Rightarrow> int) \<Rightarrow> ('cb \<Rightarrow> (ptr \<times> 'cb \<times> int \<times> dbl) list) \<Rightarrow> (int \<times> ptr) list \<Rightarrow> 'cb timer_queue \<Rightarrow> 'cb timer_queue result" where
  "run_expired clk adds [] q = Inr q"
| "run_expired clk adds ((w, p) # es) q =
     (case store q p of None \<Rightarrow> Inl Null_deref
      | Some t \<Rightarrow>
        bind_result (add_all clk (adds (callback t)) (q\<lparr>ran := ran q @ [callback t]\<rparr>))
          (\<lambda>q'. run_expired clk adds es q'))"

text \<open>One round of the loop of \<open>reset\<close>, and the loop.\<close>

definition reset_one :: "(nat \<Rightarrow> int) \<Rightarrow> int \<times> ptr \<Rightarrow> 'cb timer_queue \<Rightarrow> 'cb timer_queue result" where
  "reset_one clk e q =
     (case store q (snd e) of None \<Rightarrow> Inl Null_deref
      | Some t \<Rightarrow>
        bind_result
          (if repeat t
           then let (now, q1) = read_clock clk q;
                    q2 = q1\<lparr>store := (store q1)(snd e \<mapsto> restart now t)\<rparr>
                in bind_result (TimerQueue_insert (snd e) q2) (\<lambda>(b, q3). Inr q3)
           else Inr (q\<lparr>store := (store q)(snd e := None)\<rparr>))
          (\<lambda>q1. case timers q1 of [] \<Rightarrow> Inr q1
             | f # _ \<Rightarrow> (case store q1 (snd f) of None \<Rightarrow> Inl Null_deref
                         | Some u \<Rightarrow> Inr (resetTimerfd clk (expiration u) q1))))"

fun TimerQueue_reset :: "(nat \<Rightarrow> int) \<Rightarrow> (int \<times> ptr) list \<Rightarrow> 'cb timer_queue \<Rightarrow> 'cb timer_queue result" where
  "TimerQueue_reset clk [] q = Inr q"
| "TimerQueue_reset clk (e # es) q = bind_result (reset_one clk e q) (\<lambda>q'. TimerQueue_reset clk es q')"

definition handleRead ::
    "(nat \<Rightarrow> int) \<Rightarrow> ('cb \<Rightarrow> (ptr \<times> 'cb \<times> int \<times> dbl) list) \<Rightarrow> 'cb timer_queue \<Rightarrow> 'cb timer_queue result" where
  "handleRead clk adds q =
     (let (now, q1) = read_clock clk q;
          (expired, q2) = getExpired now q1
      in bind_result (run_expired clk adds expired (q2\<lparr>callingExpiredTimers := True\<rparr>)) (\<lambda>q3.
         TimerQueue_reset clk expired (q3\<lparr>callingExpiredTimers := False\<rparr>)))"

section \<open>Invariant\<close>

text \<open>
  The entries are strictly sorted, no address occurs twice, and every entry carries the expiration
  of the live timer it points to.
\<close>

definition entries_ok :: "(ptr \<rightharpoonup> 'cb timer) \<Rightarrow> (int \<times> ptr) list \<Rightarrow> bool" where
  "entries_ok st es \<longleftrightarrow> distinct (map snd es) \<and>
     (\<forall>(w, p)\<in>set es. p < uintptr_max \<and> (\<exists>t. st p = Some t \<and> expiration t = w))"

definition queue_ok :: "'cb timer_queue \<Rightarrow> bool" where
  "queue_ok q \<longleftrightarrow> sorted (timers q) \<and> entries_ok (store q) (timers q)"

lemma entries_sorted_distinct: "entries_ok st es \<Longrightarrow> distinct es"
  unfolding entries_ok_def by (metis distinct_map)

lemma lt_sentry: "p < uintptr_max \<Longrightarrow> (w, p) < (now, uintptr_max) \<longleftrightarrow> (w :: int) \<le> now"
  by auto

lemma getExpired_split:
  assumes "queue_ok q"
  shows "fst (getExpired now q) = filter (\<lambda>e. fst e \<le> now) (timers q)"
    and "timers (snd (getExpired now q)) = filter (\<lambda>e. now < fst e) (timers q)"
proof -
  let ?s = "(now, uintptr_max)"
  have srt: "sorted (timers q)" using assms by (simp add: queue_ok_def)
  have lt: "e < ?s \<longleftrightarrow> fst e \<le> now" if "e \<in> set (timers q)" for e
    using assms that lt_sentry by (cases e) (auto simp: queue_ok_def entries_ok_def)
  show "fst (getExpired now q) = filter (\<lambda>e. fst e \<le> now) (timers q)"
    using sorted_takeWhile_less(1) [OF srt, of ?s] lt by (simp add: getExpired_def Let_def cong: filter_cong)
  show "timers (snd (getExpired now q)) = filter (\<lambda>e. now < fst e) (timers q)"
    using sorted_takeWhile_less(2) [OF srt, of ?s] lt by (simp add: getExpired_def Let_def not_le cong: filter_cong)
qed

section \<open>Inserting and adding timers\<close>

text \<open>
  While expired entries \<open>es\<close> are being processed they are no longer in the set, but their timers are
  still live: the invariant of the loops is \<open>pending_ok q es\<close>.
\<close>

definition pending_ok :: "'cb timer_queue \<Rightarrow> (int \<times> ptr) list \<Rightarrow> bool" where
  "pending_ok q es \<longleftrightarrow> sorted (timers q) \<and> entries_ok (store q) (timers q @ es)"

lemma pending_Nil: "pending_ok q [] = queue_ok q"
  by (simp add: pending_ok_def queue_ok_def)

lemma set_insort_insert_timer: "set (List.insort_insert e xs) = insert e (set xs)"
  by (simp add: insort_insert_key_def insert_absorb set_insort_key)

lemma entries_ok_iff: "entries_ok st es \<longleftrightarrow> distinct (map snd es) \<and>
    (\<forall>e\<in>set es. snd e < uintptr_max \<and> (\<exists>t. st (snd e) = Some t \<and> expiration t = fst e))"
  by (auto simp: entries_ok_def)

lemma entries_ok_perm:
  assumes "entries_ok st es" and "mset es' = mset es"
  shows "entries_ok st es'"
proof -
  have "mset (map snd es') = mset (map snd es)" using assms(2) by simp
  then have "distinct (map snd es') = distinct (map snd es)" by (rule mset_eq_imp_distinct_iff)
  moreover have "set es' = set es" using assms(2) by (rule mset_eq_setD)
  ultimately show ?thesis using assms(1) by (simp add: entries_ok_iff)
qed

lemma insert_pending:
  assumes ok: "pending_ok q ((w, p) # es)"
  obtains b q' where "TimerQueue_insert p q = Inr (b, q')" and "pending_ok q' es"
    and "set (timers q') = insert (w, p) (set (timers q))" and "store q' = store q" and "ran q' = ran q"
    and "settime q' = settime q" and "tick q' = tick q"
    and "b \<longleftrightarrow> (timers q = [] \<or> w < fst (hd (timers q)))"
proof -
  have e: "entries_ok (store q) (timers q @ (w, p) # es)" and srt: "sorted (timers q)"
    using ok by (simp_all add: pending_ok_def)
  obtain t where t: "store q p = Some t" "expiration t = w" using e by (auto simp: entries_ok_iff)
  have notin: "(w, p) \<notin> set (timers q)" using e by (force simp: entries_ok_iff)
  then have ins: "List.insort_insert (w, p) (timers q) = insort (w, p) (timers q)"
    by (simp add: insort_insert_key_def)
  let ?q = "q\<lparr>timers := insort (w, p) (timers q)\<rparr>"
  have "TimerQueue_insert p q = Inr (case timers q of [] \<Rightarrow> True | e # _ \<Rightarrow> w < fst e, ?q)"
    using t ins by (simp add: TimerQueue_insert_def Let_def)
  moreover have "pending_ok ?q es"
    unfolding pending_ok_def
  proof
    show "sorted (timers ?q)" using srt by (simp add: sorted_insort)
    show "entries_ok (store ?q) (timers ?q @ es)"
      by (rule entries_ok_perm [of _ "timers q @ (w, p) # es"]) (use e in simp_all)
  qed
  moreover have "set (timers ?q) = insert (w, p) (set (timers q))" by (simp add: set_insort_key)
  ultimately show ?thesis using that by (cases "timers q") auto
qed

text \<open>The documented behaviour of \<^verbatim>\<open>new\<close>: an address that is not in use.\<close>

definition fresh_for :: "(ptr \<rightharpoonup> 'cb timer) \<Rightarrow> ptr \<Rightarrow> bool" where
  "fresh_for st p \<longleftrightarrow> st p = None \<and> p < uintptr_max"

lemma addTimer_pending:
  assumes ok: "pending_ok q es" and fresh: "fresh_for (store q) p"
  obtains q' where "addTimer clk p cb when itv q = Inr q'" and "pending_ok q' es"
    and "set (timers q') = insert (when, p) (set (timers q))" and "store q' = (store q)(p \<mapsto> Timer cb when itv)"
    and "ran q' = ran q"
    and "(timers q = [] \<or> when < fst (hd (timers q))) \<longrightarrow> settime q' = settime q @ [timespec_until when (clk (tick q))]"
    and "\<not> (timers q = [] \<or> when < fst (hd (timers q))) \<longrightarrow> settime q' = settime q"
proof -
  let ?q = "q\<lparr>store := (store q)(p \<mapsto> Timer cb when itv)\<rparr>"
  have "\<forall>e\<in>set (timers q @ es). snd e \<noteq> p"
    using ok fresh unfolding pending_ok_def entries_ok_iff fresh_for_def by (metis option.distinct(1))
  then have "pending_ok ?q ((when, p) # es)"
    using ok fresh by (auto simp: pending_ok_def entries_ok_iff fresh_for_def Timer_def)
  then obtain b q1 where q1: "TimerQueue_insert p ?q = Inr (b, q1)" "pending_ok q1 es"
    "set (timers q1) = insert (when, p) (set (timers q))" "store q1 = store ?q" "ran q1 = ran q"
    "settime q1 = settime q" "tick q1 = tick q" "b \<longleftrightarrow> (timers q = [] \<or> when < fst (hd (timers q)))"
    by (rule insert_pending) auto
  show ?thesis
  proof (cases b)
    case True
    let ?q2 = "resetTimerfd clk when q1"
    have "addTimer clk p cb when itv q = Inr ?q2"
      using q1 True by (simp add: addTimer_def addTimerInLoop_def Timer_def)
    moreover have "pending_ok ?q2 es"
      using q1(2) by (simp add: pending_ok_def resetTimerfd_def read_clock_def)
    ultimately show ?thesis
      using that q1 True by (simp add: resetTimerfd_def read_clock_def)
  next
    case False
    then have "addTimer clk p cb when itv q = Inr q1" using q1 by (simp add: addTimer_def addTimerInLoop_def)
    then show ?thesis using that q1 False by simp
  qed
qed

definition entry_of :: "ptr \<times> 'cb \<times> int \<times> dbl \<Rightarrow> int \<times> ptr" where
  "entry_of a = (fst (snd (snd a)), fst a)"

lemma addTimer_tick: "addTimer clk p cb w itv q = Inr q' \<Longrightarrow> tick q \<le> tick q'"
  by (auto simp: addTimer_def addTimerInLoop_def TimerQueue_insert_def Let_def resetTimerfd_def read_clock_def
      split: if_splits)

lemma add_all_pending:
  assumes "pending_ok q es" and "distinct (map fst as)" and "\<forall>a\<in>set as. fresh_for (store q) (fst a)"
  shows "\<exists>q'. add_all clk as q = Inr q' \<and> pending_ok q' es \<and> set (timers q) \<subseteq> set (timers q') \<and>
    entry_of ` set as \<subseteq> set (timers q') \<and> tick q \<le> tick q' \<and> ran q' = ran q \<and> (\<forall>p. p \<notin> fst ` set as \<longrightarrow> store q' p = store q p)"
  using assms
proof (induction as arbitrary: q)
  case (Cons a as)
  obtain p cb "when" itv where a: "a = (p, cb, when, itv)" by (cases a)
  have "fresh_for (store q) p" using Cons.prems(3) a by simp
  then obtain q1 where q1: "addTimer clk p cb when itv q = Inr q1" "pending_ok q1 es"
    "set (timers q1) = insert (when, p) (set (timers q))" "store q1 = (store q)(p \<mapsto> Timer cb when itv)" "ran q1 = ran q"
    using addTimer_pending [OF Cons.prems(1)] by metis
  have "tick q \<le> tick q1" using q1(1) by (rule addTimer_tick)
  moreover have "\<forall>a\<in>set as. fresh_for (store q1) (fst a)"
    using Cons.prems(2,3) a q1(4) by (force simp: fresh_for_def)
  with Cons.IH [OF q1(2)] Cons.prems(2) obtain q' where "add_all clk as q1 = Inr q'" "pending_ok q' es"
    "set (timers q1) \<subseteq> set (timers q')" "entry_of ` set as \<subseteq> set (timers q')" "tick q1 \<le> tick q'"
    "ran q' = ran q1" "\<forall>p. p \<notin> fst ` set as \<longrightarrow> store q' p = store q1 p"
    by auto
  ultimately show ?case using q1 by (auto simp: a entry_of_def)
qed auto

text \<open>All timers that the callbacks of some entries add, and that \<^verbatim>\<open>new\<close> gives them unused addresses.\<close>

definition cb_of :: "'cb timer_queue \<Rightarrow> int \<times> ptr \<Rightarrow> 'cb" where
  "cb_of q e = callback (the (store q (snd e)))"

definition added_by :: "('cb \<Rightarrow> (ptr \<times> 'cb \<times> int \<times> dbl) list) \<Rightarrow> 'cb timer_queue \<Rightarrow> (int \<times> ptr) list \<Rightarrow> ptr list" where
  "added_by adds q es = map fst (concat (map adds (map (cb_of q) es)))"

definition new_contract :: "'cb timer_queue \<Rightarrow> ptr list \<Rightarrow> bool" where
  "new_contract q ps \<longleftrightarrow> distinct ps \<and> (\<forall>p\<in>set ps. fresh_for (store q) p)"

lemma run_expired_pending:
  assumes "pending_ok q fs" and "set es \<subseteq> set fs" and "new_contract q (added_by adds q es)"
  shows "\<exists>q'. run_expired clk adds es q = Inr q' \<and> pending_ok q' fs \<and> set (timers q) \<subseteq> set (timers q') \<and>
    (\<forall>e\<in>set es. entry_of ` set (adds (cb_of q e)) \<subseteq> set (timers q')) \<and> tick q \<le> tick q' \<and>
    ran q' = ran q @ map (cb_of q) es \<and> (\<forall>p. p \<notin> set (added_by adds q es) \<longrightarrow> store q' p = store q p)"
  using assms
proof (induction es arbitrary: q)
  case (Cons e es)
  obtain w p where e: "e = (w, p)" by (cases e)
  have live: "\<forall>f\<in>set fs. \<exists>t. store q (snd f) = Some t"
    using Cons.prems(1) by (auto simp: pending_ok_def entries_ok_iff)
  then obtain t where t: "store q p = Some t" using Cons.prems(2) e by force
  let ?q = "q\<lparr>ran := ran q @ [callback t]\<rparr>" and ?as = "adds (callback t)"
  have cbe: "cb_of q e = callback t" using t e by (simp add: cb_of_def)
  have new: "distinct (map fst ?as)" "\<forall>a\<in>set ?as. fresh_for (store ?q) (fst a)"
    and disj: "fst ` set ?as \<inter> set (added_by adds q es) = {}" "new_contract q (added_by adds q es)"
    using Cons.prems(3) by (auto simp: new_contract_def added_by_def cbe)
  have "pending_ok ?q fs" using Cons.prems(1) by (simp add: pending_ok_def)
  from add_all_pending [OF this new, of clk] obtain q1 where q1: "add_all clk ?as ?q = Inr q1" "pending_ok q1 fs"
    "set (timers q) \<subseteq> set (timers q1)" "ran q1 = ran q @ [callback t]" "\<forall>p. p \<notin> fst ` set ?as \<longrightarrow> store q1 p = store q p"
    "entry_of ` set ?as \<subseteq> set (timers q1)" "tick q \<le> tick q1"
    by auto
  have keep: "store q1 (snd f) = store q (snd f)" if "f \<in> set fs" for f
  proof -
    have "store q (snd f) \<noteq> None" using live that by auto
    then have "snd f \<notin> fst ` set ?as" using new(2) by (auto simp: fresh_for_def)
    with q1(5) show ?thesis by simp
  qed
  then have cbs: "map (cb_of q1) es = map (cb_of q) es"
    using Cons.prems(2) by (intro map_cong refl) (metis cb_of_def list.set_intros(2) subsetD)
  then have added: "added_by adds q1 es = added_by adds q es"
    by (simp only: added_by_def)
  have "\<forall>p\<in>set (added_by adds q es). store q1 p = store q p" using disj(1) q1(5) by blast
  then have "new_contract q1 (added_by adds q1 es)"
    unfolding added using disj(2) by (simp add: new_contract_def fresh_for_def)
  with Cons.IH [OF q1(2)] Cons.prems(2) obtain q' where "run_expired clk adds es q1 = Inr q'" "pending_ok q' fs"
    "set (timers q1) \<subseteq> set (timers q')" "ran q' = ran q1 @ map (cb_of q1) es"
    "\<forall>p. p \<notin> set (added_by adds q1 es) \<longrightarrow> store q' p = store q1 p"
    "\<forall>e\<in>set es. entry_of ` set (adds (cb_of q1 e)) \<subseteq> set (timers q')" "tick q1 \<le> tick q'" by auto
  note q' = this
  have "\<forall>f\<in>set (e # es). entry_of ` set (adds (cb_of q f)) \<subseteq> set (timers q')"
    using q'(3,6) q1(6) cbs cbe by (auto simp: map_eq_conv)
  moreover have "ran q' = ran q @ map (cb_of q) (e # es)" using q'(4) q1(4) cbs cbe by simp
  moreover have "set (added_by adds q (e # es)) = fst ` set ?as \<union> set (added_by adds q1 es)"
    unfolding added by (simp add: added_by_def cbe image_Un)
  then have "\<forall>p. p \<notin> set (added_by adds q (e # es)) \<longrightarrow> store q' p = store q p"
    using q'(5) q1(5) by simp
  ultimately show ?case using q1(1,3,7) q'(1-3,7) t by (intro exI [of _ q']) (auto simp: e)
qed auto

section \<open>Resetting expired timers\<close>

text \<open>The last call of \<^verbatim>\<open>timerfd_settime\<close> was for the earliest timer, with the last reading of the clock.\<close>

definition armed :: "(nat \<Rightarrow> int) \<Rightarrow> 'cb timer_queue \<Rightarrow> bool" where
  "armed clk q \<longleftrightarrow> timers q = [] \<or>
     settime q \<noteq> [] \<and> last (settime q) = timespec_until (fst (hd (timers q))) (clk (tick q - 1))"

lemma rearm_pending:
  assumes "pending_ok q es"
  shows "\<exists>q'. (case timers q of [] \<Rightarrow> Inr q
       | f # _ \<Rightarrow> (case store q (snd f) of None \<Rightarrow> Inl Null_deref
                   | Some u \<Rightarrow> Inr (resetTimerfd clk (expiration u) q))) = Inr q' \<and>
     pending_ok q' es \<and> timers q' = timers q \<and> store q' = store q \<and> ran q' = ran q \<and> tick q \<le> tick q' \<and> armed clk q'"
proof (cases "timers q")
  case Nil
  then show ?thesis using assms by (auto simp: armed_def)
next
  case (Cons f fs)
  then obtain u where u: "store q (snd f) = Some u" "expiration u = fst f"
    using assms by (auto simp: pending_ok_def entries_ok_iff)
  have "pending_ok (resetTimerfd clk (fst f) q) es"
    using assms by (simp add: pending_ok_def resetTimerfd_def read_clock_def)
  then show ?thesis using Cons u by (auto simp: resetTimerfd_def read_clock_def armed_def)
qed

text \<open>What one round leaves: a repeating timer restarted from a reading of the clock, a one-shot freed.\<close>

definition reset_effect :: "(nat \<Rightarrow> int) \<Rightarrow> 'cb timer_queue \<Rightarrow> int \<times> ptr \<Rightarrow> 'cb timer \<Rightarrow> 'cb timer_queue \<Rightarrow> bool" where
  "reset_effect clk q e t q' \<longleftrightarrow>
     (if repeat t
      then store q' = (store q)(snd e \<mapsto> restart (clk (tick q)) t) \<and> tick q < tick q' \<and>
           set (timers q') = insert (addTime (clk (tick q)) (interval t), snd e) (set (timers q))
      else store q' = (store q)(snd e := None) \<and> tick q \<le> tick q' \<and> set (timers q') = set (timers q))"

lemma reset_one_pending:
  assumes ok: "pending_ok q (e # es)"
  shows "\<exists>q' t. reset_one clk e q = Inr q' \<and> pending_ok q' es \<and> store q (snd e) = Some t \<and> ran q' = ran q \<and>
     reset_effect clk q e t q' \<and> armed clk q'"
proof -
  obtain w p where e: "e = (w, p)" by (cases e)
  have en: "entries_ok (store q) (timers q @ (w, p) # es)" and srt: "sorted (timers q)"
    using ok by (simp_all add: pending_ok_def e)
  obtain t where t: "store q p = Some t" using en by (auto simp: entries_ok_iff)
  have "p \<notin> snd ` set (timers q @ es)" using en by (simp add: entries_ok_iff image_Un)
  then have others: "\<forall>f\<in>set (timers q @ es). snd f \<noteq> p" by blast
  show ?thesis
  proof (cases "repeat t")
    case True
    let ?q2 = "q\<lparr>tick := Suc (tick q), store := (store q)(p \<mapsto> restart (clk (tick q)) t)\<rparr>"
    let ?w = "addTime (clk (tick q)) (interval t)"
    have "pending_ok ?q2 ((?w, p) # es)"
      using en srt others True by (auto simp: pending_ok_def entries_ok_iff restart_def)
    then obtain b q3 where q3: "TimerQueue_insert p ?q2 = Inr (b, q3)" "pending_ok q3 es"
      "set (timers q3) = insert (?w, p) (set (timers q))" "store q3 = store ?q2" "ran q3 = ran q" "tick q3 = Suc (tick q)"
      by (rule insert_pending) auto
    from rearm_pending [OF q3(2), of clk] obtain q' where q': "(case timers q3 of [] \<Rightarrow> Inr q3
       | f # _ \<Rightarrow> (case store q3 (snd f) of None \<Rightarrow> Inl Null_deref
                   | Some u \<Rightarrow> Inr (resetTimerfd clk (expiration u) q3))) = Inr q'"
      "pending_ok q' es" "timers q' = timers q3" "store q' = store q3" "ran q' = ran q3" "tick q3 \<le> tick q'" "armed clk q'"
      by blast
    have "reset_one clk e q = Inr q'"
      using t True q3(1) q'(1) by (simp add: reset_one_def e read_clock_def)
    moreover have "reset_effect clk q e t q'" using True q3 q' by (simp add: reset_effect_def e)
    ultimately show ?thesis using q' q3 t by (simp add: e)
  next
    case False
    let ?q1 = "q\<lparr>store := (store q)(p := None)\<rparr>"
    have "pending_ok ?q1 es"
      using en srt others by (auto simp: pending_ok_def entries_ok_iff)
    from rearm_pending [OF this, of clk] obtain q' where q': "(case timers ?q1 of [] \<Rightarrow> Inr ?q1
       | f # _ \<Rightarrow> (case store ?q1 (snd f) of None \<Rightarrow> Inl Null_deref
                   | Some u \<Rightarrow> Inr (resetTimerfd clk (expiration u) ?q1))) = Inr q'"
      "pending_ok q' es" "timers q' = timers q" "store q' = (store q)(p := None)" "ran q' = ran q" "tick q \<le> tick q'" "armed clk q'"
      by auto
    have "reset_one clk e q = Inr q'"
      using t False q'(1) by (simp add: reset_one_def e)
    moreover have "reset_effect clk q e t q'" using False q' by (simp add: reset_effect_def e)
    ultimately show ?thesis using q' t by (simp add: e)
  qed
qed

text \<open>The outcome of the whole loop of \<open>reset\<close> for one expired entry.\<close>

definition reset_outcome :: "(nat \<Rightarrow> int) \<Rightarrow> 'cb timer_queue \<Rightarrow> 'cb timer_queue \<Rightarrow> int \<times> ptr \<Rightarrow> bool" where
  "reset_outcome clk q q' e \<longleftrightarrow>
     (case store q (snd e) of None \<Rightarrow> False
      | Some t \<Rightarrow>
        if repeat t
        then \<exists>n. tick q \<le> n \<and> n < tick q' \<and> store q' (snd e) = Some (restart (clk n) t) \<and>
               (addTime (clk n) (interval t), snd e) \<in> set (timers q')
        else store q' (snd e) = None \<and> snd e \<notin> snd ` set (timers q'))"

lemma pending_distinct: "pending_ok q (e # es) \<Longrightarrow> snd e \<notin> snd ` set es \<and> snd e \<notin> snd ` set (timers q)"
  by (auto simp: pending_ok_def entries_ok_iff)

lemma reset_outcome_mono:
  assumes "reset_outcome clk q1 q' e" and "store q1 (snd e) = store q (snd e)" and "tick q \<le> tick q1"
  shows "reset_outcome clk q q' e"
proof (cases "store q (snd e)")
  case None
  with assms show ?thesis by (simp add: reset_outcome_def)
next
  case (Some t)
  with assms show ?thesis by (auto simp: reset_outcome_def split: if_splits intro: order_trans)
qed

lemma reset_outcome_head:
  assumes "reset_effect clk q e t q1" and "store q (snd e) = Some t" and "snd e \<notin> snd ` set (timers q)"
    and "store q' (snd e) = store q1 (snd e)" and "set (timers q1) \<subseteq> set (timers q')" and "tick q1 \<le> tick q'"
    and "snd e \<in> snd ` set (timers q') \<Longrightarrow> snd e \<in> snd ` set (timers q1)"
  shows "reset_outcome clk q q' e"
proof (cases "repeat t")
  case True
  then have "store q' (snd e) = Some (restart (clk (tick q)) t)" "tick q < tick q'"
    "(addTime (clk (tick q)) (interval t), snd e) \<in> set (timers q')"
    using assms by (auto simp: reset_effect_def)
  with True assms(2) show ?thesis by (auto simp: reset_outcome_def intro!: exI [of _ "tick q"])
next
  case False
  then have "store q' (snd e) = None" "snd e \<notin> snd ` set (timers q')"
    using assms by (auto simp: reset_effect_def)
  with False assms(2) show ?thesis by (simp add: reset_outcome_def)
qed

lemma reset_pending:
  assumes "pending_ok q es"
  shows "\<exists>q'. TimerQueue_reset clk es q = Inr q' \<and> queue_ok q' \<and> set (timers q) \<subseteq> set (timers q') \<and> ran q' = ran q \<and>
    (\<forall>e\<in>set es. reset_outcome clk q q' e) \<and> tick q \<le> tick q' \<and>
    (\<forall>p. p \<notin> snd ` set es \<longrightarrow> store q' p = store q p \<and> (p \<in> snd ` set (timers q') \<longrightarrow> p \<in> snd ` set (timers q))) \<and>
    (es \<noteq> [] \<longrightarrow> armed clk q')"
  using assms
proof (induction es arbitrary: q)
  case Nil
  then show ?case by (simp add: pending_Nil)
next
  case (Cons e es)
  obtain q1 t where q1: "reset_one clk e q = Inr q1" "pending_ok q1 es" "store q (snd e) = Some t" "ran q1 = ran q"
    "reset_effect clk q e t q1" "armed clk q1"
    using reset_one_pending [OF Cons.prems] by blast
  obtain q' where q': "TimerQueue_reset clk es q1 = Inr q'" "queue_ok q'" "set (timers q1) \<subseteq> set (timers q')" "ran q' = ran q1"
    "\<forall>e\<in>set es. reset_outcome clk q1 q' e" "tick q1 \<le> tick q'"
    "\<forall>p. p \<notin> snd ` set es \<longrightarrow> store q' p = store q1 p \<and> (p \<in> snd ` set (timers q') \<longrightarrow> p \<in> snd ` set (timers q1))"
    "es \<noteq> [] \<longrightarrow> armed clk q'"
    using Cons.IH [OF q1(2)] by blast
  note d = pending_distinct [OF Cons.prems]
  have sub: "set (timers q) \<subseteq> set (timers q1)" "tick q \<le> tick q1"
    and pe: "snd ` set (timers q1) \<subseteq> insert (snd e) (snd ` set (timers q))"
    and st: "p \<noteq> snd e \<Longrightarrow> store q1 p = store q p" for p
    using q1(5) by (auto simp: reset_effect_def split: if_splits)
  have "reset_outcome clk q q' e"
    using q1(3,5) q'(3,6,7) d by (intro reset_outcome_head [where ?q1.0 = q1]) auto
  moreover have "reset_outcome clk q q' f" if f: "f \<in> set es" for f
  proof -
    have "snd f \<noteq> snd e" using d f by (metis imageI)
    from reset_outcome_mono [OF q'(5) [rule_format, OF f] st [OF this] sub(2)] show ?thesis .
  qed
  moreover have "armed clk q'"
  proof (cases "es = []")
    case True
    with q'(1) q1(6) show ?thesis by simp
  qed (use q'(8) in blast)
  moreover have "\<forall>p. p \<notin> snd ` set (e # es) \<longrightarrow> store q' p = store q p \<and> (p \<in> snd ` set (timers q') \<longrightarrow> p \<in> snd ` set (timers q))"
  proof (intro allI impI)
    fix p assume "p \<notin> snd ` set (e # es)"
    then have p: "p \<noteq> snd e" "p \<notin> snd ` set es" by simp_all
    note q'(7) [rule_format, OF p(2)] st [OF p(1)]
    moreover have "p \<in> snd ` set (timers q1) \<Longrightarrow> p \<in> snd ` set (timers q)" using pe p(1) by blast
    ultimately show "store q' p = store q p \<and> (p \<in> snd ` set (timers q') \<longrightarrow> p \<in> snd ` set (timers q))"
      by simp
  qed
  ultimately show ?case using q1(1,4) q'(1-4,6) sub by (intro exI [of _ q']) simp
qed

section \<open>Properties\<close>

text \<open>\<open>addTimer\<close> puts the timer at its place in the ordered set, keeps every other entry and the invariant, and
  calls \<^verbatim>\<open>timerfd_settime\<close> exactly when the new timer is the earliest one, for its expiration.\<close>

theorem addTimer_inserts_and_arms:
  assumes "queue_ok q" and "fresh_for (store q) p"
  shows "\<exists>q'. addTimer clk p cb w itv q = Inr q' \<and> queue_ok q' \<and>
    timers q' = insort (w, p) (timers q) \<and> store q' = (store q)(p \<mapsto> Timer cb w itv) \<and>
    settime q' = (if timers q = [] \<or> w < fst (hd (timers q))
                  then settime q @ [timespec_until w (clk (tick q))] else settime q)"
proof -
  have ok: "pending_ok q []" using assms(1) by (simp add: pending_Nil)
  obtain q' where q': "addTimer clk p cb w itv q = Inr q'" "pending_ok q' []"
    "set (timers q') = insert (w, p) (set (timers q))" "store q' = (store q)(p \<mapsto> Timer cb w itv)"
    "(timers q = [] \<or> w < fst (hd (timers q))) \<longrightarrow> settime q' = settime q @ [timespec_until w (clk (tick q))]"
    "\<not> (timers q = [] \<or> w < fst (hd (timers q))) \<longrightarrow> settime q' = settime q"
    using addTimer_pending [OF ok assms(2)] by metis
  have new: "(w, p) \<notin> set (timers q)"
    using assms by (force simp: queue_ok_def entries_ok_iff fresh_for_def)
  have "timers q' = insort (w, p) (timers q)"
  proof (rule sorted_distinct_set_unique)
    show "sorted (timers q')" "distinct (timers q')"
      using q'(2) entries_sorted_distinct by (auto simp: pending_Nil queue_ok_def)
    show "sorted (insort (w, p) (timers q))" "distinct (insort (w, p) (timers q))"
      using assms(1) entries_sorted_distinct new by (auto simp: queue_ok_def sorted_insort distinct_insort)
  qed (use q'(3) in \<open>simp add: set_insort_key\<close>)
  with q' show ?thesis by (auto simp: pending_Nil)
qed

theorem addTimer_inserts_and_arms_witness:
  "\<exists>q'. addTimer (\<lambda>n. 1000 + int n) 5 ''cb'' 2000 (Dbl 0 0)
     \<lparr>timers = [(3000, 4)], store = [4 \<mapsto> Timer ''a'' 3000 (Dbl 1 0)], callingExpiredTimers = False,
      tick = 0, settime = [], ran = []\<rparr> = Inr q' \<and> timers q' = [(2000, 5), (3000, 4)] \<and> settime q' = [(0, 1000000)]"
  using addTimer_inserts_and_arms
    [of "\<lparr>timers = [(3000, 4)], store = [4 \<mapsto> Timer ''a'' 3000 (Dbl 1 0)], callingExpiredTimers = False,
      tick = 0, settime = [], ran = []\<rparr>" 5 "\<lambda>n. 1000 + int n" "''cb''" 2000 "Dbl 0 0"]
  by (auto simp: queue_ok_def entries_ok_def fresh_for_def uintptr_max_def Timer_def timespec_until_def
      c_div_def c_mod_def kMicroSecondsPerSecond_def)

text \<open>C19: one expiry of the timer descriptor. The timers that are due at the time read first, and no others, run their
  callbacks exactly once, in the order of expiration. Afterwards each repeating one is back in the
  queue with the time of a later reading plus its interval, each one-shot is freed, the timers that were not due and those
  added by callbacks are in the queue, the invariant holds, no freed timer is touched, and when anything was due and timers
  remain the descriptor is armed for the earliest.\<close>

theorem timer_expiry_correct:
  assumes ok: "queue_ok q" and due: "due = filter (\<lambda>e. fst e \<le> clk (tick q)) (timers q)"
    and new: "new_contract q (added_by adds q due)"
  shows "\<exists>q'. handleRead clk adds q = Inr q' \<and> queue_ok q' \<and>
    ran q' = ran q @ map (cb_of q) due \<and>
    (\<forall>e\<in>set due. reset_outcome clk q q' e) \<and>
    (\<forall>e\<in>set (timers q). clk (tick q) < fst e \<longrightarrow> e \<in> set (timers q')) \<and>
    (\<forall>e\<in>set due. entry_of ` set (adds (cb_of q e)) \<subseteq> set (timers q')) \<and>
    (due \<noteq> [] \<longrightarrow> armed clk q')"
proof -
  let ?now = "clk (tick q)"
  define q0 where "q0 = q\<lparr>tick := Suc (tick q)\<rparr>"
  define q2 where "q2 = q0\<lparr>timers := filter (\<lambda>e. ?now < fst e) (timers q), callingExpiredTimers := True\<rparr>"
  have ok0: "queue_ok q0" using ok by (simp add: queue_ok_def q0_def)
  have ge: "fst (getExpired ?now q0) = due" "(snd (getExpired ?now q0))\<lparr>callingExpiredTimers := True\<rparr> = q2"
    using getExpired_split [OF ok0, of ?now] by (simp_all add: due q2_def q0_def getExpired_def Let_def)
  have "timers q = due @ timers q2"
    using getExpired_split [OF ok0, of ?now] due
    by (simp add: q2_def q0_def getExpired_def Let_def) (metis takeWhile_dropWhile_id)
  then have "mset (timers q2 @ due) = mset (timers q)" by simp
  then have "entries_ok (store q) (timers q2 @ due)" using ok by (auto simp only: queue_ok_def intro: entries_ok_perm)
  then have p2: "pending_ok q2 due" using ok by (simp add: pending_ok_def queue_ok_def q2_def q0_def sorted_wrt_filter)
  have cb: "cb_of q2 = cb_of q" by (auto simp: cb_of_def q2_def q0_def)
  then have "added_by adds q2 due = added_by adds q due" by (simp add: added_by_def)
  then have "new_contract q2 (added_by adds q2 due)" using new by (simp add: new_contract_def q2_def q0_def)
  from run_expired_pending [OF p2 subset_refl this, of clk] obtain q3 where q3: "run_expired clk adds due q2 = Inr q3"
    "pending_ok q3 due" "set (timers q2) \<subseteq> set (timers q3)"
    "\<forall>e\<in>set due. entry_of ` set (adds (cb_of q2 e)) \<subseteq> set (timers q3)" "tick q2 \<le> tick q3"
    "ran q3 = ran q2 @ map (cb_of q2) due" "\<forall>p. p \<notin> set (added_by adds q2 due) \<longrightarrow> store q3 p = store q2 p" by blast
  let ?q3 = "q3\<lparr>callingExpiredTimers := False\<rparr>"
  have "pending_ok ?q3 due" using q3(2) by (simp add: pending_ok_def)
  from reset_pending [OF this, of clk] obtain q' where q': "TimerQueue_reset clk due ?q3 = Inr q'" "queue_ok q'"
    "set (timers q3) \<subseteq> set (timers q')" "ran q' = ran q3" "\<forall>e\<in>set due. reset_outcome clk ?q3 q' e"
    "due \<noteq> [] \<longrightarrow> armed clk q'" by auto
  have "handleRead clk adds q = Inr q'"
    using ge q3(1) q'(1) by (simp add: handleRead_def read_clock_def q0_def case_prod_unfold)
  moreover have "reset_outcome clk q q' e" if e: "e \<in> set due" for e
  proof (rule reset_outcome_mono [OF q'(5) [rule_format, OF e]])
    have "snd e \<notin> set (added_by adds q2 due)"
      using e new ok cb by (force simp: new_contract_def fresh_for_def queue_ok_def entries_ok_iff due added_by_def)
    then show "store ?q3 (snd e) = store q (snd e)" using q3(7) by (simp add: q2_def q0_def)
    show "tick q \<le> tick ?q3" using q3(5) by (simp add: q2_def q0_def)
  qed
  moreover have "e \<in> set (timers q')" if "e \<in> set (timers q)" "?now < fst e" for e
    using that q3(3) q'(3) by (auto simp: q2_def)
  moreover have "\<forall>e\<in>set due. entry_of ` set (adds (cb_of q e)) \<subseteq> set (timers q')"
    using q3(4) q'(3) unfolding cb by blast
  moreover have "ran q' = ran q @ map (cb_of q) due" using q'(4) q3(6) cb by (simp add: q2_def q0_def)
  ultimately show ?thesis using q'(2,6) by blast
qed

definition sample_queue :: "string timer_queue" where
  "sample_queue =
     \<lparr>timers = [(1000, 4), (1500, 7), (9000, 2)],
      store = [4 \<mapsto> Timer ''once'' 1000 (Dbl 0 0), 7 \<mapsto> Timer ''tick'' 1500 (Dbl 1 0), 2 \<mapsto> Timer ''late'' 9000 (Dbl 0 0)],
      callingExpiredTimers = False, tick = 0, settime = [], ran = []\<rparr>"

theorem timer_expiry_correct_witness:
  "\<exists>q'. handleRead (\<lambda>n. 2000 + int n) (\<lambda>cb. if cb = ''once'' then [(9, ''new'', 8000, Dbl 0 0)] else []) sample_queue = Inr q' \<and>
    ran q' = [''once'', ''tick''] \<and> store q' 4 = None \<and> (8000, 9) \<in> set (timers q') \<and> (9000, 2) \<in> set (timers q')"
  using timer_expiry_correct [of sample_queue "[(1000, 4), (1500, 7)]" "\<lambda>n. 2000 + int n"
      "\<lambda>cb. if cb = ''once'' then [(9, ''new'', 8000, Dbl 0 0)] else []"]
  by (auto simp: sample_queue_def queue_ok_def entries_ok_def fresh_for_def uintptr_max_def Timer_def cb_of_def
      new_contract_def added_by_def entry_of_def reset_outcome_def)

text \<open>when the descriptor fires but no timer is due by the wall clock, \<open>handleRead\<close> leaves the queue as it is and
  does not arm the descriptor again, although timers remain: the loop of \<open>reset\<close> is the only place that would.\<close>

theorem early_expiry_not_rearmed:
  assumes "queue_ok q" and "timers q \<noteq> []" and "clk (tick q) < fst (hd (timers q))"
  shows "\<exists>q'. handleRead clk adds q = Inr q' \<and> timers q' = timers q \<and> settime q' = settime q \<and> ran q' = ran q"
proof -
  obtain e es where t: "timers q = e # es" using assms(2) by (cases "timers q") auto
  have "\<not> e < (clk (tick q), uintptr_max)" using assms t by (cases e) (auto simp: queue_ok_def entries_ok_def)
  then show ?thesis
    by (simp add: handleRead_def read_clock_def getExpired_def Let_def t)
qed

theorem early_expiry_not_rearmed_witness:
  "\<exists>q'. handleRead (\<lambda>n. 500) (\<lambda>cb. []) sample_queue = Inr q' \<and> timers q' = timers sample_queue \<and> settime q' = []"
  using early_expiry_not_rearmed [of sample_queue "\<lambda>n. 500" "\<lambda>cb. []"]
  by (auto simp: sample_queue_def queue_ok_def entries_ok_def uintptr_max_def Timer_def)

text \<open>the interval of a repeating timer is not lost in the conversion: a reading plus a positive number of
  whole seconds (below \<open>2 ^ 33\<close>) advances by exactly that many microseconds, and no interval moves the expiration back.\<close>

theorem addTime_exact:
  "(0 \<le> k \<and> k < 2 ^ 33 \<longrightarrow> addTime t (Dbl k 0) = t + k * 1000000) \<and> (0 \<le> mant d \<longrightarrow> t \<le> addTime t d)"
proof -
  have "addTime t (Dbl k 0) = t + k * 1000000" if k: "0 \<le> k" "k < 2 ^ 33"
  proof -
    have b: "bitlen (k * 1000000) \<le> 53"
    proof (cases "k = 0")
      case False
      then have "k * 1000000 < 2 ^ nat 53" using k by simp
      then show ?thesis using bitlen_le_iff_power by simp
    qed simp
    then have "micros (Dbl k 0) = k * 1000000"
      using k by (simp add: micros_def round53_def trunc_dbl_def kMicroSecondsPerSecond_def)
    then show ?thesis by (simp add: addTime_def)
  qed
  then show ?thesis using micros_nonneg by (auto simp: addTime_def)
qed

theorem addTime_exact_witness: "addTime 5 (Dbl 3 0) = 3000005 \<and> 7 \<le> addTime 7 (Dbl 1 (-1))"
  using addTime_exact [of 3 5 "Dbl 1 (-1)"] addTime_exact [of 0 7 "Dbl 1 (-1)"] by simp

end
