(* ===== verification/EventLoops.thy ===== *)
theory EventLoops
  imports EpollPoller Timers "HOL-Library.Transitive_Closure_Table"
begin

text \<open>
  The event loop: \<^verbatim>\<open>include/EventLoop.h\<close> and \<^verbatim>\<open>src/EventLoop.cc\<close>. The first part models the operations on the state that the threads
  share (the queue of functors, the flags, the counter of the \<^verbatim>\<open>eventfd\<close>), the second the constructor and the timer requests, the third the
  interleaving of the loop thread, stopped between any two of its operations on the shared state, with any number of other threads. What a
  functor does to its loop when it runs is a parameter \<open>acts\<close>; \<open>posted\<close> and \<open>executed\<close> are the histories of
  the functors queued and run.
\<close>

section \<open>Shared state and its operations\<close>

record 'f loop_state =
  pendingFunctors :: "'f list"
  callingPendingFunctors :: bool
  quit_flag :: bool
  looping :: bool
  wake_count :: nat
  posted :: "'f list"
  executed :: "'f list"

text \<open>The counter of an \<^verbatim>\<open>eventfd\<close> holds at most \<open>2 ^ 64 - 2\<close>; a write beyond it is refused (the descriptor does not block).\<close>

definition eventfd_max :: nat where "eventfd_max = 2 ^ 64 - 2"

definition wakeup :: "'f loop_state \<Rightarrow> 'f loop_state" where
  "wakeup s = (if wake_count s < eventfd_max then s\<lparr>wake_count := Suc (wake_count s)\<rparr> else s)"

text \<open>The read callback of the wake-up channel: a read returns the counter and resets it.\<close>

definition EventLoop_handleRead :: "'f loop_state \<Rightarrow> 'f loop_state" where
  "EventLoop_handleRead s = s\<lparr>wake_count := 0\<rparr>"

definition enqueue :: "'f \<Rightarrow> 'f loop_state \<Rightarrow> 'f loop_state" where
  "enqueue cb s = s\<lparr>pendingFunctors := pendingFunctors s @ [cb], posted := posted s @ [cb]\<rparr>"

definition queueInLoop :: "bool \<Rightarrow> 'f \<Rightarrow> 'f loop_state \<Rightarrow> 'f loop_state" where
  "queueInLoop inLoopThread cb s =
     (let s1 = enqueue cb s
      in if \<not> inLoopThread \<or> callingPendingFunctors s1 then wakeup s1 else s1)"

definition EventLoop_quit :: "bool \<Rightarrow> 'f loop_state \<Rightarrow> 'f loop_state" where
  "EventLoop_quit inLoopThread s =
     (let s1 = s\<lparr>quit_flag := True\<rparr> in if \<not> inLoopThread then wakeup s1 else s1)"

text \<open>What code running in the loop thread does to its own loop.\<close>

datatype 'f action = Queue 'f | Quit

fun act :: "'f action \<Rightarrow> 'f loop_state \<Rightarrow> 'f loop_state" where
  "act (Queue cb) s = queueInLoop True cb s"
| "act Quit s = EventLoop_quit True s"

definition perform :: "'f action list \<Rightarrow> 'f loop_state \<Rightarrow> 'f loop_state" where
  "perform as s = fold act as s"

definition runInLoop :: "('f \<Rightarrow> 'f action list) \<Rightarrow> bool \<Rightarrow> 'f \<Rightarrow> 'f loop_state \<Rightarrow> 'f loop_state" where
  "runInLoop acts inLoopThread cb s =
     (if inLoopThread then perform (acts cb) s else queueInLoop False cb s)"

definition run_functor :: "('f \<Rightarrow> 'f action list) \<Rightarrow> 'f \<Rightarrow> 'f loop_state \<Rightarrow> 'f loop_state" where
  "run_functor acts f s = perform (acts f) (s\<lparr>executed := executed s @ [f]\<rparr>)"

definition begin_functors :: "'f loop_state \<Rightarrow> 'f loop_state" where
  "begin_functors s = s\<lparr>callingPendingFunctors := True\<rparr>"

definition swap_functors :: "'f loop_state \<Rightarrow> 'f list \<times> 'f loop_state" where
  "swap_functors s = (pendingFunctors s, s\<lparr>pendingFunctors := []\<rparr>)"

definition end_functors :: "'f loop_state \<Rightarrow> 'f loop_state" where
  "end_functors s = s\<lparr>callingPendingFunctors := False\<rparr>"

definition doPendingFunctors :: "('f \<Rightarrow> 'f action list) \<Rightarrow> 'f loop_state \<Rightarrow> 'f loop_state" where
  "doPendingFunctors acts s =
     (let (functors, s1) = swap_functors (begin_functors s)
      in end_functors (fold (run_functor acts) functors s1))"

text \<open>What \<open>loop()\<close> does before its first round, in a round whose poll reports the wake-up channel or not and whose other
  active channels do \<open>as\<close>, and after the last.\<close>

definition loop_enter :: "'f loop_state \<Rightarrow> 'f loop_state" where
  "loop_enter s = s\<lparr>looping := True, quit_flag := False\<rparr>"

definition loop_round :: "('f \<Rightarrow> 'f action list) \<Rightarrow> bool \<Rightarrow> 'f action list \<Rightarrow> 'f loop_state \<Rightarrow> 'f loop_state" where
  "loop_round acts ready as s =
     doPendingFunctors acts (perform as (if ready then EventLoop_handleRead s else s))"

definition loop_exit :: "'f loop_state \<Rightarrow> 'f loop_state" where
  "loop_exit s = s\<lparr>looping := False\<rparr>"

section \<open>Construction and timers\<close>

record ('f, 'cb) event_loop =
  loop_core :: "'f loop_state"
  loop_reactor :: "'cb reactor"
  timerQueue :: "'f timer_queue option"
  threadId :: int
  wakeupFd :: int
  wakeupChannel :: ptr

definition loop_fresh :: "'f loop_state" where
  "loop_fresh = \<lparr>pendingFunctors = [], callingPendingFunctors = False, quit_flag = False, looping = False,
     wake_count = 0, posted = [], executed = []\<rparr>"

definition createEventfd :: "int \<Rightarrow> int result" where
  "createEventfd evtfd = (if evtfd < 0 then Inl Fatal_abort else Inr evtfd)"

text \<open>
  \<open>env\<close>, \<open>epollfd\<close> and \<open>evtfd\<close> are what the environment and the kernel return, \<open>wc\<close> the address of the new channel, \<open>cb\<close> the
  bound \<open>handleRead\<close>, \<open>other\<close> whether the thread has a loop already. \<open>timerQueue_\<close> is in no initialiser, so the pointer is null.
\<close>

definition EventLoop ::
    "(nat \<Rightarrow> int) \<Rightarrow> bool \<Rightarrow> int \<Rightarrow> int \<Rightarrow> ptr \<Rightarrow> 'cb \<Rightarrow> bool \<Rightarrow> int \<Rightarrow> ('f, 'cb) event_loop result" where
  "EventLoop ret env epollfd evtfd wc cb other tid =
     bind_result (newDefaultPoller env epollfd) (\<lambda>pp.
     bind_result (createEventfd evtfd) (\<lambda>wfd.
     if other then Inl Fatal_abort
     else bind_result (enableReading ret wc \<lparr>chans = [wc \<mapsto> setReadCallback cb (Channel wfd)], poll_ptr = pp\<rparr>) (\<lambda>r.
       Inr \<lparr>loop_core = loop_fresh, loop_reactor = r, timerQueue = None, threadId = tid, wakeupFd = wfd, wakeupChannel = wc\<rparr>)))"

definition EventLoop_dtor :: "(nat \<Rightarrow> int) \<Rightarrow> ('f, 'cb) event_loop \<Rightarrow> 'cb reactor result" where
  "EventLoop_dtor ret l =
     bind_result (disableAll ret (wakeupChannel l) (loop_reactor l)) (\<lambda>r. removeChannel ret (wakeupChannel l) r)"

definition isInLoopThread :: "('f, 'cb) event_loop \<Rightarrow> int \<Rightarrow> bool" where
  "isInLoopThread l tid = (threadId l = tid)"

definition with_timers :: "('f timer_queue \<Rightarrow> 'f timer_queue result) \<Rightarrow> ('f, 'cb) event_loop \<Rightarrow> ('f, 'cb) event_loop result" where
  "with_timers f l =
     (case timerQueue l of None \<Rightarrow> Inl Null_deref
      | Some q \<Rightarrow> bind_result (f q) (\<lambda>q'. Inr (l\<lparr>timerQueue := Some q'\<rparr>)))"

text \<open>The requests made in the loop thread; \<open>now\<close> is the reading of the clock they start with, \<open>p\<close> the address of the new timer.\<close>

definition runAt :: "(nat \<Rightarrow> int) \<Rightarrow> ptr \<Rightarrow> int \<Rightarrow> 'f \<Rightarrow> ('f, 'cb) event_loop \<Rightarrow> ('f, 'cb) event_loop result" where
  "runAt clk p timestamp cb l = with_timers (addTimer clk p cb timestamp (Dbl 0 0)) l"

definition runAfter :: "(nat \<Rightarrow> int) \<Rightarrow> int \<Rightarrow> ptr \<Rightarrow> dbl \<Rightarrow> 'f \<Rightarrow> ('f, 'cb) event_loop \<Rightarrow> ('f, 'cb) event_loop result" where
  "runAfter clk now p waitTime cb l = runAt clk p (addTime now waitTime) cb l"

definition runEvery :: "(nat \<Rightarrow> int) \<Rightarrow> int \<Rightarrow> ptr \<Rightarrow> dbl \<Rightarrow> 'f \<Rightarrow> ('f, 'cb) event_loop \<Rightarrow> ('f, 'cb) event_loop result" where
  "runEvery clk now p itv cb l = with_timers (addTimer clk p cb (addTime now itv) itv) l"

text \<open>
  The constructor and the destructor of the timer queue, which register its descriptor with a reactor and take it out again. A failing
  \<^verbatim>\<open>timerfd_create\<close> is only logged.
\<close>

definition createTimerfd :: "int \<Rightarrow> int" where
  "createTimerfd timerfd = timerfd"

definition TimerQueue :: "(nat \<Rightarrow> int) \<Rightarrow> int \<Rightarrow> ptr \<Rightarrow> 'cb \<Rightarrow> 'cb reactor \<Rightarrow> ('f timer_queue \<times> 'cb reactor) result" where
  "TimerQueue ret timerfd c cb r =
     bind_result (enableReading ret c (r\<lparr>chans := (chans r)(c \<mapsto> setReadCallback cb (Channel (createTimerfd timerfd)))\<rparr>)) (\<lambda>r1.
       Inr (\<lparr>timers = [], store = Map.empty, callingExpiredTimers = False, tick = 0, settime = [], ran = []\<rparr>, r1))"

definition TimerQueue_dtor :: "(nat \<Rightarrow> int) \<Rightarrow> ptr \<Rightarrow> 'f timer_queue \<Rightarrow> 'cb reactor \<Rightarrow> ((ptr \<rightharpoonup> 'f timer) \<times> 'cb reactor) result" where
  "TimerQueue_dtor ret c q r =
     bind_result (disableAll ret c r) (\<lambda>r1.
     bind_result (removeChannel ret c r1) (\<lambda>r2.
       Inr (fold (\<lambda>e st. st(snd e := None)) (timers q) (store q), r2)))"

section \<open>Interleaving\<close>

text \<open>
  Where the loop thread is: outside \<open>loop()\<close>, at the test of \<open>quit_\<close>, in \<open>poll\<close>, handling the active channels (the flag says
  that the wake-up channel is among them and not yet handled), before the swap, running functors, returned.
\<close>

datatype loop_pc = Idle | Test | Polling | Handling bool | Swapping | Running | Returned

text \<open>
  \<open>wakers\<close> counts the threads that have queued a functor or set \<open>quit_\<close> and have not written to the \<^verbatim>\<open>eventfd\<close> yet, \<open>doing\<close> what
  is left of the functor being run. \<open>own\<close> is a history variable: the functors that the loop's own thread queued before \<open>loop()\<close> and that
  no swap has taken yet.
\<close>

record 'f loop_sys =
  core :: "'f loop_state"
  loop_at :: loop_pc
  functors :: "'f list"
  doing :: "'f action list"
  wakers :: nat
  own :: "'f list"

text \<open>The functors that a list of actions queues.\<close>

definition queued_by :: "'f action list \<Rightarrow> 'f list" where
  "queued_by as = List.map_filter (\<lambda>a. case a of Queue cb \<Rightarrow> Some cb | Quit \<Rightarrow> None) as"

inductive other_step :: "'f loop_sys \<Rightarrow> 'f loop_sys \<Rightarrow> bool" where
  post: "other_step s (s\<lparr>core := enqueue cb (core s), wakers := Suc (wakers s)\<rparr>)"
| stop: "other_step s (s\<lparr>core := (core s)\<lparr>quit_flag := True\<rparr>, wakers := Suc (wakers s)\<rparr>)"
| wake: "wakers s = Suc n \<Longrightarrow> other_step s (s\<lparr>core := wakeup (core s), wakers := n\<rparr>)"

inductive loop_step :: "('f \<Rightarrow> 'f action list) \<Rightarrow> 'f loop_sys \<Rightarrow> 'f loop_sys \<Rightarrow> bool" for acts where
  before: "loop_at s = Idle \<Longrightarrow> loop_step acts s (s\<lparr>core := act a (core s), own := own s @ queued_by [a]\<rparr>)"
| enter: "loop_at s = Idle \<Longrightarrow>
     loop_step acts s (s\<lparr>core := loop_enter (core s), loop_at := Test\<rparr>)"
| go_on: "loop_at s = Test \<Longrightarrow> \<not> quit_flag (core s) \<Longrightarrow> loop_step acts s (s\<lparr>loop_at := Polling\<rparr>)"
| leave: "loop_at s = Test \<Longrightarrow> quit_flag (core s) \<Longrightarrow>
     loop_step acts s (s\<lparr>core := loop_exit (core s), loop_at := Returned\<rparr>)"
| polled: "loop_at s = Polling \<Longrightarrow> ready \<longrightarrow> 0 < wake_count (core s) \<Longrightarrow> loop_step acts s (s\<lparr>loop_at := Handling ready\<rparr>)"
| drain: "loop_at s = Handling True \<Longrightarrow>
     loop_step acts s (s\<lparr>core := EventLoop_handleRead (core s), loop_at := Handling False\<rparr>)"
| callback: "loop_at s = Handling ready \<Longrightarrow> loop_step acts s (s\<lparr>core := act a (core s)\<rparr>)"
| handled: "loop_at s = Handling False \<Longrightarrow> loop_step acts s (s\<lparr>core := begin_functors (core s), loop_at := Swapping\<rparr>)"
| swap: "loop_at s = Swapping \<Longrightarrow> swap_functors (core s) = (fs, c) \<Longrightarrow>
     loop_step acts s (s\<lparr>core := c, functors := fs, own := [], loop_at := Running\<rparr>)"
| run: "loop_at s = Running \<Longrightarrow> doing s = [] \<Longrightarrow> functors s = f # fs \<Longrightarrow>
     loop_step acts s (s\<lparr>core := (core s)\<lparr>executed := executed (core s) @ [f]\<rparr>, functors := fs, doing := acts f\<rparr>)"
| go: "loop_at s = Running \<Longrightarrow> doing s = a # as \<Longrightarrow> loop_step acts s (s\<lparr>core := act a (core s), doing := as\<rparr>)"
| finish: "loop_at s = Running \<Longrightarrow> doing s = [] \<Longrightarrow> functors s = [] \<Longrightarrow> loop_step acts s (s\<lparr>core := end_functors (core s), loop_at := Test\<rparr>)"

definition sys_step :: "('f \<Rightarrow> 'f action list) \<Rightarrow> 'f loop_sys \<Rightarrow> 'f loop_sys \<Rightarrow> bool" where
  "sys_step acts s t = (other_step s t \<or> loop_step acts s t)"

definition sys_init :: "'f loop_sys \<Rightarrow> bool" where
  "sys_init s = (s = \<lparr>core = loop_fresh, loop_at = Idle, functors = [], doing = [], wakers = 0, own = []\<rparr>)"

inductive_cases other_stepE: "other_step s t"
inductive_cases loop_stepE: "loop_step acts s t"

section \<open>Lemmas on the operations\<close>

lemma wakeup_simps [simp]:
  "pendingFunctors (wakeup s) = pendingFunctors s" "callingPendingFunctors (wakeup s) = callingPendingFunctors s"
  "quit_flag (wakeup s) = quit_flag s" "looping (wakeup s) = looping s" "posted (wakeup s) = posted s" "executed (wakeup s) = executed s"
  by (simp_all add: wakeup_def)

lemma wakeup_count: "0 < wake_count (wakeup s)" "wake_count s \<le> wake_count (wakeup s)"
  by (simp_all add: wakeup_def eventfd_max_def)

lemma enqueue_simps [simp]:
  "pendingFunctors (enqueue cb s) = pendingFunctors s @ [cb]" "posted (enqueue cb s) = posted s @ [cb]"
  "callingPendingFunctors (enqueue cb s) = callingPendingFunctors s" "quit_flag (enqueue cb s) = quit_flag s"
  "executed (enqueue cb s) = executed s" "wake_count (enqueue cb s) = wake_count s" "looping (enqueue cb s) = looping s"
  by (simp_all add: enqueue_def)

lemma queued_by_simps [simp]:
  "queued_by [] = []" "queued_by (Queue cb # as) = cb # queued_by as" "queued_by (Quit # as) = queued_by as"
  by (simp_all add: queued_by_def map_filter_simps)

lemma perform_Cons [simp]: "perform (a # as) s = perform as (act a s)" "perform [] s = s"
  by (simp_all add: perform_def)

lemma act_simps:
  "pendingFunctors (act a s) = pendingFunctors s @ queued_by [a]" "posted (act a s) = posted s @ queued_by [a]"
  "executed (act a s) = executed s" "callingPendingFunctors (act a s) = callingPendingFunctors s"
  "wake_count s \<le> wake_count (act a s)"
  "callingPendingFunctors s \<Longrightarrow> queued_by [a] \<noteq> [] \<Longrightarrow> 0 < wake_count (act a s)"
  by (cases a; simp add: queueInLoop_def EventLoop_quit_def Let_def wakeup_def eventfd_max_def)+

lemma perform_simps:
  "pendingFunctors (perform as s) = pendingFunctors s @ queued_by as"
  "posted (perform as s) = posted s @ queued_by as"
  "executed (perform as s) = executed s"
  "callingPendingFunctors (perform as s) = callingPendingFunctors s"
  "wake_count s \<le> wake_count (perform as s)"
proof (induction as arbitrary: s)
  case (Cons a as)
  have q: "queued_by (a # as) = queued_by [a] @ queued_by as" by (cases a) simp_all
  { case 1 show ?case by (simp add: q Cons.IH act_simps) }
  { case 2 show ?case by (simp add: q Cons.IH act_simps) }
  { case 3 show ?case by (simp add: Cons.IH act_simps) }
  { case 4 show ?case by (simp add: Cons.IH act_simps) }
  { case 5 show ?case using Cons.IH(5) [of "act a s"] act_simps(5) [of s a] by simp }
qed simp_all

lemma perform_wakes: "callingPendingFunctors s \<Longrightarrow> queued_by as \<noteq> [] \<Longrightarrow> 0 < wake_count (perform as s)"
proof (induction as arbitrary: s)
  case (Cons a as)
  show ?case
  proof (cases "queued_by [a] = []")
    case True
    then have "queued_by as \<noteq> []" using Cons.prems(2) by (cases a) simp_all
    with Cons.IH [of "act a s"] Cons.prems(1) show ?thesis by (simp add: act_simps)
  next
    case False
    then have "0 < wake_count (act a s)" using Cons.prems(1) act_simps(6) by blast
    then show ?thesis using perform_simps(5) [of "act a s" as] by simp
  qed
qed simp

lemma run_functor_simps:
  "pendingFunctors (run_functor acts f s) = pendingFunctors s @ queued_by (acts f)"
  "posted (run_functor acts f s) = posted s @ queued_by (acts f)"
  "executed (run_functor acts f s) = executed s @ [f]"
  "callingPendingFunctors (run_functor acts f s) = callingPendingFunctors s"
  "wake_count s \<le> wake_count (run_functor acts f s)"
  using perform_simps(5) [of "s\<lparr>executed := executed s @ [f]\<rparr>" "acts f"] by (simp_all add: run_functor_def perform_simps)

section \<open>Invariants of the interleaving\<close>

definition waking :: "'f loop_sys \<Rightarrow> bool" where
  "waking s \<longleftrightarrow> 0 < wake_count (core s) \<or> 0 < wakers s"

text \<open>The swap that collects the pending functors still comes before the next poll.\<close>

fun collecting :: "loop_pc \<Rightarrow> bool" where
  "collecting (Handling b) = True"
| "collecting Swapping = True"
| "collecting pc = False"

definition loop_inv :: "'f loop_sys \<Rightarrow> bool" where
  "loop_inv s \<longleftrightarrow>
     posted (core s) = executed (core s) @ functors s @ pendingFunctors (core s) \<and>
     (loop_at s \<noteq> Running \<longrightarrow> functors s = []) \<and>
     (callingPendingFunctors (core s) \<longleftrightarrow> loop_at s = Swapping \<or> loop_at s = Running) \<and>
     (\<not> collecting (loop_at s) \<and> pendingFunctors (core s) \<noteq> [] \<longrightarrow> waking s \<or> pendingFunctors (core s) = own s) \<and>
     (loop_at s = Polling \<and> quit_flag (core s) \<longrightarrow> waking s) \<and>
     (loop_at s = Idle \<or> own s \<noteq> [] \<longrightarrow> executed (core s) = [] \<and> loop_at s \<noteq> Running) \<and>
     (own s \<noteq> [] \<longrightarrow> pendingFunctors (core s) \<noteq> [])"

lemma other_step_inv: "loop_inv s \<Longrightarrow> other_step s t \<Longrightarrow> loop_inv t"
  by (erule other_stepE) (auto simp: loop_inv_def waking_def wakeup_count)

lemma act_waking:
  assumes "waking s" and "wakers t = wakers s" and "core t = act a (core s)"
  shows "waking t"
  using assms act_simps(5) [of "core s" a] by (auto simp: waking_def)

lemma loop_step_inv:
  assumes inv: "loop_inv s" and step: "loop_step acts s t"
  shows "loop_inv t"
  using step
proof cases
  case (before a)
  then have "waking s \<Longrightarrow> waking t" using act_waking [of s t a] by simp
  then show ?thesis using inv before by (auto simp: loop_inv_def act_simps)
next
  case (callback ready a)
  then show ?thesis using inv by (auto simp: loop_inv_def act_simps)
next
  case (go a as)
  have calling: "callingPendingFunctors (core s)" and own: "own s = []" using inv go by (auto simp: loop_inv_def)
  have "waking t" if "pendingFunctors (core t) \<noteq> []"
  proof (cases "queued_by [a] = []")
    case True
    then have "waking s" using that inv go own by (auto simp: loop_inv_def act_simps)
    then show ?thesis using act_waking [of s t a] go by simp
  next
    case False
    then show ?thesis using act_simps(6) [OF calling False] go by (simp add: waking_def)
  qed
  then show ?thesis using inv go calling by (auto simp: loop_inv_def act_simps)
qed (use inv in \<open>auto simp: loop_inv_def waking_def loop_enter_def loop_exit_def EventLoop_handleRead_def begin_functors_def end_functors_def swap_functors_def\<close>)

lemma loop_reach_inv:
  assumes "reach sys_init (sys_step acts) s"
  shows "loop_inv s"
  using assms
proof (rule reach_invariant)
  fix s :: "'a loop_sys" assume "sys_init s"
  then show "loop_inv s" by (simp add: sys_init_def loop_inv_def loop_fresh_def)
qed (auto simp: sys_step_def intro: other_step_inv loop_step_inv)

section \<open>Rounds of the loop\<close>

lemma fold_run_functor:
  "pendingFunctors (fold (run_functor acts) fs s) = pendingFunctors s @ concat (map (\<lambda>f. queued_by (acts f)) fs)"
  "executed (fold (run_functor acts) fs s) = executed s @ fs"
  "posted (fold (run_functor acts) fs s) = posted s @ concat (map (\<lambda>f. queued_by (acts f)) fs)"
  by (induction fs arbitrary: s) (simp_all add: run_functor_simps)

lemma fold_run_functor_wakes:
  assumes "callingPendingFunctors s" and "concat (map (\<lambda>f. queued_by (acts f)) fs) \<noteq> [] \<or> 0 < wake_count s"
  shows "0 < wake_count (fold (run_functor acts) fs s)"
  using assms
proof (induction fs arbitrary: s)
  case (Cons f fs)
  let ?s = "run_functor acts f s"
  have "callingPendingFunctors ?s" using Cons.prems(1) by (simp add: run_functor_simps)
  moreover have "concat (map (\<lambda>f. queued_by (acts f)) fs) \<noteq> [] \<or> 0 < wake_count ?s"
  proof (cases "queued_by (acts f) = []")
    case True
    then show ?thesis using Cons.prems(2) run_functor_simps(5) [of s acts f] by auto
  next
    case False
    then show ?thesis
      using Cons.prems(1) perform_wakes [of "s\<lparr>executed := executed s @ [f]\<rparr>" "acts f"] by (simp add: run_functor_def)
  qed
  ultimately show ?case using Cons.IH by simp
qed simp

text \<open>
  The steps that the program is bound to take: a thread that has queued a functor writes to the \<^verbatim>\<open>eventfd\<close>, and the loop thread goes on,
  except that its poll returns only because the \<^verbatim>\<open>eventfd\<close> can be read, never by a timeout or for another channel.
\<close>

definition prompt_step :: "('f \<Rightarrow> 'f action list) \<Rightarrow> 'f loop_sys \<Rightarrow> 'f loop_sys \<Rightarrow> bool" where
  "prompt_step acts s t \<longleftrightarrow>
     (\<exists>n. wakers s = Suc n \<and> t = s\<lparr>core := wakeup (core s), wakers := n\<rparr>) \<or>
     loop_step acts s t \<and> (loop_at s = Polling \<longrightarrow> loop_at t = Handling True)"

lemma prompt_sys: "prompt_step acts s t \<Longrightarrow> sys_step acts s t"
  by (auto simp: prompt_step_def sys_step_def intro: other_step.wake)

lemma doing_finishes:
  assumes "loop_at s = Running"
  shows "\<exists>t. (prompt_step acts)\<^sup>*\<^sup>* s t \<and> loop_at t = Running \<and> doing t = [] \<and> functors t = functors s \<and> executed (core t) = executed (core s)"
  using assms
proof (induction "doing s" arbitrary: s)
  case (Cons a as)
  let ?s = "s\<lparr>core := act a (core s), doing := as\<rparr>"
  have "prompt_step acts s ?s" using loop_step.go [of s a as acts] Cons by (simp add: prompt_step_def)
  moreover obtain t where "(prompt_step acts)\<^sup>*\<^sup>* ?s t" "loop_at t = Running" "doing t = []" "functors t = functors s" "executed (core t) = executed (core s)"
    using Cons.hyps(1) [of ?s] Cons.prems by (auto simp: act_simps)
  ultimately show ?case by (meson converse_rtranclp_into_rtranclp)
qed auto

lemma running_finishes:
  assumes "loop_at s = Running"
  shows "\<exists>t. (prompt_step acts)\<^sup>*\<^sup>* s t \<and> loop_at t = Test \<and> executed (core t) = executed (core s) @ functors s"
  using assms
proof (induction "functors s" arbitrary: s)
  case Nil
  obtain t where t: "(prompt_step acts)\<^sup>*\<^sup>* s t" "loop_at t = Running" "doing t = []" "functors t = functors s" "executed (core t) = executed (core s)"
    using doing_finishes [OF Nil.prems] by blast
  let ?t = "t\<lparr>core := end_functors (core t), loop_at := Test\<rparr>"
  have "prompt_step acts t ?t" using loop_step.finish [of t acts] t Nil.hyps by (simp add: prompt_step_def)
  with t(1) have "(prompt_step acts)\<^sup>*\<^sup>* s ?t" by (rule rtranclp.rtrancl_into_rtrancl)
  then show ?case using t(5) Nil.hyps by (intro exI [where x = ?t]) (simp add: end_functors_def)
next
  case (Cons f fs)
  obtain u where u: "(prompt_step acts)\<^sup>*\<^sup>* s u" "loop_at u = Running" "doing u = []" "functors u = functors s" "executed (core u) = executed (core s)"
    using doing_finishes [OF Cons.prems] by blast
  let ?u = "u\<lparr>core := (core u)\<lparr>executed := executed (core u) @ [f]\<rparr>, functors := fs, doing := acts f\<rparr>"
  have "prompt_step acts u ?u" using loop_step.run [of u f fs acts] u Cons.hyps(2) by (simp add: prompt_step_def)
  with u(1) have su: "(prompt_step acts)\<^sup>*\<^sup>* s ?u" by (rule rtranclp.rtrancl_into_rtrancl)
  obtain t where "(prompt_step acts)\<^sup>*\<^sup>* ?u t" "loop_at t = Test" "executed (core t) = executed (core s) @ f # fs"
    using Cons.hyps(1) [of ?u] u by auto
  with su Cons.hyps(2) show ?case by (metis rtranclp_trans)
qed

lemma woken_poll_finishes:
  assumes "loop_at s = Polling" and "0 < wake_count (core s)"
  shows "\<exists>t. (prompt_step acts)\<^sup>*\<^sup>* s t \<and> loop_at t = Test \<and> executed (core t) = executed (core s) @ pendingFunctors (core s)"
proof -
  let ?s1 = "s\<lparr>loop_at := Handling True\<rparr>"
  let ?s2 = "?s1\<lparr>core := EventLoop_handleRead (core ?s1), loop_at := Handling False\<rparr>"
  let ?s3 = "?s2\<lparr>core := begin_functors (core ?s2), loop_at := Swapping\<rparr>"
  let ?s4 = "?s3\<lparr>core := snd (swap_functors (core ?s3)), functors := fst (swap_functors (core ?s3)), own := [], loop_at := Running\<rparr>"
  have "prompt_step acts s ?s1" using loop_step.polled [of s True acts] assms by (simp add: prompt_step_def)
  moreover have "prompt_step acts ?s1 ?s2" using loop_step.drain [of ?s1 acts] by (simp add: prompt_step_def)
  moreover have "prompt_step acts ?s2 ?s3" using loop_step.handled [of ?s2 acts] by (simp add: prompt_step_def)
  moreover have "prompt_step acts ?s3 ?s4"
    using loop_step.swap [of ?s3 "fst (swap_functors (core ?s3))" "snd (swap_functors (core ?s3))" acts] by (simp add: prompt_step_def)
  moreover obtain t where "(prompt_step acts)\<^sup>*\<^sup>* ?s4 t" "loop_at t = Test"
    "executed (core t) = executed (core s) @ pendingFunctors (core s)"
    using running_finishes [of ?s4 acts]
    by (auto simp: swap_functors_def begin_functors_def EventLoop_handleRead_def)
  ultimately show ?thesis by (meson converse_rtranclp_into_rtranclp)
qed

section \<open>Properties\<close>

text \<open>C4: in every interleaving the functors that were queued are, in the order in which the lock was taken, those run,
  then those of the batch being run, then those pending: none is lost, run twice or overtaken.\<close>

theorem functors_run_in_order:
  assumes "reach sys_init (sys_step acts) s"
  shows "posted (core s) = executed (core s) @ functors s @ pendingFunctors (core s)"
  using loop_reach_inv [OF assms] by (simp add: loop_inv_def)

definition sample_posted :: "string loop_sys" where
  "sample_posted = \<lparr>core = enqueue ''job'' loop_fresh, loop_at = Idle, functors = [], doing = [], wakers = 1, own = []\<rparr>"

lemma sample_posted_reach: "reach sys_init (sys_step acts) sample_posted"
proof -
  let ?s = "\<lparr>core = loop_fresh, loop_at = Idle, functors = [], doing = [], wakers = 0, own = []\<rparr> :: string loop_sys"
  have "reach sys_init (sys_step acts) ?s" by (rule reach.reach_init) (simp add: sys_init_def)
  moreover have "other_step ?s (?s\<lparr>core := enqueue ''job'' (core ?s), wakers := Suc (wakers ?s)\<rparr>)" by (rule other_step.post)
  ultimately show ?thesis by (auto simp: sample_posted_def sys_step_def intro: reach.reach_step)
qed

definition sample_polling :: "string loop_sys" where
  "sample_polling = \<lparr>core = (enqueue ''job'' loop_fresh)\<lparr>looping := True\<rparr>, loop_at = Polling, functors = [], doing = [], wakers = 1, own = []\<rparr>"

lemma sample_polling_reach: "reach sys_init (sys_step acts) sample_polling"
proof -
  let ?t = "sample_posted\<lparr>core := loop_enter (core sample_posted), loop_at := Test\<rparr>"
  have "loop_step acts sample_posted ?t" by (rule loop_step.enter) (simp add: sample_posted_def)
  moreover have "loop_step acts ?t (?t\<lparr>loop_at := Polling\<rparr>)" by (rule loop_step.go_on) (simp_all add: loop_enter_def)
  moreover have "?t\<lparr>loop_at := Polling\<rparr> = sample_polling"
    by (simp add: sample_posted_def sample_polling_def loop_fresh_def enqueue_def loop_enter_def)
  ultimately show ?thesis using sample_posted_reach by (metis reach.reach_step sys_step_def)
qed

theorem functors_run_in_order_witness: "posted (core sample_polling) = [] @ [] @ [''job'']"
  using functors_run_in_order [OF sample_polling_reach] by (simp add: sample_polling_def loop_fresh_def enqueue_def)

text \<open>C3: no wake-up is lost, but for functors queued too early. Whenever the loop thread is in \<open>poll\<close> while functors are pending or
  \<open>quit_\<close> is set, either the counter of the \<^verbatim>\<open>eventfd\<close> is positive, so that \<open>poll\<close> returns at once, or the thread that queued or quit is
  about to write to it, or no \<open>quit()\<close> is due, no functor has run yet and all that is pending was queued by the loop's own thread before it
  called \<open>loop()\<close>: \<open>queueInLoop\<close> then writes nothing and the first poll does block (\<open>early_functor_sleeps\<close>).\<close>

theorem no_lost_wakeup:
  assumes "reach sys_init (sys_step acts) s" and "loop_at s = Polling"
    and "pendingFunctors (core s) \<noteq> [] \<or> quit_flag (core s)"
  shows "0 < wake_count (core s) \<or> 0 < wakers s \<or>
    \<not> quit_flag (core s) \<and> pendingFunctors (core s) = own s \<and> executed (core s) = []"
  using loop_reach_inv [OF assms(1)] assms(2,3) by (auto simp: loop_inv_def waking_def)

theorem no_lost_wakeup_witness: "0 < wake_count (core sample_polling) \<or> 0 < wakers sample_polling \<or>
    pendingFunctors (core sample_polling) = own sample_polling"
  using no_lost_wakeup [OF sample_polling_reach] by (simp add: sample_polling_def)

text \<open>The exception is real: a functor that the loop's own thread queues before \<open>loop()\<close> is pending at the first poll, with nobody to end it.\<close>

lemma early_functor_sleeps:
  "\<exists>s. reach sys_init (sys_step acts) s \<and> loop_at s = Polling \<and> pendingFunctors (core s) = [f] \<and> own s = [f] \<and> \<not> waking s"
proof -
  let ?s = "\<lparr>core = loop_fresh, loop_at = Idle, functors = [], doing = [], wakers = 0, own = []\<rparr>"
  let ?s1 = "?s\<lparr>core := act (Queue f) (core ?s), own := own ?s @ queued_by [Queue f]\<rparr>"
  let ?s2 = "?s1\<lparr>core := loop_enter (core ?s1), loop_at := Test\<rparr>"
  let ?s3 = "?s2\<lparr>loop_at := Polling\<rparr>"
  have "reach sys_init (sys_step acts) ?s" by (rule reach.reach_init) (simp add: sys_init_def)
  moreover have "sys_step acts ?s ?s1" unfolding sys_step_def by (rule disjI2, rule loop_step.before) simp
  moreover have "sys_step acts ?s1 ?s2" unfolding sys_step_def by (rule disjI2, rule loop_step.enter) simp
  moreover have "sys_step acts ?s2 ?s3" unfolding sys_step_def by (rule disjI2, rule loop_step.go_on) (simp_all add: loop_enter_def)
  ultimately have "reach sys_init (sys_step acts) ?s3" by (meson reach.reach_step)
  then show ?thesis
    by (intro exI [where x = ?s3]) (simp add: waking_def queueInLoop_def enqueue_def loop_fresh_def loop_enter_def)
qed

text \<open>C24: progress by the wake-up alone. From every reachable state in which the loop thread is in \<open>poll\<close> with functors pending that it
  did not queue all by itself before \<open>loop()\<close>, the threads that are already under way, none of them queueing anything and the poll never timing
  out nor returning for another channel, can take the loop to the end of a round that has run all these functors, in order.\<close>

theorem pending_functors_get_run:
  assumes reach: "reach sys_init (sys_step acts) s" and poll: "loop_at s = Polling"
    and pend: "pendingFunctors (core s) \<noteq> []" "pendingFunctors (core s) \<noteq> own s"
  shows "\<exists>t. (prompt_step acts)\<^sup>*\<^sup>* s t \<and> loop_at t = Test \<and>
    executed (core t) = executed (core s) @ pendingFunctors (core s)"
proof -
  have "waking s" using loop_reach_inv [OF reach] poll pend by (auto simp: loop_inv_def)
  then consider "0 < wake_count (core s)" | n where "wakers s = Suc n" by (auto simp: waking_def gr0_conv_Suc)
  then show ?thesis
  proof cases
    case 1
    from woken_poll_finishes [OF poll 1] show ?thesis .
  next
    case 2
    let ?s = "s\<lparr>core := wakeup (core s), wakers := n\<rparr>"
    have "prompt_step acts s ?s" using 2 by (auto simp: prompt_step_def)
    moreover obtain t where "(prompt_step acts)\<^sup>*\<^sup>* ?s t" "loop_at t = Test" "executed (core t) = executed (core s) @ pendingFunctors (core s)"
      using woken_poll_finishes [of ?s acts] poll by (auto simp: wakeup_count)
    ultimately show ?thesis by (meson converse_rtranclp_into_rtranclp)
  qed
qed

theorem pending_functors_get_run_witness:
  "\<exists>t. (prompt_step (\<lambda>f. []))\<^sup>*\<^sup>* sample_polling t \<and> loop_at t = Test \<and> executed (core t) = [''job'']"
  using pending_functors_get_run [OF sample_polling_reach, of "\<lambda>f. []"]
  by (simp add: sample_polling_def loop_fresh_def enqueue_def)

text \<open>Without a wake-up the prompt steps do not leave the poll: the early functors above are not run by them.\<close>

lemma sleeping_poll_stuck:
  assumes "loop_at s = Polling" and "\<not> waking s"
  shows "\<not> prompt_step acts s t"
  using assms by (auto simp: prompt_step_def waking_def elim!: loop_stepE)

text \<open>one round of the loop runs exactly the functors pending when the channels have been handled, in order; those they queue in turn
  stay for the next round, which the counter is then set to start without blocking.\<close>

theorem loop_round_runs_pending:
  "let s' = loop_round acts ready as s; fs = pendingFunctors s @ queued_by as in
   executed s' = executed s @ fs \<and>
   pendingFunctors s' = concat (map (\<lambda>f. queued_by (acts f)) fs) \<and>
   \<not> callingPendingFunctors s' \<and>
   (pendingFunctors s' \<noteq> [] \<longrightarrow> 0 < wake_count s')"
proof -
  let ?t = "perform as (if ready then EventLoop_handleRead s else s)"
  let ?s = "?t\<lparr>callingPendingFunctors := True, pendingFunctors := []\<rparr>"
  have "loop_round acts ready as s = end_functors (fold (run_functor acts) (pendingFunctors ?t) ?s)"
    by (simp add: loop_round_def doPendingFunctors_def swap_functors_def begin_functors_def)
  moreover have "pendingFunctors ?t = pendingFunctors s @ queued_by as" "executed ?t = executed s"
    by (simp_all add: perform_simps EventLoop_handleRead_def)
  ultimately show ?thesis
    using fold_run_functor_wakes [of ?s acts "pendingFunctors ?t"] by (simp add: end_functors_def fold_run_functor Let_def)
qed

theorem loop_round_runs_pending_witness:
  "0 < wake_count (loop_round (\<lambda>f. if f = ''a'' then [Queue ''b''] else []) True [] (enqueue ''a'' loop_fresh))"
  using loop_round_runs_pending [of "\<lambda>f. if f = ''a'' then [Queue ''b''] else []" True "[]" "enqueue ''a'' loop_fresh"]
  by (simp add: loop_fresh_def Let_def)

text \<open>A new channel for a descriptor that no other channel is registered for.\<close>

lemma fresh_channel_ok:
  assumes "reactor_ok r" and "chans r c = None" and "poll_ptr r = Some p" and "channels p sfd = None"
    and "fd ch = sfd" and "events ch = 0" and "index ch = kNew"
  shows "reactor_ok (r\<lparr>chans := (chans r)(c \<mapsto> ch)\<rparr>)" and "usable (r\<lparr>chans := (chans r)(c \<mapsto> ch)\<rparr>) c" and "mask_of (r\<lparr>chans := (chans r)(c \<mapsto> ch)\<rparr>) c = Some 0"
proof -
  have "reactor_ok (r\<lparr>chans := (chans r)(c := Some ch)\<rparr>)" by (rule reactor_ok_drop) (use assms in simp_all)
  then show "reactor_ok (r\<lparr>chans := (chans r)(c \<mapsto> ch)\<rparr>)" by simp
  show "usable (r\<lparr>chans := (chans r)(c \<mapsto> ch)\<rparr>) c" "mask_of (r\<lparr>chans := (chans r)(c \<mapsto> ch)\<rparr>) c = Some 0"
    using assms by (simp_all add: usable_def mask_of_def)
qed

text \<open>A channel that starts to be watched for reading, and how its owner takes it out again.\<close>

lemma watch_then_remove:
  assumes ok0: "reactor_ok r0" and use0: "usable r0 c" and m0: "mask_of r0 c = Some 0"
    and r: "change_events ret (\<lambda>e. e OR kReadEvent) c r0 = Inr r"
  shows "reactor_ok r \<and> watched r c = Some kReadEvent \<and>
    (\<forall>r' r''. change_events ret (\<lambda>e. kNoneEvent) c r = Inr r' \<and> removeChannel ret c r' = Inr r'' \<longrightarrow> reactor_ok r'' \<and> watched r'' c = None)"
proof -
  note u = epoll.upd_ok [OF ok0 use0 r]
  have m: "mask_of r c = Some kReadEvent" using u m0 by simp
  then have w: "watched r c = Some kReadEvent"
    using epoll.upd_watch [OF ok0 use0 r] by (simp add: event_bits)
  have use: "usable r c"
  proof -
    obtain ch where "chans r c = Some ch" "index ch = kAdded"
      using w watched_ok [of r c] u by (auto split: option.splits if_splits)
    moreover obtain p' where "poll_ptr r = Some p'" "poller_ok (chans r) p'"
      using u by (auto simp: reactor_ok_def split: option.splits)
    ultimately show ?thesis using poller_okD(2) [of "chans r" p' c ch] by (simp add: usable_def index_defs)
  qed
  have "reactor_ok r'' \<and> watched r'' c = None" if r': "change_events ret (\<lambda>e. kNoneEvent) c r = Inr r'" "removeChannel ret c r' = Inr r''" for r' r''
  proof -
    have ok: "reactor_ok r" using u by simp
    obtain ch where ch: "chans r c = Some ch" "reactor_ok r'"
      "chans r' = (chans r)(c \<mapsto> ch\<lparr>events := kNoneEvent, index := next_index (index ch) kNoneEvent\<rparr>)"
      using change_events_Inr [OF ok use r'(1)] by metis
    obtain p' where p': "poll_ptr r' = Some p'" "poller_ok (chans r') p'"
      using ch(2) by (auto simp: reactor_ok_def split: option.splits)
    have "usable r' c"
      using poller_okD(2) [OF p'(2), of c "ch\<lparr>events := kNoneEvent, index := next_index (index ch) kNoneEvent\<rparr>"] ch(3) p'(1)
      by (simp add: usable_def next_index_def index_defs split: if_splits)
    from epoll.rem_ok [OF ch(2) this r'(2)] show ?thesis by simp
  qed
  then show ?thesis using u w by blast
qed

text \<open>a constructed loop listens to its wake-up descriptor for reading, its reactor satisfies the invariant, and its destructor
  takes the channel out of the poller again; with \<^verbatim>\<open>MUDUO_USE_POLL\<close> set the constructor uses a null poller.\<close>

theorem loop_construction:
  assumes "EventLoop ret env epollfd evtfd wc cb other tid = Inr l"
  shows "\<not> env \<and> reactor_ok (loop_reactor l) \<and> watched (loop_reactor l) wc = Some kReadEvent \<and>
    (\<forall>r. EventLoop_dtor ret l = Inr r \<longrightarrow> reactor_ok r \<and> watched r wc = None)"
proof -
  let ?ch = "setReadCallback cb (Channel evtfd)"
  from assms obtain pp r where pp: "newDefaultPoller env epollfd = Inr pp"
    and r: "change_events ret (\<lambda>e. e OR kReadEvent) wc \<lparr>chans = [wc \<mapsto> ?ch], poll_ptr = pp\<rparr> = Inr r"
    and l: "l = \<lparr>loop_core = loop_fresh, loop_reactor = r, timerQueue = None, threadId = tid, wakeupFd = evtfd, wakeupChannel = wc\<rparr>"
    by (auto simp: EventLoop_def createEventfd_def enableReading_def split: if_splits)
  let ?r0 = "\<lparr>chans = [wc \<mapsto> ?ch], poll_ptr = pp\<rparr>"
  have some: "pp \<noteq> None" using r by (auto simp: change_events_def updateChannel_def split: option.splits)
  then obtain p where p: "pp = Some p" "p = \<lparr>channels = Map.empty, event_slots = kInitEventListSize, ctl_calls = []\<rparr>" and env: "\<not> env"
    using pp by (auto simp: newDefaultPoller_def EPollPoller_def split: if_splits)
  have ok0: "reactor_ok ?r0" and use0: "usable ?r0 wc" and m0: "mask_of ?r0 wc = Some 0"
    by (auto simp: p reactor_ok_def poller_ok_def usable_def setReadCallback_def Channel_def index_defs mask_of_def)
  note w = watch_then_remove [OF ok0 use0 m0 r]
  have "reactor_ok r'' \<and> watched r'' wc = None" if "EventLoop_dtor ret l = Inr r''" for r''
    using that w l by (auto simp: EventLoop_dtor_def disableAll_def)
  then show ?thesis using env w l by simp
qed

text \<open>A timer queue is watched from its construction to its destructor, which frees every timer that is still queued.\<close>

lemma delete_all: "fold (\<lambda>e st. st(snd e := None)) es st = (\<lambda>p. if p \<in> snd ` set es then None else st p)"
  by (induction es arbitrary: st) (auto simp: fun_eq_iff)

lemma timer_queue_lifecycle:
  assumes ok: "reactor_ok r" "chans r c = None" "poll_ptr r = Some p" "channels p tfd = None"
    and new: "TimerQueue ret tfd c cb r = Inr (q, r1)"
  shows "watched r1 c = Some kReadEvent \<and> queue_ok q \<and>
    (\<forall>q' st r2. dom (store q') = snd ` set (timers q') \<and> TimerQueue_dtor ret c q' r1 = Inr (st, r2) \<longrightarrow> watched r2 c = None \<and> st = Map.empty)"
proof -
  let ?r0 = "r\<lparr>chans := (chans r)(c \<mapsto> setReadCallback cb (Channel tfd))\<rparr>"
  have r1: "change_events ret (\<lambda>e. e OR kReadEvent) c ?r0 = Inr r1" and q: "queue_ok q"
    using new by (auto simp: TimerQueue_def createTimerfd_def enableReading_def queue_ok_def entries_ok_def)
  have chf: "fd (setReadCallback cb (Channel tfd)) = tfd" "events (setReadCallback cb (Channel tfd)) = 0" "index (setReadCallback cb (Channel tfd)) = kNew"
    by (simp_all add: setReadCallback_def Channel_def kNew_def)
  note w = watch_then_remove [OF fresh_channel_ok [OF ok chf] r1]
  have "watched r2 c = None \<and> st = Map.empty" if d: "dom (store q') = snd ` set (timers q')" "TimerQueue_dtor ret c q' r1 = Inr (st, r2)" for q' st r2
  proof -
    have "st = (\<lambda>p. if p \<in> snd ` set (timers q') then None else store q' p)" using d(2) by (auto simp: TimerQueue_dtor_def delete_all)
    then have "st = Map.empty" using d(1) by (auto simp: fun_eq_iff domIff)
    then show ?thesis using d(2) w by (auto simp: TimerQueue_dtor_def disableAll_def)
  qed
  then show ?thesis using w q by blast
qed

definition sample_loop :: "(string, string) event_loop result" where
  "sample_loop = EventLoop (\<lambda>n. 0) False 3 4 7 ''wake'' False 11"

lemma sample_loop_Inr: "\<exists>l. sample_loop = Inr l"
  by (simp add: sample_loop_def EventLoop_def newDefaultPoller_def EPollPoller_def createEventfd_def enableReading_def
      change_events_def updateChannel_def setReadCallback_def Channel_def index_defs epoll_update_def Let_def)

theorem loop_construction_witness:
  "\<exists>l. EventLoop (\<lambda>n. 0) False 3 4 7 ''wake'' False 11 = Inr (l :: (string, string) event_loop) \<and> watched (loop_reactor l) 7 = Some kReadEvent"
  using sample_loop_Inr loop_construction [of "\<lambda>n. 0" False 3 4 7 "''wake''" False 11] by (auto simp: sample_loop_def)

text \<open>no loop can run a timer. The constructor never creates the timer queue, so every request \<open>runAt\<close>, \<open>runAfter\<close> or \<open>runEvery\<close>
  on a constructed loop dereferences a null pointer.\<close>

theorem timers_never_available:
  assumes "EventLoop ret env epollfd evtfd wc cb other tid = Inr l"
  shows "runAt clk p t f l = Inl Null_deref \<and> runAfter clk now p d f l = Inl Null_deref \<and> runEvery clk now p d f l = Inl Null_deref"
proof -
  have "timerQueue l = None" using assms by (auto simp: EventLoop_def split: if_splits)
  then show ?thesis by (simp add: runAt_def runAfter_def runEvery_def with_timers_def)
qed

theorem timers_never_available_witness:
  "\<exists>l. EventLoop (\<lambda>n. 0) False 3 4 7 ''wake'' False 11 = Inr (l :: (string, string) event_loop) \<and>
     runAt (\<lambda>n. 0) 1 100 ''f'' l = Inl Null_deref"
proof -
  obtain l where l: "EventLoop (\<lambda>n. 0) False 3 4 7 ''wake'' False 11 = Inr (l :: (string, string) event_loop)"
    using sample_loop_Inr by (auto simp: sample_loop_def)
  from l timers_never_available [OF l] show ?thesis by blast
qed

section \<open>Requests before the loop runs\<close>

text \<open>A \<open>quit\<close> before \<open>loop()\<close> is forgotten when \<open>loop()\<close> starts.\<close>

lemma quit_before_loop_is_lost:
  assumes "loop_at s = Idle" and "loop_step acts (s\<lparr>core := EventLoop_quit b (core s)\<rparr>) t" and "loop_at t \<noteq> Idle"
  shows "\<not> quit_flag (core t) \<and> loop_at t = Test"
  using assms(2,1,3) by cases (auto simp: loop_enter_def)

text \<open>A functor that the loop's own thread queues before \<open>loop()\<close> leaves the counter at zero: the first poll blocks until it times out.\<close>

lemma queue_before_loop_sleeps:
  "loop_enter (queueInLoop True f loop_fresh) =
     loop_fresh\<lparr>pendingFunctors := [f], posted := [f], looping := True\<rparr> \<and> wake_count (loop_enter (queueInLoop True f loop_fresh)) = 0"
  by (simp add: loop_enter_def queueInLoop_def enqueue_def loop_fresh_def)

end
