(* ===== verification/Sockets.thy ===== *)
theory Sockets
  imports EventLoops
begin

unbundle bit_operations_syntax

text \<open>
  Socket addresses, sockets and the acceptor: \<^verbatim>\<open>src/InetAddress.cc\<close>, \<^verbatim>\<open>src/Socket.cc\<close> and \<^verbatim>\<open>src/Acceptor.cc\<close>. What the system calls return is
  an argument of the operations.
\<close>

section \<open>InetAddress\<close>

text \<open>The four bytes of an IPv4 address, in the order in which they are written.\<close>

type_synonym in_addr = "8 word \<times> 8 word \<times> 8 word \<times> 8 word"

record sockaddr_in =
  sin_port :: "16 word"
  sin_addr :: in_addr

text \<open>The byte swap of a little-endian machine.\<close>

definition htons :: "16 word \<Rightarrow> 16 word" where
  "htons w = push_bit 8 w OR drop_bit 8 w"

abbreviation ntohs :: "16 word \<Rightarrow> 16 word" where
  "ntohs \<equiv> htons"

text \<open>\<open>inet_addr\<close> is the library function that reads dotted notation.\<close>

definition InetAddress :: "(string \<Rightarrow> in_addr) \<Rightarrow> 16 word \<Rightarrow> string \<Rightarrow> sockaddr_in" where
  "InetAddress inet_addr port ip = \<lparr>sin_port = htons port, sin_addr = inet_addr ip\<rparr>"

definition toIp :: "sockaddr_in \<Rightarrow> string" where
  "toIp a = (case sin_addr a of (b1, b2, b3, b4) \<Rightarrow>
     dec_nat (unat b1) @ ''.'' @ dec_nat (unat b2) @ ''.'' @ dec_nat (unat b3) @ ''.'' @ dec_nat (unat b4))"

text \<open>\<^verbatim>\<open>sprintf\<close> writes behind the address, into an array of 64 bytes that the terminating zero must still fit.\<close>

definition toIpPort :: "sockaddr_in \<Rightarrow> string result" where
  "toIpPort a = (let txt' = toIp a @ '':'' @ dec_nat (unat (ntohs (sin_port a))) in if length txt' < 64 then Inr txt' else Inl Out_of_bounds)"

definition toPort :: "sockaddr_in \<Rightarrow> 16 word" where
  "toPort a = ntohs (sin_port a)"

section \<open>Socket\<close>

datatype sock_opt = TCP_NODELAY | SO_REUSEADDR | SO_REUSEPORT | SO_KEEPALIVE

record socket =
  sock_fd :: int
  sock_opts :: "(sock_opt \<times> int) list"

definition Socket :: "int \<Rightarrow> socket" where
  "Socket sfd = \<lparr>sock_fd = sfd, sock_opts = []\<rparr>"

definition setsockopt :: "sock_opt \<Rightarrow> bool \<Rightarrow> socket \<Rightarrow> socket" where
  "setsockopt opt on s = s\<lparr>sock_opts := sock_opts s @ [(opt, if on then 1 else 0)]\<rparr>"

definition setTcpNoDelay :: "bool \<Rightarrow> socket \<Rightarrow> socket" where "setTcpNoDelay = setsockopt TCP_NODELAY"
definition setReuseAddr :: "bool \<Rightarrow> socket \<Rightarrow> socket" where "setReuseAddr = setsockopt SO_REUSEADDR"
definition setReusePort :: "bool \<Rightarrow> socket \<Rightarrow> socket" where "setReusePort = setsockopt SO_REUSEPORT"
definition setKeepAlive :: "bool \<Rightarrow> socket \<Rightarrow> socket" where "setKeepAlive = setsockopt SO_KEEPALIVE"

definition bindAddress :: "int \<Rightarrow> socket \<Rightarrow> socket result" where
  "bindAddress rc s = (if rc \<noteq> 0 then Inl Fatal_abort else Inr s)"

definition Socket_listen :: "int \<Rightarrow> socket \<Rightarrow> socket result" where
  "Socket_listen rc s = (if rc \<noteq> 0 then Inl Fatal_abort else Inr s)"

text \<open>\<open>connfd\<close> and \<open>addr\<close> are what \<^verbatim>\<open>accept4\<close> returned; the caller's address is set only on success.\<close>

definition Socket_accept :: "int \<Rightarrow> sockaddr_in \<Rightarrow> sockaddr_in \<Rightarrow> int \<times> sockaddr_in" where
  "Socket_accept connfd addr peeraddr = (connfd, if connfd \<ge> 0 then addr else peeraddr)"

section \<open>Acceptor\<close>

definition createNonblocking :: "int \<Rightarrow> int result" where
  "createNonblocking sfd = (if sfd < 0 then Inl Fatal_abort else Inr sfd)"

record 'cb acceptor =
  acceptSocket :: socket
  acceptChannel :: ptr
  acc_reactor :: "'cb reactor"
  hasNewConnectionCallback :: bool
  listenning :: bool

text \<open>\<open>c\<close> is the address of the channel, \<open>r\<close> the reactor of the main loop; the parameter \<open>reuseport\<close> is not used.\<close>

definition Acceptor :: "int \<Rightarrow> int \<Rightarrow> ptr \<Rightarrow> 'cb \<Rightarrow> bool \<Rightarrow> 'cb reactor \<Rightarrow> 'cb acceptor result" where
  "Acceptor sfd bind_rc c cb reuseport r =
     bind_result (createNonblocking sfd) (\<lambda>f.
     bind_result (bindAddress bind_rc (setReusePort True (setReuseAddr True (Socket f)))) (\<lambda>s.
       Inr \<lparr>acceptSocket = s, acceptChannel = c, acc_reactor = r\<lparr>chans := (chans r)(c \<mapsto> setReadCallback cb (Channel f))\<rparr>,
            hasNewConnectionCallback = False, listenning = False\<rparr>))"

definition setNewConnectionCallback :: "'cb acceptor \<Rightarrow> 'cb acceptor" where
  "setNewConnectionCallback a = a\<lparr>hasNewConnectionCallback := True\<rparr>"

definition Acceptor_listen :: "(nat \<Rightarrow> int) \<Rightarrow> int \<Rightarrow> 'cb acceptor \<Rightarrow> 'cb acceptor result" where
  "Acceptor_listen ret listen_rc a =
     bind_result (Socket_listen listen_rc (acceptSocket a)) (\<lambda>s.
     bind_result (enableReading ret (acceptChannel a) (acc_reactor a)) (\<lambda>r.
       Inr (a\<lparr>acceptSocket := s, acc_reactor := r, listenning := True\<rparr>)))"

datatype accept_outcome = Handed_over int sockaddr_in | Closed_again int | Accept_failed

definition Acceptor_handleRead :: "int \<Rightarrow> sockaddr_in \<Rightarrow> 'cb acceptor \<Rightarrow> accept_outcome" where
  "Acceptor_handleRead rc addr a =
     (let (connfd, peerAddr) = Socket_accept rc addr \<lparr>sin_port = 0, sin_addr = (127, 0, 0, 1)\<rparr>
      in if connfd \<ge> 0 then (if hasNewConnectionCallback a then Handed_over connfd peerAddr else Closed_again connfd) else Accept_failed)"

definition Acceptor_dtor :: "(nat \<Rightarrow> int) \<Rightarrow> 'cb acceptor \<Rightarrow> 'cb reactor result" where
  "Acceptor_dtor ret a =
     bind_result (disableAll ret (acceptChannel a) (acc_reactor a)) (removeChannel ret (acceptChannel a))"

section \<open>Texts of addresses\<close>

lemma htons_htons: "htons (htons w) = w"
  by (rule bit_word_eqI) (auto simp: htons_def bit_simps)

lemma dec_nat_digits: "c \<in> set (dec_nat n) \<Longrightarrow> \<exists>d<10. c = digit_char d"
proof (induction n rule: dec_nat.induct)
  case (1 n)
  show ?case
  proof (cases "n < 10")
    case True
    then show ?thesis using 1(2) by (subst (asm) dec_nat.simps) auto
  next
    case False
    then have "c \<in> set (dec_nat (n div 10)) \<or> c = digit_char (n mod 10)" using 1(2) by (subst (asm) dec_nat.simps) auto
    then show ?thesis using 1(1) [OF False] by (metis mod_less_divisor zero_less_numeral)
  qed
qed

lemma digit_not_separator:
  assumes "d < 10"
  shows "CHR ''.'' \<noteq> digit_char d" and "CHR '':'' \<noteq> digit_char d"
proof -
  have d: "(of_char (digit_char d) :: nat) = 48 + d" using assms by simp
  show "CHR ''.'' \<noteq> digit_char d"
  proof
    assume "CHR ''.'' = digit_char d"
    then have "(of_char (CHR ''.'') :: nat) = of_char (digit_char d)" by simp
    with d show False by simp
  qed
  show "CHR '':'' \<noteq> digit_char d"
  proof
    assume "CHR '':'' = digit_char d"
    then have "(of_char (CHR '':'') :: nat) = of_char (digit_char d)" by simp
    with d assms show False by simp
  qed
qed

lemma no_separator: "CHR ''.'' \<notin> set (dec_nat n)" "CHR '':'' \<notin> set (dec_nat n)"
  using dec_nat_digits digit_not_separator by blast+

lemma split_at_separator: "c \<notin> set xs \<Longrightarrow> c \<notin> set xs' \<Longrightarrow> xs @ c # ys = xs' @ c # ys' \<Longrightarrow> xs = xs' \<and> ys = ys'"
proof (induction xs arbitrary: xs')
  case Nil
  then show ?case by (cases xs') auto
next
  case (Cons x xs)
  then show ?case by (cases xs') auto
qed

lemma dec_nat_inj: "dec_nat m = dec_nat n \<Longrightarrow> m = n"
  by (metis parse_dec_nat)

lemma toIp_inj:
  assumes "toIp a @ CHR '':'' # ps = toIp b @ CHR '':'' # qs"
  shows "sin_addr a = sin_addr b \<and> ps = qs"
proof -
  obtain a1 a2 a3 a4 b1 b2 b3 b4 where ab: "sin_addr a = (a1, a2, a3, a4)" "sin_addr b = (b1, b2, b3, b4)" by (metis surj_pair)
  let ?d = "\<lambda>w :: 8 word. dec_nat (unat w)"
  have e1: "?d a1 @ CHR ''.'' # (?d a2 @ CHR ''.'' # (?d a3 @ CHR ''.'' # (?d a4 @ CHR '':'' # ps))) =
      ?d b1 @ CHR ''.'' # (?d b2 @ CHR ''.'' # (?d b3 @ CHR ''.'' # (?d b4 @ CHR '':'' # qs)))"
    using assms ab by (simp add: toIp_def)
  note e2 = split_at_separator [OF no_separator(1) no_separator(1) e1]
  note e3 = split_at_separator [OF no_separator(1) no_separator(1) conjunct2 [OF e2]]
  note e4 = split_at_separator [OF no_separator(1) no_separator(1) conjunct2 [OF e3]]
  note e5 = split_at_separator [OF no_separator(2) no_separator(2) conjunct2 [OF e4]]
  have "a1 = b1" "a2 = b2" "a3 = b3" "a4 = b4" using e2 e3 e4 e5 dec_nat_inj word_unat_eq_iff by metis+
  then show ?thesis using ab e5 by simp
qed

lemma byte_length: "length (dec_nat (unat (b :: 8 word))) \<le> 3"
proof -
  have "unat b < 10 ^ 3" using unsigned_less [of b, where ?'a = nat] by simp
  then show ?thesis by (rule dec_nat_length) simp
qed

lemma toIpPort_length: "length (toIp a @ '':'' @ dec_nat (unat (ntohs (sin_port a)))) \<le> 21"
proof -
  obtain b1 b2 b3 b4 where b: "sin_addr a = (b1, b2, b3, b4)" by (metis surj_pair)
  have "unat (ntohs (sin_port a)) < 10 ^ 5" using unsigned_less [of "ntohs (sin_port a)", where ?'a = nat] by simp
  then have "length (dec_nat (unat (ntohs (sin_port a)))) \<le> 5" by (rule dec_nat_length) simp
  then show ?thesis using b byte_length [of b1] byte_length [of b2] byte_length [of b3] byte_length [of b4] by (simp add: toIp_def)
qed

text \<open>
  C34: An address prints without overrunning its array, as at most 21 characters, and different addresses print differently; the port given to the
  constructor, which is stored in network byte order, is the one that is read back.
\<close>

theorem address_text:
  "\<exists>t. toIpPort a = Inr t \<and> length t \<le> 21 \<and> (\<forall>b. toIpPort b = Inr t \<longleftrightarrow> b = a) \<and> toPort (InetAddress inet_addr port ip) = port"
proof -
  let ?t = "\<lambda>a. toIp a @ '':'' @ dec_nat (unat (ntohs (sin_port a)))"
  have t: "toIpPort b = Inr (?t b)" for b using toIpPort_length [of b] by (simp add: toIpPort_def Let_def)
  have "b = a" if "?t b = ?t a" for b
  proof -
    have "sin_addr b = sin_addr a \<and> dec_nat (unat (ntohs (sin_port b))) = dec_nat (unat (ntohs (sin_port a)))" using that toIp_inj [of b _ a] by simp
    then have "sin_addr b = sin_addr a" "ntohs (sin_port b) = ntohs (sin_port a)" using dec_nat_inj word_unat_eq_iff by metis+
    then show ?thesis using htons_htons by (metis (full_types) old.unit.exhaust sockaddr_in.equality)
  qed
  then show ?thesis using t toIpPort_length [of a] by (intro exI [of _ "?t a"]) (auto simp: toPort_def InetAddress_def htons_htons)
qed

section \<open>The acceptor's channel\<close>

lemma acceptor_lifecycle:
  assumes ok: "reactor_ok r" "chans r c = None" "poll_ptr r = Some p" "channels p sfd = None"
    and new: "Acceptor sfd bind_rc c cb reuse r = Inr a" and lst: "Acceptor_listen ret listen_rc a = Inr a'"
  shows "0 \<le> sfd \<and> bind_rc = 0 \<and> listen_rc = 0 \<and> listenning a' \<and> watched (acc_reactor a') c = Some kReadEvent \<and>
    (\<forall>r'. Acceptor_dtor ret a' = Inr r' \<longrightarrow> watched r' c = None)"
proof -
  let ?r0 = "r\<lparr>chans := (chans r)(c \<mapsto> setReadCallback cb (Channel sfd))\<rparr>"
  have a: "0 \<le> sfd" "bind_rc = 0" "acceptChannel a = c" "acc_reactor a = ?r0"
    using new by (auto simp: Acceptor_def createNonblocking_def bindAddress_def split: if_splits)
  obtain r1 where r1: "listen_rc = 0" "change_events ret (\<lambda>e. e OR kReadEvent) c ?r0 = Inr r1" "acc_reactor a' = r1" "acceptChannel a' = c" "listenning a'"
    using lst a by (auto simp: Acceptor_listen_def Socket_listen_def enableReading_def split: if_splits)
  have "fd (setReadCallback cb (Channel sfd)) = sfd" "events (setReadCallback cb (Channel sfd)) = 0" "index (setReadCallback cb (Channel sfd)) = kNew"
    by (simp_all add: setReadCallback_def Channel_def kNew_def)
  note fresh_channel_ok [OF ok this]
  from watch_then_remove [OF this r1(2)] show ?thesis
    using a(1,2) r1 by (auto simp: Acceptor_dtor_def disableAll_def)
qed

end
