(* ===== verification/TcpConnections.thy ===== *)
theory TcpConnections
  imports NetBuffer Sockets
begin

text \<open>
  A TCP connection in its loop thread: \<^verbatim>\<open>include/TcpConnection.h\<close> and \<^verbatim>\<open>src/TcpConnection.cc\<close>. The state joins the members of the connection, the
  reactor its channel is registered with, the state of its loop (whose queue receives the bound functors), and what the
  socket has been given: the bytes the kernel accepted in order, and whether the writing side was shut. The outcomes of the system
  calls and the user's callbacks are parameters.
\<close>

section \<open>State\<close>

datatype StateE = kDisconnected | kConnecting | kConnected | kDisconnecting

text \<open>The member functions bound to the channel, the functors the connection queues, and the calls of the callbacks it was given.\<close>

datatype conn_event = OnRead | OnWrite | OnClose | OnError

datatype conn_functor =
    WriteComplete
  | HighWaterMark nat
  | ShutdownInLoop
  | SendFileInLoop int nat nat
  | SendInLoop ptr nat

datatype user_call = ConnectionCall StateE | CloseCall | WriteCompleteCall | HighWaterMarkCall nat

record tcp_conn =
  cname :: string
  cstate :: StateE
  reading :: bool
  conn_socket :: socket
  chan :: ptr
  localAddr :: sockaddr_in
  peerAddr :: sockaddr_in
  inputBuffer :: buffer
  outputBuffer :: buffer
  highWaterMark :: nat
  hasWriteComplete :: bool
  hasHighWater :: bool
  rx :: "conn_event reactor"
  io_loop :: "conn_functor loop_state"
  sock_out :: string
  write_shut :: bool
  user_calls :: "user_call list"

definition EWOULDBLOCK :: int where "EWOULDBLOCK = 11"
definition EPIPE :: int where "EPIPE = 32"
definition ECONNRESET :: int where "ECONNRESET = 104"

lemmas errno_defs = EWOULDBLOCK_def EPIPE_def ECONNRESET_def

section \<open>Operations\<close>

definition CheckLoopNotNull :: "'l option \<Rightarrow> 'l result" where
  "CheckLoopNotNull loop = (case loop of None \<Rightarrow> Inl Fatal_abort | Some l \<Rightarrow> Inr l)"

text \<open>\<open>c\<close> is the address of the new channel; the loop is given by its reactor and its state.\<close>

definition TcpConnection ::
    "(conn_event reactor \<times> conn_functor loop_state) option \<Rightarrow> ptr \<Rightarrow> string \<Rightarrow> int \<Rightarrow> sockaddr_in \<Rightarrow> sockaddr_in \<Rightarrow> tcp_conn result" where
  "TcpConnection loop c nameArg sfd la pa =
     bind_result (CheckLoopNotNull loop) (\<lambda>(r, l).
       let ch = setErrorCallback OnError (setCloseCallback OnClose (setWriteCallback OnWrite (setReadCallback OnRead (Channel sfd))))
       in Inr \<lparr>cname = nameArg, cstate = kConnecting, reading = True, conn_socket = setKeepAlive True (Socket sfd), chan = c, localAddr = la,
               peerAddr = pa, inputBuffer = Buffer kInitialSize, outputBuffer = Buffer kInitialSize, highWaterMark = 64 * 1024 * 1024,
               hasWriteComplete = False, hasHighWater = False, rx = r\<lparr>chans := (chans r)(c \<mapsto> ch)\<rparr>, io_loop = l, sock_out = [], write_shut = False,
               user_calls = []\<rparr>)"

text \<open>Of the optional callbacks the model keeps whether they are set.\<close>

definition setWriteCompleteCallback :: "bool \<Rightarrow> tcp_conn \<Rightarrow> tcp_conn" where
  "setWriteCompleteCallback cb s = s\<lparr>hasWriteComplete := cb\<rparr>"

definition setHighWaterMarkCallback :: "bool \<Rightarrow> nat \<Rightarrow> tcp_conn \<Rightarrow> tcp_conn" where
  "setHighWaterMarkCallback cb mark s = s\<lparr>hasHighWater := cb, highWaterMark := mark\<rparr>"

definition queue_functor :: "conn_functor \<Rightarrow> tcp_conn \<Rightarrow> tcp_conn" where
  "queue_functor f s = s\<lparr>io_loop := queueInLoop True f (io_loop s)\<rparr>"

definition on_channel :: "(ptr \<Rightarrow> conn_event reactor \<Rightarrow> conn_event reactor result) \<Rightarrow> tcp_conn \<Rightarrow> tcp_conn result" where
  "on_channel f s = bind_result (f (chan s) (rx s)) (\<lambda>r. Inr (s\<lparr>rx := r\<rparr>))"

text \<open>
  \<open>wr\<close> is the outcome of the system call \<open>write\<close>: an error number, or the number of bytes it took. With the error \<open>EPIPE\<close> comes the signal \<^verbatim>\<open>SIGPIPE\<close>,
  which the program neither ignores nor handles, so the call does not return: \<open>signalled\<close> is what the caller sees.
\<close>

definition signalled :: "int + nat \<Rightarrow> (int + nat) result" where
  "signalled res = (if res = Inl EPIPE then Inl Sigpipe else Inr res)"

text \<open>The direct write that \<open>sendInLoop\<close> tries first: the values of \<open>nwrote\<close>, \<open>remaining\<close> and \<open>faultError\<close> after it.\<close>

definition first_write :: "(string \<Rightarrow> int + nat) \<Rightarrow> conn_event channel \<Rightarrow> string \<Rightarrow> tcp_conn \<Rightarrow> (nat \<times> nat \<times> bool \<times> tcp_conn) result" where
  "first_write wr ch data s =
     (let len = length data in
      if \<not> isWriting ch \<and> readableBytes (outputBuffer s) = 0
      then bind_result (signalled (wr data)) (\<lambda>res.
            case res of
              Inr n \<Rightarrow>
                let remaining = subsz len n; s1 = s\<lparr>sock_out := sock_out s @ take n data\<rparr>
                in Inr (n, remaining, False, if remaining = 0 \<and> hasWriteComplete s1 then queue_functor WriteComplete s1 else s1)
            | Inl errno \<Rightarrow> Inr (0, len, errno \<noteq> EWOULDBLOCK \<and> (errno = EPIPE \<or> errno = ECONNRESET), s))
      else Inr (0, len, False, s))"

text \<open>The high water mark, and the storing of the data that remains.\<close>

definition high_water :: "nat \<Rightarrow> tcp_conn \<Rightarrow> tcp_conn" where
  "high_water remaining s =
     (let oldLen = readableBytes (outputBuffer s)
      in if addsz oldLen remaining \<ge> highWaterMark s \<and> oldLen < highWaterMark s \<and> hasHighWater s
         then queue_functor (HighWaterMark (addsz oldLen remaining)) s else s)"

definition store_remaining :: "(nat \<Rightarrow> int) \<Rightarrow> conn_event channel \<Rightarrow> string \<Rightarrow> tcp_conn \<Rightarrow> tcp_conn result" where
  "store_remaining ret ch d s =
     (let s2 = high_water (length d) s
      in bind_result (Buffer_append (outputBuffer s2) d) (\<lambda>b.
           let s3 = s2\<lparr>outputBuffer := b\<rparr>
           in if \<not> isWriting ch then on_channel (enableWriting ret) s3 else Inr s3))"

text \<open>
  \<open>sendInLoop\<close> as it is called: the log line for a connection that is disconnected does not end the function, so the state is not
  consulted.
\<close>

definition sendInLoop :: "(nat \<Rightarrow> int) \<Rightarrow> (string \<Rightarrow> int + nat) \<Rightarrow> string \<Rightarrow> tcp_conn \<Rightarrow> tcp_conn result" where
  "sendInLoop ret wr data s =
     (case chans (rx s) (chan s) of None \<Rightarrow> Inl Null_deref
      | Some ch \<Rightarrow>
        bind_result (first_write wr ch data s) (\<lambda>(nwrote, remaining, faultError, s1).
          if \<not> faultError \<and> remaining > 0 then store_remaining ret ch (take remaining (drop nwrote data)) s1 else Inr s1))"

text \<open>\<open>send\<close> called in the loop thread.\<close>

definition TcpConnection_send :: "(nat \<Rightarrow> int) \<Rightarrow> (string \<Rightarrow> int + nat) \<Rightarrow> string \<Rightarrow> tcp_conn \<Rightarrow> tcp_conn result" where
  "TcpConnection_send ret wr buf s = (if cstate s = kConnected then sendInLoop ret wr buf s else Inr s)"

definition shutdownInLoop :: "tcp_conn \<Rightarrow> tcp_conn result" where
  "shutdownInLoop s =
     (case chans (rx s) (chan s) of None \<Rightarrow> Inl Null_deref
      | Some ch \<Rightarrow> Inr (if \<not> isWriting ch then s\<lparr>write_shut := True\<rparr> else s))"

definition TcpConnection_shutdown :: "tcp_conn \<Rightarrow> tcp_conn result" where
  "TcpConnection_shutdown s =
     (if cstate s = kConnected then shutdownInLoop (s\<lparr>cstate := kDisconnecting\<rparr>) else Inr s)"

text \<open>A callback of the user is given the connection and returns it.\<close>

definition connection_call :: "(tcp_conn \<Rightarrow> tcp_conn result) \<Rightarrow> tcp_conn \<Rightarrow> tcp_conn result" where
  "connection_call onConnection s = onConnection (s\<lparr>user_calls := user_calls s @ [ConnectionCall (cstate s)]\<rparr>)"

definition connectEstablished :: "(nat \<Rightarrow> int) \<Rightarrow> (tcp_conn \<Rightarrow> tcp_conn result) \<Rightarrow> ptr \<Rightarrow> tcp_conn \<Rightarrow> tcp_conn result" where
  "connectEstablished ret onConnection self s =
     (let s1 = s\<lparr>cstate := kConnected\<rparr>
      in case chans (rx s1) (chan s1) of None \<Rightarrow> Inl Null_deref
         | Some ch \<Rightarrow>
             let s2 = s1\<lparr>rx := (rx s1)\<lparr>chans := (chans (rx s1))(chan s1 \<mapsto> Channel_tie self ch)\<rparr>\<rparr>
             in bind_result (on_channel (enableReading ret) s2) (connection_call onConnection))"

definition connectDestroyed :: "(nat \<Rightarrow> int) \<Rightarrow> (tcp_conn \<Rightarrow> tcp_conn result) \<Rightarrow> tcp_conn \<Rightarrow> tcp_conn result" where
  "connectDestroyed ret onConnection s =
     bind_result
       (if cstate s = kConnected
        then bind_result (on_channel (disableAll ret) (s\<lparr>cstate := kDisconnected\<rparr>)) (connection_call onConnection)
        else Inr s)
       (on_channel (removeChannel ret))"

definition handleClose :: "(nat \<Rightarrow> int) \<Rightarrow> (tcp_conn \<Rightarrow> tcp_conn result) \<Rightarrow> tcp_conn \<Rightarrow> tcp_conn result" where
  "handleClose ret onConnection s =
     bind_result (on_channel (disableAll ret) (s\<lparr>cstate := kDisconnected\<rparr>)) (\<lambda>s1.
     bind_result (connection_call onConnection s1) (\<lambda>s2.
       Inr (s2\<lparr>user_calls := user_calls s2 @ [CloseCall]\<rparr>)))"

definition handleError :: "tcp_conn \<Rightarrow> tcp_conn" where
  "handleError s = s"

definition handleRead ::
    "(nat \<Rightarrow> int) \<Rightarrow> (nat list \<Rightarrow> int + string) \<Rightarrow> (int \<Rightarrow> tcp_conn \<Rightarrow> tcp_conn result) \<Rightarrow> (tcp_conn \<Rightarrow> tcp_conn result) \<Rightarrow>
     int \<Rightarrow> tcp_conn \<Rightarrow> tcp_conn result" where
  "handleRead ret readv onMessage onConnection receiveTime s =
     bind_result (readFd readv (inputBuffer s)) (\<lambda>(n, b).
       let s1 = s\<lparr>inputBuffer := b\<rparr>
       in case n of
            Inl errno \<Rightarrow> Inr (handleError s1)
          | Inr k \<Rightarrow> if k > 0 then onMessage receiveTime s1 else handleClose ret onConnection s1)"

definition handleWrite :: "(nat \<Rightarrow> int) \<Rightarrow> (string \<Rightarrow> int + nat) \<Rightarrow> tcp_conn \<Rightarrow> tcp_conn result" where
  "handleWrite ret wr s =
     (case chans (rx s) (chan s) of None \<Rightarrow> Inl Null_deref
      | Some ch \<Rightarrow>
        if isWriting ch
        then bind_result (writeFd wr (outputBuffer s)) (\<lambda>res.
             bind_result (signalled res) (\<lambda>n.
               case n of
                 Inl errno \<Rightarrow> Inr s
               | Inr k \<Rightarrow>
                   if k > 0
                   then let s1 = s\<lparr>sock_out := sock_out s @ take k (content (outputBuffer s)), outputBuffer := retrieve (outputBuffer s) k\<rparr>
                        in if readableBytes (outputBuffer s1) = 0
                           then bind_result (on_channel (disableWriting ret) s1) (\<lambda>s2.
                                  let s3 = (if hasWriteComplete s2 then queue_functor WriteComplete s2 else s2)
                                  in if cstate s3 = kDisconnecting then shutdownInLoop s3 else Inr s3)
                           else Inr s1
                   else Inr s))
        else Inr s)"

text \<open>
  \<open>sf off n\<close> is the system call \<open>sendfile\<close> from a file with the bytes \<open>contents\<close>: an error number, or how many of the at most \<open>n\<close> bytes at
  \<open>off\<close> it sent; the offset advances by that number.
\<close>

definition sendFileInLoop :: "(nat \<Rightarrow> nat \<Rightarrow> int + nat) \<Rightarrow> string \<Rightarrow> int \<Rightarrow> nat \<Rightarrow> nat \<Rightarrow> tcp_conn \<Rightarrow> tcp_conn result" where
  "sendFileInLoop sf contents fileDescriptor offset cnt s =
     (if cstate s = kDisconnecting then Inr s
      else case chans (rx s) (chan s) of None \<Rightarrow> Inl Null_deref
      | Some ch \<Rightarrow>
        bind_result
          (if \<not> isWriting ch \<and> readableBytes (outputBuffer s) = 0
           then bind_result (signalled (sf offset cnt)) (\<lambda>res.
                 case res of
                   Inr n \<Rightarrow>
                     let remaining = subsz cnt n; s1 = s\<lparr>sock_out := sock_out s @ take n (drop offset contents)\<rparr>
                     in Inr (offset + n, remaining, False, if remaining = 0 \<and> hasWriteComplete s1 then queue_functor WriteComplete s1 else s1)
                 | Inl errno \<Rightarrow> Inr (offset, cnt, errno = EPIPE \<or> errno = ECONNRESET, s))
           else Inr (offset, cnt, False, s))
          (\<lambda>(offset', remaining, faultError, s1).
             Inr (if \<not> faultError \<and> remaining > 0 then queue_functor (SendFileInLoop fileDescriptor offset' remaining) s1 else s1)))"

definition TcpConnection_sendFile :: "(nat \<Rightarrow> nat \<Rightarrow> int + nat) \<Rightarrow> string \<Rightarrow> int \<Rightarrow> nat \<Rightarrow> nat \<Rightarrow> tcp_conn \<Rightarrow> tcp_conn result" where
  "TcpConnection_sendFile sf contents fileDescriptor offset cnt s =
     (if cstate s = kConnected then sendFileInLoop sf contents fileDescriptor offset cnt s else Inr s)"

section \<open>Invariant\<close>

text \<open>The byte stream of a connection: what the socket has taken, then what waits in the output buffer.\<close>

definition stream :: "tcp_conn \<Rightarrow> string" where
  "stream s = sock_out s @ content (outputBuffer s)"

definition writing :: "tcp_conn \<Rightarrow> bool" where
  "writing s = (case mask_of (rx s) (chan s) of None \<Rightarrow> False | Some m \<Rightarrow> bit m 2)"

text \<open>
  Both buffers are well-formed, the channel is alive and registered without a competitor. While the connection is up the channel asks
  for writability exactly when bytes wait, and the writing side is shut only when none do.
\<close>

definition conn_ok :: "tcp_conn \<Rightarrow> bool" where
  "conn_ok s \<longleftrightarrow> buffer_ok (inputBuffer s) \<and> buffer_ok (outputBuffer s) \<and>
     reactor_ok (rx s) \<and> usable (rx s) (chan s) \<and>
     (cstate s = kConnected \<or> cstate s = kDisconnecting \<longrightarrow> (writing s \<longleftrightarrow> content (outputBuffer s) \<noteq> [])) \<and>
     (write_shut s \<longrightarrow> content (outputBuffer s) = [] \<and> cstate s \<noteq> kConnected)"

definition write_contract :: "(string \<Rightarrow> int + nat) \<Rightarrow> bool" where
  "write_contract wr \<longleftrightarrow> (\<forall>d n. wr d = Inr n \<longrightarrow> n \<le> length d)"

text \<open>A \<open>write\<close> that keeps the contract and never finds the connection broken in the way that ends the process.\<close>

definition write_returns :: "(string \<Rightarrow> int + nat) \<Rightarrow> bool" where
  "write_returns wr \<longleftrightarrow> write_contract wr \<and> (\<forall>d. wr d \<noteq> Inl EPIPE)"

lemma signalled_simps [simp]: "signalled (Inr n) = Inr (Inr n)" "res \<noteq> Inl EPIPE \<Longrightarrow> signalled res = Inr res" "signalled (Inl EPIPE) = Inl Sigpipe"
  "signalled res = Inr r \<longleftrightarrow> r = res \<and> res \<noteq> Inl EPIPE"
  by (auto simp: signalled_def)

definition broken :: "int + nat \<Rightarrow> bool" where
  "broken res = (res = Inl EPIPE \<or> res = Inl ECONNRESET)"

lemma conn_okD:
  assumes "conn_ok s"
  obtains ch m where "chans (rx s) (chan s) = Some ch" and "mask_of (rx s) (chan s) = Some m" and "events ch = m"
    and "isWriting ch \<longleftrightarrow> bit m 2" and "writing s \<longleftrightarrow> bit m 2"
  using assms by (auto simp: conn_ok_def usable_def mask_of_def writing_def isWriting_bit split: option.splits)

lemma queue_functor_simps [simp]:
  "cstate (queue_functor f s) = cstate s" "chan (queue_functor f s) = chan s" "rx (queue_functor f s) = rx s"
  "inputBuffer (queue_functor f s) = inputBuffer s" "outputBuffer (queue_functor f s) = outputBuffer s"
  "sock_out (queue_functor f s) = sock_out s" "write_shut (queue_functor f s) = write_shut s"
  "highWaterMark (queue_functor f s) = highWaterMark s" "hasHighWater (queue_functor f s) = hasHighWater s"
  "hasWriteComplete (queue_functor f s) = hasWriteComplete s" "user_calls (queue_functor f s) = user_calls s"
  "io_loop (queue_functor f s) = queueInLoop True f (io_loop s)"
  by (simp_all add: queue_functor_def)

lemma queue_functor_frame [simp]:
  "writing (queue_functor f s) = writing s" "conn_ok (queue_functor f s) = conn_ok s" "stream (queue_functor f s) = stream s"
  by (simp_all add: writing_def conn_ok_def stream_def)

lemma readable_zero: "buffer_ok b \<Longrightarrow> readableBytes b = 0 \<longleftrightarrow> content b = []"
  by (simp add: readableBytes_content)

text \<open>A change of the connection's own mask.\<close>

lemma on_channel_change:
  assumes "reactor_ok (rx s)" and "usable (rx s) (chan s)" and "epoll_accepts ret" and "mask_of (rx s) (chan s) = Some m"
  shows "\<exists>r. on_channel (change_events ret f) s = Inr (s\<lparr>rx := r\<rparr>) \<and> reactor_ok r \<and> usable r (chan s) \<and> mask_of r (chan s) = Some (f m)"
  using own_change [OF assms, of f] by (auto simp: on_channel_def)

section \<open>Sending\<close>

text \<open>The part of \<open>sendInLoop\<close> that stores what the socket did not take.\<close>

lemma store_rest:
  assumes ok: "conn_ok s" and acc: "epoll_accepts ret" and ch: "chans (rx s) (chan s) = Some ch" and up: "\<not> write_shut s"
    and app: "Buffer_append (outputBuffer s) d = Inr b" and ne: "d \<noteq> []"
  shows "\<exists>s'. (if \<not> isWriting ch then on_channel (enableWriting ret) (s\<lparr>outputBuffer := b\<rparr>) else Inr (s\<lparr>outputBuffer := b\<rparr>)) = Inr s' \<and>
    conn_ok s' \<and> writing s' \<and> stream s' = stream s @ d \<and> sock_out s' = sock_out s \<and> cstate s' = cstate s \<and> inputBuffer s' = inputBuffer s \<and>
    write_shut s' = write_shut s \<and> outputBuffer s' = b"
proof -
  from ok obtain m where m: "mask_of (rx s) (chan s) = Some m" "isWriting ch \<longleftrightarrow> bit m 2" "writing s \<longleftrightarrow> bit m 2"
    by (rule conn_okD) (use ch in auto)
  have b: "buffer_ok b" "content b = content (outputBuffer s) @ d"
    using net_buffer.push_fifo [OF _ app] ok by (auto simp: conn_ok_def)
  show ?thesis
  proof (cases "bit m 2")
    case True
    then have "conn_ok (s\<lparr>outputBuffer := b\<rparr>)" "writing (s\<lparr>outputBuffer := b\<rparr>)"
      using ok b up ne m by (auto simp: conn_ok_def writing_def)
    then show ?thesis using True m b by (simp add: stream_def)
  next
    case False
    have "reactor_ok (rx s)" "usable (rx s) (chan s)" using ok by (auto simp: conn_ok_def)
    from own_change [OF this acc m(1), of "\<lambda>e. e OR kWriteEvent"] obtain r where r:
      "enableWriting ret (chan s) (rx s) = Inr r" "reactor_ok r" "usable r (chan s)" "mask_of r (chan s) = Some (m OR kWriteEvent)"
      by (auto simp: enableWriting_def)
    let ?s = "s\<lparr>outputBuffer := b, rx := r\<rparr>"
    have "writing ?s" using r(4) write_mask_bits(1) by (simp add: writing_def)
    then have "conn_ok ?s" using ok b up ne r by (auto simp: conn_ok_def)
    with \<open>writing ?s\<close> show ?thesis using False m b r by (auto simp: on_channel_def stream_def)
  qed
qed

lemma queueInLoop_pending [simp]: "pendingFunctors (queueInLoop b f l) = pendingFunctors l @ [f]"
  by (simp add: queueInLoop_def Let_def)

abbreviation queued :: "tcp_conn \<Rightarrow> conn_functor list" where
  "queued s \<equiv> pendingFunctors (io_loop s)"

abbreviation backlog :: "tcp_conn \<Rightarrow> nat" where
  "backlog s \<equiv> length (content (outputBuffer s))"

definition crossed :: "tcp_conn \<Rightarrow> tcp_conn \<Rightarrow> conn_functor list" where
  "crossed s s' = (if hasHighWater s \<and> backlog s < highWaterMark s \<and> highWaterMark s \<le> backlog s' then [HighWaterMark (backlog s')] else [])"

lemma high_water_simps [simp]:
  "cstate (high_water n s) = cstate s" "chan (high_water n s) = chan s" "rx (high_water n s) = rx s"
  "outputBuffer (high_water n s) = outputBuffer s" "sock_out (high_water n s) = sock_out s"
  "write_shut (high_water n s) = write_shut s" "inputBuffer (high_water n s) = inputBuffer s"
  "conn_ok (high_water n s) = conn_ok s" "stream (high_water n s) = stream s"
  by (simp_all add: high_water_def Let_def)

lemma on_channel_keeps:
  "on_channel f s = Inr s' \<Longrightarrow> io_loop s' = io_loop s \<and> outputBuffer s' = outputBuffer s \<and> highWaterMark s' = highWaterMark s \<and> hasHighWater s' = hasHighWater s"
  by (auto simp: on_channel_def)

text \<open>Storing the rest of the data, with the high water mark in front of it.\<close>

lemma send_rest:
  assumes ok: "conn_ok s" and acc: "epoll_accepts ret" and ch: "chans (rx s) (chan s) = Some ch" and up: "\<not> write_shut s"
    and fits: "length d \<le> vec_max_size - writerIndex (outputBuffer s)" and ne: "d \<noteq> []"
  shows "\<exists>s'. store_remaining ret ch d s = Inr s' \<and>
    conn_ok s' \<and> writing s' \<and> stream s' = stream s @ d \<and> sock_out s' = sock_out s \<and> cstate s' = cstate s \<and>
    inputBuffer s' = inputBuffer s \<and> write_shut s' = write_shut s \<and> queued s' = queued s @ crossed s s' \<and>
    writerIndex (outputBuffer s') \<le> writerIndex (outputBuffer s) + length d"
proof -
  let ?s = "high_water (length d) s"
  have bok: "buffer_ok (outputBuffer s)" using ok by (simp add: conn_ok_def)
  obtain b where b: "Buffer_append (outputBuffer s) d = Inr b" using net_buffer.push_fits [OF bok fits] by blast
  obtain s' where s': "(if \<not> isWriting ch then on_channel (enableWriting ret) (?s\<lparr>outputBuffer := b\<rparr>) else Inr (?s\<lparr>outputBuffer := b\<rparr>)) = Inr s'"
    "conn_ok s'" "writing s'" "stream s' = stream ?s @ d" "sock_out s' = sock_out s" "cstate s' = cstate s" "inputBuffer s' = inputBuffer s"
    "write_shut s' = write_shut s" "outputBuffer s' = b"
    using store_rest [of ?s ret ch d b] ok acc ch up ne b by auto
  have len: "backlog s' = backlog s + length d" using s'(4,5) by (simp add: stream_def)
  have add: "addsz (backlog s) (length d) = backlog s + length d"
    using fits bok content_length [OF bok] by (intro addsz_nowrap) (auto simp: buffer_ok_def vec_max_size_def)
  have "queued s' = queued ?s" using s'(1) on_channel_keeps [of "enableWriting ret" "?s\<lparr>outputBuffer := b\<rparr>" s'] by (auto split: if_splits)
  then have "queued s' = queued s @ crossed s s'"
    using len add readableBytes_content [OF bok] by (auto simp: high_water_def crossed_def Let_def)
  with s' b Buffer_append_writer [OF bok b] show ?thesis by (auto simp: store_remaining_def)
qed

text \<open>The whole of \<open>sendInLoop\<close>.\<close>

lemma sendInLoop_ok:
  assumes ok: "conn_ok s" and acc: "epoll_accepts ret" and wr: "write_contract wr" and up: "\<not> write_shut s"
    and fits: "length data \<le> vec_max_size - writerIndex (outputBuffer s)"
  defines "idle \<equiv> \<not> writing s \<and> content (outputBuffer s) = []"
  assumes alive: "\<not> (idle \<and> wr data = Inl EPIPE)"
  shows "\<exists>s'. sendInLoop ret wr data s = Inr s' \<and> conn_ok s' \<and> cstate s' = cstate s \<and> inputBuffer s' = inputBuffer s \<and>
    write_shut s' = write_shut s \<and>
    (if idle \<and> broken (wr data) then stream s' = stream s else stream s' = stream s @ data) \<and>
    queued s' = queued s @ (if idle \<and> hasWriteComplete s \<and> wr data = Inr (length data) then [WriteComplete] else []) @ crossed s s' \<and>
    writerIndex (outputBuffer s') \<le> writerIndex (outputBuffer s) + length data"
proof -
  obtain ch m where ch: "chans (rx s) (chan s) = Some ch" "isWriting ch \<longleftrightarrow> writing s" using conn_okD [OF ok] by metis
  have bok: "buffer_ok (outputBuffer s)" using ok by (simp add: conn_ok_def)
  have nocross: "crossed s s = []" by (simp add: crossed_def)
  have idle: "\<not> isWriting ch \<and> readableBytes (outputBuffer s) = 0 \<longleftrightarrow> idle"
    using ch(2) readable_zero [OF bok] by (simp add: idle_def)
  show ?thesis
  proof (cases idle)
    case False
    then have fw: "first_write wr ch data s = Inr (0, length data, False, s)" using idle by (auto simp: first_write_def Let_def)
    show ?thesis
    proof (cases "data = []")
      case True
      then show ?thesis using ok fw ch(1) False nocross by (simp add: sendInLoop_def)
    next
      case ne: False
      from send_rest [OF ok acc ch(1) up fits ne] show ?thesis using False fw ch(1) ne by (auto simp: sendInLoop_def)
    qed
  next
    case True
    then have emp: "content (outputBuffer s) = []" by (simp add: idle_def)
    show ?thesis
    proof (cases "wr data")
      case (Inl e)
      let ?fault = "e \<noteq> EWOULDBLOCK \<and> (e = EPIPE \<or> e = ECONNRESET)"
      have br: "broken (wr data) \<longleftrightarrow> ?fault" using Inl by (auto simp: broken_def errno_defs)
      have fw: "first_write wr ch data s = Inr (0, length data, ?fault, s)" using True idle Inl alive by (simp add: first_write_def)
      show ?thesis
      proof (cases "?fault \<or> data = []")
        case True
        then show ?thesis using ok fw ch(1) br nocross Inl \<open>idle\<close> by (auto simp: sendInLoop_def)
      next
        case False
        then have "data \<noteq> []" by simp
        from send_rest [OF ok acc ch(1) up fits this] show ?thesis using False fw ch(1) br Inl by (auto simp: sendInLoop_def)
      qed
    next
      case (Inr n)
      then have n: "n \<le> length data" using wr by (simp add: write_contract_def)
      let ?s = "s\<lparr>sock_out := sock_out s @ take n data\<rparr>" and ?d = "drop n data"
      have rem: "subsz (length data) n = length ?d"
        using n fits by (simp add: subsz_nowrap vec_max_size_def)
      have fw: "first_write wr ch data s = Inr (n, length ?d, False, if ?d = [] \<and> hasWriteComplete s then queue_functor WriteComplete ?s else ?s)"
        using True idle Inr rem by (simp add: first_write_def Let_def)
      have ok1: "conn_ok ?s" using ok by (simp add: conn_ok_def writing_def)
      have st: "stream ?s = stream s @ take n data" using emp by (simp add: stream_def)
      show ?thesis
      proof (cases "n = length data")
        case eq: True
        then show ?thesis
          using ok1 st Inr True emp fw ch(1) by (auto simp: broken_def crossed_def sendInLoop_def)
      next
        case False
        then have ne: "?d \<noteq> []" and fits': "length ?d \<le> vec_max_size - writerIndex (outputBuffer ?s)" using n fits by simp_all
        have "sendInLoop ret wr data s = store_remaining ret ch ?d ?s" using fw ch(1) False n by (simp add: sendInLoop_def)
        moreover note send_rest [OF ok1 acc _ _ fits' ne, of ch]
        moreover have "stream s @ data = stream ?s @ ?d" using st by simp
        ultimately show ?thesis using ch(1) up False Inr n by (auto simp: broken_def crossed_def)
      qed
    qed
  qed
qed

text \<open>A send that finds the connection broken on an idle channel ends the process.\<close>

lemma sendInLoop_pipe:
  assumes ok: "conn_ok s" and idle: "\<not> writing s" "content (outputBuffer s) = []" and pipe: "wr data = Inl EPIPE"
  shows "sendInLoop ret wr data s = Inl Sigpipe"
proof -
  obtain ch m where ch: "chans (rx s) (chan s) = Some ch" "isWriting ch \<longleftrightarrow> writing s" using conn_okD [OF ok] by metis
  have "readableBytes (outputBuffer s) = 0" using readable_zero ok idle by (simp add: conn_ok_def)
  then show ?thesis using ch idle pipe by (simp add: sendInLoop_def first_write_def)
qed

section \<open>Writing, closing, reading\<close>

lemma shutdownInLoop_ok:
  assumes "conn_ok s" and "cstate s = kDisconnecting"
  shows "\<exists>s'. shutdownInLoop s = Inr s' \<and> conn_ok s' \<and> stream s' = stream s \<and> sock_out s' = sock_out s \<and> cstate s' = cstate s \<and> inputBuffer s' = inputBuffer s \<and>
    (write_shut s' \<longleftrightarrow> write_shut s \<or> content (outputBuffer s) = []) \<and> outputBuffer s' = outputBuffer s"
proof -
  obtain ch m where ch: "chans (rx s) (chan s) = Some ch" "isWriting ch \<longleftrightarrow> writing s" using conn_okD [OF assms(1)] by metis
  have w: "writing s \<longleftrightarrow> content (outputBuffer s) \<noteq> []" using assms by (simp add: conn_ok_def)
  show ?thesis
  proof (cases "writing s")
    case True
    then have "\<not> write_shut s" using w assms(1) by (simp add: conn_ok_def)
    then show ?thesis using True ch w assms by (simp add: shutdownInLoop_def)
  next
    case False
    have "conn_ok (s\<lparr>write_shut := True\<rparr>)" using assms w False by (simp add: conn_ok_def writing_def)
    then show ?thesis using False ch w by (simp add: shutdownInLoop_def stream_def)
  qed
qed

lemma TcpConnection_shutdown_ok:
  assumes ok: "conn_ok s"
  shows "\<exists>s'. TcpConnection_shutdown s = Inr s' \<and> conn_ok s' \<and> stream s' = stream s \<and> sock_out s' = sock_out s \<and>
    cstate s' = (if cstate s = kConnected then kDisconnecting else cstate s) \<and>
    (cstate s = kConnected \<longrightarrow> (write_shut s' \<longleftrightarrow> content (outputBuffer s) = [])) \<and> outputBuffer s' = outputBuffer s"
proof (cases "cstate s = kConnected")
  case True
  let ?s = "s\<lparr>cstate := kDisconnecting\<rparr>"
  have "conn_ok ?s" "\<not> write_shut s" using ok True by (auto simp: conn_ok_def writing_def)
  with shutdownInLoop_ok [of ?s] True show ?thesis by (auto simp: TcpConnection_shutdown_def stream_def)
qed (use ok in \<open>simp add: TcpConnection_shutdown_def\<close>)

text \<open>
  The write event: the bytes the kernel takes move from the buffer to the socket. When none are left the channel stops asking for
  writability, and a connection that is being shut down closes its writing side.
\<close>

lemma handleWrite_ok:
  assumes ok: "conn_ok s" and acc: "epoll_accepts ret" and wr: "write_contract wr"
    and alive: "writing s \<longrightarrow> wr (content (outputBuffer s)) \<noteq> Inl EPIPE"
  shows "\<exists>s'. handleWrite ret wr s = Inr s' \<and> conn_ok s' \<and> stream s' = stream s \<and> cstate s' = cstate s \<and> inputBuffer s' = inputBuffer s \<and>
    (\<exists>n. sock_out s' = sock_out s @ take n (content (outputBuffer s))) \<and> writerIndex (outputBuffer s') \<le> writerIndex (outputBuffer s) \<and>
    (writing s \<and> wr (content (outputBuffer s)) = Inr (backlog s) \<and> 0 < backlog s \<longrightarrow>
       content (outputBuffer s') = [] \<and> \<not> writing s' \<and> (cstate s = kDisconnecting \<longrightarrow> write_shut s'))"
proof -
  obtain ch m where ch: "chans (rx s) (chan s) = Some ch" "isWriting ch \<longleftrightarrow> writing s" "mask_of (rx s) (chan s) = Some m"
    using conn_okD [OF ok] by metis
  have bok: "buffer_ok (outputBuffer s)" "reactor_ok (rx s)" "usable (rx s) (chan s)" using ok by (simp_all add: conn_ok_def)
  have wf: "writeFd wr (outputBuffer s) = Inr (wr (content (outputBuffer s)))" using bok(1) by (rule writeFd_ok)
  have stay: ?thesis if "handleWrite ret wr s = Inr s"
    "\<not> (writing s \<and> wr (content (outputBuffer s)) = Inr (backlog s) \<and> 0 < backlog s)"
    using that ok by (auto intro: exI [of _ 0])
  show ?thesis
  proof (cases "writing s \<and> (\<exists>k>0. wr (content (outputBuffer s)) = Inr k)")
    case False
    then have "handleWrite ret wr s = Inr s" using ch wf alive by (cases "wr (content (outputBuffer s))") (auto simp: handleWrite_def)
    then show ?thesis using stay False by auto
  next
    case True
    then obtain k where k: "writing s" "wr (content (outputBuffer s)) = Inr k" "0 < k" by blast
    have kle: "k \<le> backlog s" using wr k(2) by (simp add: write_contract_def)
    have up: "\<not> write_shut s" using ok kle k(3) by (auto simp: conn_ok_def)
    let ?b = "retrieve (outputBuffer s) k"
    let ?s1 = "s\<lparr>sock_out := sock_out s @ take k (content (outputBuffer s)), outputBuffer := ?b\<rparr>"
    have b: "buffer_ok ?b" "content ?b = drop k (content (outputBuffer s))"
      using net_buffer.pop_fifo [OF bok(1)] by simp_all
    have st: "stream ?s1 = stream s" using b by (simp add: stream_def)
    have wi: "writerIndex ?b \<le> writerIndex (outputBuffer s)" using bok(1) by (rule retrieve_writer)
    show ?thesis
    proof (cases "k = backlog s")
      case False
      have "conn_ok ?s1" using ok b up False kle k(1) by (auto simp: conn_ok_def writing_def)
      moreover have "handleWrite ret wr s = Inr ?s1"
        using ch wf k readable_zero [OF b(1)] b(2) False kle by (simp add: handleWrite_def)
      ultimately show ?thesis using st False k wi by (auto intro: exI [of _ k])
    next
      case True
      then have emp: "content ?b = []" using b by simp
      from own_change [OF bok(2,3) acc ch(3), of "\<lambda>e. e AND NOT kWriteEvent"] obtain r where r:
        "disableWriting ret (chan s) (rx s) = Inr r" "reactor_ok r" "usable r (chan s)"
        "mask_of r (chan s) = Some (m AND NOT kWriteEvent)" by (auto simp: disableWriting_def)
      let ?s2 = "?s1\<lparr>rx := r\<rparr>"
      let ?s3 = "if hasWriteComplete s then queue_functor WriteComplete ?s2 else ?s2"
      have nw: "\<not> writing ?s2" using r(4) write_mask_bits(2) by (simp add: writing_def)
      have ok3: "conn_ok ?s3" using ok b up emp r nw by (auto simp: conn_ok_def)
      have f3: "stream ?s3 = stream s" "cstate ?s3 = cstate s" "inputBuffer ?s3 = inputBuffer s" "\<not> writing ?s3"
        "sock_out ?s3 = sock_out s @ take k (content (outputBuffer s))" "content (outputBuffer ?s3) = []"
        "writerIndex (outputBuffer ?s3) \<le> writerIndex (outputBuffer s)"
        using st nw emp wi by (auto simp: stream_def)
      have eq: "handleWrite ret wr s = (if cstate s = kDisconnecting then shutdownInLoop ?s3 else Inr ?s3)"
        using ch wf k readable_zero [OF b(1)] emp r(1) by (simp add: handleWrite_def on_channel_def Let_def)
      show ?thesis
      proof (cases "cstate s = kDisconnecting")
        case True
        then have "cstate ?s3 = kDisconnecting" by simp
        from shutdownInLoop_ok [OF ok3 this] obtain s' where s': "shutdownInLoop ?s3 = Inr s'" "conn_ok s'" "stream s' = stream ?s3"
          "sock_out s' = sock_out ?s3" "cstate s' = cstate ?s3" "inputBuffer s' = inputBuffer ?s3" "write_shut s'" "outputBuffer s' = outputBuffer ?s3"
          using f3(6) by auto
        have "\<not> writing s'" using s'(2,5,8) True f3(2,6) by (simp add: conn_ok_def)
        with s' f3 eq True show ?thesis by auto
      next
        case False
        with ok3 f3 eq show ?thesis by auto
      qed
    qed
  qed
qed

lemma handleWrite_pipe:
  assumes ok: "conn_ok s" and w: "writing s" and pipe: "wr (content (outputBuffer s)) = Inl EPIPE"
  shows "handleWrite ret wr s = Inl Sigpipe"
proof -
  obtain ch m where ch: "chans (rx s) (chan s) = Some ch" "isWriting ch \<longleftrightarrow> writing s" using conn_okD [OF ok] by metis
  have "writeFd wr (outputBuffer s) = Inr (wr (content (outputBuffer s)))" using ok by (intro writeFd_ok) (simp add: conn_ok_def)
  then show ?thesis using ch w pipe by (simp add: handleWrite_def)
qed

text \<open>The connection callback of a user that only looks at the connection.\<close>

definition quiet :: "(tcp_conn \<Rightarrow> tcp_conn result) \<Rightarrow> bool" where
  "quiet onConnection = (\<forall>s. onConnection s = Inr s)"

lemma handleClose_ok:
  assumes ok: "conn_ok s" and acc: "epoll_accepts ret" and quiet: "quiet cb"
  shows "\<exists>s'. handleClose ret cb s = Inr s' \<and> conn_ok s' \<and> stream s' = stream s \<and> sock_out s' = sock_out s \<and> cstate s' = kDisconnected \<and>
    outputBuffer s' = outputBuffer s \<and> inputBuffer s' = inputBuffer s \<and> write_shut s' = write_shut s \<and> mask_of (rx s') (chan s') = Some 0 \<and>
    user_calls s' = user_calls s @ [ConnectionCall kDisconnected, CloseCall]"
proof -
  obtain ch m where ch: "mask_of (rx s) (chan s) = Some m" using conn_okD [OF ok] by metis
  have bok: "reactor_ok (rx s)" "usable (rx s) (chan s)" using ok by (simp_all add: conn_ok_def)
  from own_change [OF this acc ch, of "\<lambda>e. kNoneEvent"] obtain r where r: "disableAll ret (chan s) (rx s) = Inr r"
    "reactor_ok r" "usable r (chan s)" "mask_of r (chan s) = Some 0" by (auto simp: disableAll_def kNoneEvent_def)
  let ?s = "s\<lparr>cstate := kDisconnected, rx := r, user_calls := user_calls s @ [ConnectionCall kDisconnected, CloseCall]\<rparr>"
  have "handleClose ret cb s = Inr ?s" using r(1) quiet by (simp add: handleClose_def on_channel_def connection_call_def quiet_def)
  moreover have "conn_ok ?s" using ok r by (auto simp: conn_ok_def)
  ultimately show ?thesis using r(4) by (simp add: stream_def)
qed

text \<open>Destroying a connection takes its channel out of the poller, whatever state it is in.\<close>

lemma connectDestroyed_ok:
  assumes ok: "conn_ok s" and acc: "epoll_accepts ret" and quiet: "quiet cb"
  shows "\<exists>s'. connectDestroyed ret cb s = Inr s' \<and> reactor_ok (rx s') \<and> watched (rx s') (chan s') = None \<and> cstate s' \<noteq> kConnected \<and>
    user_calls s' = user_calls s @ (if cstate s = kConnected then [ConnectionCall kDisconnected] else [])"
proof -
  obtain m where m: "mask_of (rx s) (chan s) = Some m" using conn_okD [OF ok] by metis
  have bok: "reactor_ok (rx s)" "usable (rx s) (chan s)" using ok by (simp_all add: conn_ok_def)
  show ?thesis
  proof (cases "cstate s = kConnected")
    case True
    from own_change [OF bok acc m, of "\<lambda>e. kNoneEvent"] obtain r where r: "disableAll ret (chan s) (rx s) = Inr r"
      "reactor_ok r" "usable r (chan s)" "mask_of r (chan s) = Some 0" by (auto simp: disableAll_def kNoneEvent_def)
    from own_remove [OF r(2,3,4), of ret] obtain r' where "removeChannel ret (chan s) r = Inr r'" "reactor_ok r'" "watched r' (chan s) = None" by blast
    then show ?thesis using True r(1) quiet by (simp add: connectDestroyed_def on_channel_def connection_call_def quiet_def)
  next
    case False
    from own_remove [OF bok m, of ret] obtain r' where "removeChannel ret (chan s) (rx s) = Inr r'" "reactor_ok r'" "watched r' (chan s) = None" by blast
    then show ?thesis using False by (simp add: connectDestroyed_def on_channel_def)
  qed
qed

section \<open>Establishing a connection\<close>

definition free_slot :: "conn_event reactor \<Rightarrow> ptr \<Rightarrow> int \<Rightarrow> bool" where
  "free_slot r c sfd \<longleftrightarrow> chans r c = None \<and> (case poll_ptr r of None \<Rightarrow> False | Some p \<Rightarrow> channels p sfd = None)"

lemma reactor_ok_tie:
  assumes "reactor_ok r" and "chans r c = Some ch" and "events ch' = events ch" and "fd ch' = fd ch" and "index ch' = index ch"
  shows "reactor_ok (r\<lparr>chans := (chans r)(c \<mapsto> ch')\<rparr>)"
proof -
  obtain p where p: "poll_ptr r = Some p" "poller_ok (chans r) p" using assms(1) by (auto simp: reactor_ok_def split: option.splits)
  have "(\<exists>x. ((chans r)(c \<mapsto> ch')) d = Some x \<and> fd x = f \<and> P (index x) (events x)) \<longleftrightarrow> (\<exists>x. chans r d = Some x \<and> fd x = f \<and> P (index x) (events x))"
    for d f P using assms by auto
  note eq = this [where P = "\<lambda>i e. i \<noteq> kNew"] this [where P = "\<lambda>i e. i = kAdded \<and> e = m" for m]
  have "\<forall>d x. ((chans r)(c \<mapsto> ch')) d = Some x \<longrightarrow> index x \<in> {kNew, kAdded, kDeleted}"
    using p(2) assms by (auto simp: poller_ok_def)
  then have "poller_ok ((chans r)(c \<mapsto> ch')) p" using p(2) unfolding poller_ok_def eq by blast
  with p show ?thesis by (simp add: reactor_ok_def)
qed

text \<open>A connection as its constructor leaves it.\<close>

definition conn_new :: "tcp_conn \<Rightarrow> bool" where
  "conn_new s \<longleftrightarrow> cstate s = kConnecting \<and> inputBuffer s = Buffer kInitialSize \<and> outputBuffer s = Buffer kInitialSize \<and> sock_out s = [] \<and>
     \<not> write_shut s \<and> user_calls s = [] \<and> reactor_ok (rx s) \<and> usable (rx s) (chan s) \<and> mask_of (rx s) (chan s) = Some 0"

lemma conn_new_setters [simp]:
  "conn_new (setWriteCompleteCallback w s) = conn_new s" "conn_new (setHighWaterMarkCallback h n s) = conn_new s"
  by (simp_all add: conn_new_def setWriteCompleteCallback_def setHighWaterMarkCallback_def)

lemma TcpConnection_Inr: "\<exists>s. TcpConnection (Some (r, l)) c nm sfd la pa = Inr s"
  by (simp add: TcpConnection_def CheckLoopNotNull_def Let_def)

text \<open>The channel has the four member functions of its connection bound to it.\<close>

definition wired :: "conn_event channel \<Rightarrow> bool" where
  "wired ch \<longleftrightarrow> readCallback ch = Some OnRead \<and> writeCallback ch = Some OnWrite \<and> closeCallback ch = Some OnClose \<and> errorCallback ch = Some OnError"

lemma TcpConnection_new:
  assumes ok: "reactor_ok r" and free: "free_slot r c sfd" and new: "TcpConnection (Some (r, l)) c nm sfd la pa = Inr s"
  shows "conn_new s" and "chan s = c" and "io_loop s = l" and "cname s = nm" and "peerAddr s = pa"
    and "\<exists>ch. rx s = r\<lparr>chans := (chans r)(c \<mapsto> ch)\<rparr> \<and> fd ch = sfd \<and> wired ch \<and> \<not> tied ch \<and> index ch = kNew"
proof -
  define ch where "ch = setErrorCallback OnError (setCloseCallback OnClose (setWriteCallback OnWrite (setReadCallback OnRead (Channel sfd))))"
  have chf: "fd ch = sfd" "events ch = 0" "index ch = kNew" and wire: "wired ch" "\<not> tied ch"
    by (simp_all add: ch_def wired_def setErrorCallback_def setCloseCallback_def setWriteCallback_def setReadCallback_def Channel_def kNew_def)
  obtain p where p: "poll_ptr r = Some p" "channels p sfd = None" "chans r c = None" using free by (auto simp: free_slot_def split: option.splits)
  note fresh = fresh_channel_ok [OF ok p(3,1,2) chf]
  have s: "cstate s = kConnecting" "inputBuffer s = Buffer kInitialSize" "outputBuffer s = Buffer kInitialSize" "sock_out s = []" "\<not> write_shut s"
    "user_calls s = []" "rx s = r\<lparr>chans := (chans r)(c \<mapsto> ch)\<rparr>" and k: "chan s = c" "io_loop s = l" "cname s = nm" "peerAddr s = pa"
    using new unfolding TcpConnection_def CheckLoopNotNull_def Let_def ch_def by auto
  show "conn_new s" unfolding conn_new_def s k(1) using fresh s(5) by simp
  show "chan s = c" "io_loop s = l" "cname s = nm" "peerAddr s = pa" by (fact k)+
  show "\<exists>ch. rx s = r\<lparr>chans := (chans r)(c \<mapsto> ch)\<rparr> \<and> fd ch = sfd \<and> wired ch \<and> \<not> tied ch \<and> index ch = kNew" using s(7) chf(1,3) wire by blast
qed

lemma connectEstablished_ok:
  assumes new: "conn_new s0" and acc: "epoll_accepts ret" and quiet: "quiet cb"
  shows "\<exists>s. connectEstablished ret cb self s0 = Inr s \<and> conn_ok s \<and> cstate s = kConnected \<and> stream s = [] \<and>
    watched (rx s) (chan s) = Some kReadEvent \<and> content (inputBuffer s) = [] \<and> user_calls s = [ConnectionCall kConnected] \<and>
    inputBuffer s = Buffer kInitialSize \<and> outputBuffer s = Buffer kInitialSize \<and> io_loop s = io_loop s0 \<and> \<not> write_shut s"
proof -
  let ?c = "chan s0"
  have ok1: "reactor_ok (rx s0)" "usable (rx s0) ?c" using new by (simp_all add: conn_new_def)
  then obtain ch where ch: "chans (rx s0) ?c = Some ch" "events ch = 0" using new by (auto simp: conn_new_def usable_def mask_of_def split: option.splits)
  define r2 where "r2 = (rx s0)\<lparr>chans := (chans (rx s0))(?c \<mapsto> Channel_tie self ch)\<rparr>"
  have ok2: "reactor_ok r2" unfolding r2_def by (rule reactor_ok_tie [OF ok1(1) ch(1)]) (simp_all add: Channel_tie_def)
  have use2: "usable r2 ?c" using ok1(2) ch(1) by (auto simp: usable_def r2_def Channel_tie_def split: option.splits)
  have m2: "mask_of r2 ?c = Some 0" using ch by (simp add: mask_of_def r2_def Channel_tie_def)
  from own_change [OF ok2 use2 acc m2, of "\<lambda>e. e OR kReadEvent"] obtain r3 where r3: "enableReading ret ?c r2 = Inr r3"
    "reactor_ok r3" "usable r3 ?c" "mask_of r3 ?c = Some kReadEvent" by (auto simp: enableReading_def)
  have w: "watched r3 ?c = Some kReadEvent"
    using epoll.upd_watch [OF ok2 use2 r3(1) [unfolded enableReading_def]] r3(4) by (simp add: event_bits)
  let ?s = "s0\<lparr>cstate := kConnected, rx := r3, user_calls := [ConnectionCall kConnected]\<rparr>"
  have "connectEstablished ret cb self s0 = Inr ?s"
    using r3(1) ch(1) new quiet by (simp add: connectEstablished_def r2_def on_channel_def connection_call_def quiet_def conn_new_def Let_def)
  moreover have b: "buffer_ok (Buffer kInitialSize)" "content (Buffer kInitialSize) = []" using Buffer_ok [of kInitialSize] by (simp_all add: buffer_consts)
  moreover have "\<not> writing ?s" using r3(4) by (simp add: writing_def event_bits)
  then have "conn_ok ?s" using r3 b new by (simp add: conn_ok_def conn_new_def)
  ultimately show ?thesis using w b new by (simp add: conn_new_def stream_def)
qed

section \<open>Runs of a connection\<close>

text \<open>What happens to a connection in its loop thread: a user sends, the socket becomes writable, a user shuts down, the peer closes.\<close>

datatype conn_op = Send string "string \<Rightarrow> int + nat" | Writable "string \<Rightarrow> int + nat" | Shutdown | PeerClosed

fun conn_apply :: "(nat \<Rightarrow> int) \<Rightarrow> (tcp_conn \<Rightarrow> tcp_conn result) \<Rightarrow> conn_op \<Rightarrow> tcp_conn \<Rightarrow> tcp_conn result" where
  "conn_apply ret cb (Send d wr) s = TcpConnection_send ret wr d s"
| "conn_apply ret cb (Writable wr) s = handleWrite ret wr s"
| "conn_apply ret cb Shutdown s = TcpConnection_shutdown s"
| "conn_apply ret cb PeerClosed s = handleClose ret cb s"

fun conn_run :: "(nat \<Rightarrow> int) \<Rightarrow> (tcp_conn \<Rightarrow> tcp_conn result) \<Rightarrow> conn_op list \<Rightarrow> tcp_conn \<Rightarrow> tcp_conn result" where
  "conn_run ret cb [] s = Inr s"
| "conn_run ret cb (x # xs) s = bind_result (conn_apply ret cb x s) (conn_run ret cb xs)"

text \<open>The data a run sends, and the state it leaves: only a connected connection sends.\<close>

fun next_state :: "conn_op \<Rightarrow> StateE \<Rightarrow> StateE" where
  "next_state Shutdown st = (if st = kConnected then kDisconnecting else st)"
| "next_state PeerClosed st = kDisconnected"
| "next_state x st = st"

fun sent_by :: "StateE \<Rightarrow> conn_op list \<Rightarrow> string" where
  "sent_by st [] = []"
| "sent_by st (Send d wr # xs) = (if st = kConnected then d else []) @ sent_by st xs"
| "sent_by st (x # xs) = sent_by (next_state x st) xs"

fun op_ok :: "conn_op \<Rightarrow> bool" where
  "op_ok (Send d wr) = (write_contract wr \<and> \<not> broken (wr d))"
| "op_ok (Writable wr) = write_contract wr"
| "op_ok x = True"

text \<open>A write event whose \<open>write\<close> finds the connection broken.\<close>

fun pipe_op :: "conn_op \<Rightarrow> bool" where
  "pipe_op (Writable wr) = (\<exists>d. wr d = Inl EPIPE)"
| "pipe_op x = False"

lemma conn_apply_ok:
  assumes ok: "conn_ok s" and acc: "epoll_accepts ret" and quiet: "quiet cb" and x: "op_ok x"
    and fits: "writerIndex (outputBuffer s) + length (sent_by (cstate s) [x]) \<le> vec_max_size"
  shows "(\<exists>s'. conn_apply ret cb x s = Inr s' \<and> conn_ok s' \<and> stream s' = stream s @ sent_by (cstate s) [x] \<and>
    cstate s' = next_state x (cstate s) \<and>
    writerIndex (outputBuffer s') \<le> writerIndex (outputBuffer s) + length (sent_by (cstate s) [x])) \<or>
    conn_apply ret cb x s = Inl Sigpipe \<and> pipe_op x"
proof (cases x)
  case (Send d wr)
  show ?thesis
  proof (cases "cstate s = kConnected")
    case True
    have "\<not> write_shut s" using ok True by (auto simp: conn_ok_def)
    moreover have "write_contract wr" "\<not> broken (wr d)" using x Send by simp_all
    moreover have "wr d \<noteq> Inl EPIPE" using \<open>\<not> broken (wr d)\<close> by (auto simp: broken_def)
    moreover have "length d \<le> vec_max_size - writerIndex (outputBuffer s)" using fits Send True by simp
    ultimately show ?thesis using sendInLoop_ok [OF ok acc, of wr d] Send True by (auto simp: TcpConnection_send_def)
  next
    case False
    then show ?thesis using ok Send by (simp add: TcpConnection_send_def)
  qed
next
  case (Writable wr)
  show ?thesis
  proof (cases "writing s \<and> wr (content (outputBuffer s)) = Inl EPIPE")
    case True
    then show ?thesis using handleWrite_pipe [OF ok, of wr ret] Writable by auto
  next
    case False
    then show ?thesis using handleWrite_ok [OF ok acc, of wr] x Writable by auto
  qed
next
  case Shutdown
  then show ?thesis using TcpConnection_shutdown_ok [OF ok] by auto
next
  case PeerClosed
  then show ?thesis using handleClose_ok [OF ok acc quiet] by auto
qed

lemma sent_by_Cons: "sent_by st (x # xs) = sent_by st [x] @ sent_by (next_state x st) xs"
  by (cases x) simp_all

lemma conn_run_ok:
  assumes "conn_ok s" and "epoll_accepts ret" and "quiet cb" and "\<forall>x\<in>set xs. op_ok x"
    and "writerIndex (outputBuffer s) + length (sent_by (cstate s) xs) \<le> vec_max_size"
  shows "(\<exists>s'. conn_run ret cb xs s = Inr s' \<and> conn_ok s' \<and> stream s' = stream s @ sent_by (cstate s) xs) \<or>
    conn_run ret cb xs s = Inl Sigpipe \<and> (\<exists>x\<in>set xs. pipe_op x)"
  using assms
proof (induction xs arbitrary: s)
  case (Cons x xs)
  note len = Cons.prems(5) [unfolded sent_by_Cons [of _ x xs]]
  have "op_ok x" "writerIndex (outputBuffer s) + length (sent_by (cstate s) [x]) \<le> vec_max_size" using Cons.prems(4) len by simp_all
  note step = conn_apply_ok [OF Cons.prems(1-3) this]
  show ?case
  proof (cases "conn_apply ret cb x s = Inl Sigpipe \<and> pipe_op x")
    case False
    with step obtain s1 where s1: "conn_apply ret cb x s = Inr s1" "conn_ok s1"
      "stream s1 = stream s @ sent_by (cstate s) [x]" "cstate s1 = next_state x (cstate s)"
      "writerIndex (outputBuffer s1) \<le> writerIndex (outputBuffer s) + length (sent_by (cstate s) [x])" by blast
    have "writerIndex (outputBuffer s1) + length (sent_by (cstate s1) xs) \<le> vec_max_size" using len s1(4,5) by simp
    from Cons.IH [OF s1(2) Cons.prems(2,3) _ this] Cons.prems(4) s1 show ?thesis
      by (auto simp: sent_by_Cons [of "cstate s" x xs])
  qed simp
qed simp

section \<open>Properties\<close>

text \<open>C23: one send in the loop thread. When nothing waits and the direct write finds the pipe broken the process ends by \<^verbatim>\<open>SIGPIPE\<close>. Otherwise,
  unless the direct write shows a connection that was reset, in which case nothing is stored, the bytes are
  appended to the stream whole and in order, part of them already with the socket and the rest in the output buffer with the channel asking for
  writability. The write-complete functor is queued exactly when the direct write took everything, the high-water functor exactly when the
  backlog crosses the mark from below, with the new backlog.\<close>

theorem send_appends_to_stream:
  assumes "conn_ok s" and "cstate s = kConnected" and "epoll_accepts ret" and "write_contract wr"
    and "length data \<le> vec_max_size - writerIndex (outputBuffer s)"
  shows "let idle = (\<not> writing s \<and> content (outputBuffer s) = []) in
    if idle \<and> wr data = Inl EPIPE then TcpConnection_send ret wr data s = Inl Sigpipe
    else \<exists>s'. TcpConnection_send ret wr data s = Inr s' \<and> conn_ok s' \<and> cstate s' = kConnected \<and>
     sock_out s' @ content (outputBuffer s') = sock_out s @ content (outputBuffer s) @ (if idle \<and> broken (wr data) then [] else data) \<and>
     queued s' = queued s @ (if idle \<and> hasWriteComplete s \<and> wr data = Inr (length data) then [WriteComplete] else []) @ crossed s s'"
proof (cases "\<not> writing s \<and> content (outputBuffer s) = [] \<and> wr data = Inl EPIPE")
  case True
  then show ?thesis using sendInLoop_pipe [OF assms(1), of wr data ret] assms(2) by (simp add: TcpConnection_send_def)
next
  case False
  have "\<not> write_shut s" using assms(1,2) by (auto simp: conn_ok_def)
  from sendInLoop_ok [OF assms(1,3,4) this assms(5)] False obtain s' where s': "sendInLoop ret wr data s = Inr s'" "conn_ok s'" "cstate s' = cstate s"
    "if (\<not> writing s \<and> content (outputBuffer s) = []) \<and> broken (wr data) then stream s' = stream s else stream s' = stream s @ data"
    "queued s' = queued s @ (if (\<not> writing s \<and> content (outputBuffer s) = []) \<and> hasWriteComplete s \<and> wr data = Inr (length data) then [WriteComplete] else []) @
      crossed s s'" by blast
  then have "TcpConnection_send ret wr data s = Inr s'" "conn_ok s'" "cstate s' = kConnected" using assms(2) by (simp_all add: TcpConnection_send_def)
  then show ?thesis using False s'(4,5) by (auto simp: stream_def Let_def split: if_splits)
qed

definition sample_reactor0 :: "conn_event reactor" where
  "sample_reactor0 = \<lparr>chans = Map.empty, poll_ptr = Some \<lparr>channels = Map.empty, event_slots = 16, ctl_calls = []\<rparr>\<rparr>"

lemma sample_reactor0_ok: "reactor_ok sample_reactor0" "free_slot sample_reactor0 7 5"
  by (simp_all add: sample_reactor0_def reactor_ok_def poller_ok_def free_slot_def)

definition sample_addr :: sockaddr_in where
  "sample_addr = \<lparr>sin_port = htons 8080, sin_addr = (127, 0, 0, 1)\<rparr>"

definition sample_new :: tcp_conn where
  "sample_new = (case TcpConnection (Some (sample_reactor0, loop_fresh)) 7 ''c1'' 5 sample_addr sample_addr of
     Inr s \<Rightarrow> setHighWaterMarkCallback True 100 (setWriteCompleteCallback True s))"

lemma sample_new_ok: "conn_new sample_new" "io_loop sample_new = loop_fresh"
proof -
  obtain s where s: "TcpConnection (Some (sample_reactor0, loop_fresh)) 7 ''c1'' 5 sample_addr sample_addr = Inr s" using TcpConnection_Inr by blast
  note TcpConnection_new [OF sample_reactor0_ok s]
  then show "conn_new sample_new" "io_loop sample_new = loop_fresh"
    by (simp_all add: sample_new_def s) (simp add: setHighWaterMarkCallback_def setWriteCompleteCallback_def)
qed

lemma sample_accepts: "epoll_accepts (\<lambda>n. 0)" "quiet Inr"
  by (simp_all add: epoll_accepts_def quiet_def)

definition sample_conn :: tcp_conn where
  "sample_conn = (case connectEstablished (\<lambda>n. 0) Inr 9 sample_new of Inr s \<Rightarrow> s)"

lemma sample_conn_ok:
  "conn_ok sample_conn" "cstate sample_conn = kConnected" "stream sample_conn = []" "inputBuffer sample_conn = Buffer kInitialSize"
  "outputBuffer sample_conn = Buffer kInitialSize" "\<not> write_shut sample_conn" "io_loop sample_conn = loop_fresh"
proof -
  from connectEstablished_ok [OF sample_new_ok(1) sample_accepts, of 9] sample_new_ok(2)
  show "conn_ok sample_conn" "cstate sample_conn = kConnected" "stream sample_conn = []" "inputBuffer sample_conn = Buffer kInitialSize"
    "outputBuffer sample_conn = Buffer kInitialSize" "\<not> write_shut sample_conn" "io_loop sample_conn = loop_fresh"
    by (auto simp: sample_conn_def)
qed

lemma sample_conn_empty: "sock_out sample_conn = []" "content (outputBuffer sample_conn) = []" "writerIndex (outputBuffer sample_conn) = 8"
  using sample_conn_ok(3,5) by (simp_all add: stream_def Buffer_def kCheapPrepend_def)

theorem send_appends_to_stream_witness:
  "\<exists>s'. TcpConnection_send (\<lambda>n. 0) (\<lambda>d. Inr (min 2 (length d))) ''hello'' sample_conn = Inr s' \<and> sock_out s' @ content (outputBuffer s') = ''hello''"
  using send_appends_to_stream [OF sample_conn_ok(1,2) sample_accepts(1), of "\<lambda>d. Inr (min 2 (length d))" "''hello''"]
  by (auto simp: sample_conn_empty vec_max_size_def Let_def broken_def write_contract_def)


definition sample_ops :: "conn_op list" where
  "sample_ops = [Send ''hello '' (\<lambda>d. Inr (min 2 (length d))), Send ''world'' (\<lambda>d. Inr 0), Shutdown, Writable (\<lambda>d. Inr (length d)), Send ''late'' (\<lambda>d. Inr 0)]"


section \<open>Sending a file\<close>

lemma sendFileInLoop_idle:
  fixes contents :: string
  assumes ok: "conn_ok s" and up: "cstate s = kConnected" and idle: "content (outputBuffer s) = []"
    and sf: "sf offset cnt = Inr n" and n: "n \<le> cnt" and cnt: "cnt < 2 ^ 64"
  defines "s1 \<equiv> s\<lparr>sock_out := sock_out s @ take n (drop offset contents)\<rparr>"
  shows "sendFileInLoop sf contents f offset cnt s =
    Inr (if n < cnt then queue_functor (SendFileInLoop f (offset + n) (cnt - n)) s1
         else if hasWriteComplete s then queue_functor WriteComplete s1 else s1)" and "conn_ok s1"
proof -
  obtain ch where ch: "chans (rx s) (chan s) = Some ch" "isWriting ch \<longleftrightarrow> writing s" using conn_okD [OF ok] by metis
  have bok: "buffer_ok (outputBuffer s)" and nw: "\<not> writing s" using ok up idle by (auto simp: conn_ok_def)
  have rem: "subsz cnt n = cnt - n" using n cnt by (simp add: subsz_nowrap)
  show "sendFileInLoop sf contents f offset cnt s =
    Inr (if n < cnt then queue_functor (SendFileInLoop f (offset + n) (cnt - n)) s1
         else if hasWriteComplete s then queue_functor WriteComplete s1 else s1)"
    using ch nw readable_zero [OF bok] idle up sf n by (simp add: sendFileInLoop_def Let_def rem s1_def)
  show "conn_ok s1" using ok by (simp add: conn_ok_def writing_def s1_def)
qed

text \<open>The functors of one transfer run one after the other, each with the outcome of its own \<open>sendfile\<close>.\<close>

fun file_rounds :: "nat list \<Rightarrow> string \<Rightarrow> int \<Rightarrow> nat \<Rightarrow> nat \<Rightarrow> tcp_conn \<Rightarrow> (nat \<times> tcp_conn) result" where
  "file_rounds [] contents f offset cnt s = Inr (cnt, s)"
| "file_rounds (n # ns) contents f offset cnt s =
     bind_result (sendFileInLoop (\<lambda>off k. Inr (min n (min k (length contents - off)))) contents f offset cnt s) (\<lambda>s'.
       let sent = min n (min cnt (length contents - offset))
       in if sent < cnt then file_rounds ns contents f (offset + sent) (cnt - sent) s' else Inr (0, s'))"

lemma min_split_sum:
  fixes n S c L :: nat
  shows "min (n + S) (min c L) \<le> min n (min c L) + min S (min (c - min n (min c L)) (L - min n (min c L)))"
proof (cases "n \<le> min c L")
  case True
  then have "min n (min c L) = n" by simp
  moreover have "min c L \<le> n + min (c - n) (L - n)" using True by simp
  moreover have "min (n + S) X \<le> n + min S Y" if "X \<le> n + Y" for X Y :: nat using that by (simp add: min_def)
  ultimately show ?thesis by presburger
next
  case False
  then have "min n (min c L) = min c L" by (intro min.absorb2) linarith
  then show ?thesis by simp
qed

lemma file_rounds_ok:
  assumes "conn_ok s" and "cstate s = kConnected" and "content (outputBuffer s) = []" and "cnt < 2 ^ 64"
  shows "\<exists>s' left. file_rounds ns contents f offset cnt s = Inr (left, s') \<and> conn_ok s' \<and> left \<le> cnt \<and>
    sock_out s' = sock_out s @ take (cnt - left) (drop offset contents) \<and> (left > 0 \<longrightarrow> left \<le> cnt - min (sum_list ns) (min cnt (length contents - offset)))"
  using assms
proof (induction ns arbitrary: s offset cnt)
  case (Cons n ns)
  define sent where "sent = min n (min cnt (length contents - offset))"
  have le: "sent \<le> cnt" by (simp add: sent_def)
  let ?s1 = "s\<lparr>sock_out := sock_out s @ take sent (drop offset contents)\<rparr>"
  note step = sendFileInLoop_idle [OF Cons.prems(1-3) _ le Cons.prems(4), where contents = contents and offset = offset and
      sf = "\<lambda>off k. Inr (min n (min k (length contents - off)))"]
  have step1: "sendFileInLoop (\<lambda>off k. Inr (min n (min k (length contents - off)))) contents f offset cnt s =
    Inr (if sent < cnt then queue_functor (SendFileInLoop f (offset + sent) (cnt - sent)) ?s1
         else if hasWriteComplete s then queue_functor WriteComplete ?s1 else ?s1)" and ok1: "conn_ok ?s1"
    using step by (simp_all add: sent_def)
  show ?case
  proof (cases "sent < cnt")
    case True
    let ?s2 = "queue_functor (SendFileInLoop f (offset + sent) (cnt - sent)) ?s1"
    have "conn_ok ?s2" "cstate ?s2 = kConnected" "content (outputBuffer ?s2) = []" "cnt - sent < 2 ^ 64" using ok1 Cons.prems by simp_all
    from Cons.IH [OF this, of "offset + sent"] obtain s' left where s': "file_rounds ns contents f (offset + sent) (cnt - sent) ?s2 = Inr (left, s')"
      "conn_ok s'" "left \<le> cnt - sent" "sock_out s' = sock_out ?s2 @ take (cnt - sent - left) (drop (offset + sent) contents)"
      "left > 0 \<longrightarrow> left \<le> cnt - sent - min (sum_list ns) (min (cnt - sent) (length contents - (offset + sent)))" by blast
    have "sock_out s' = sock_out s @ take (cnt - left) (drop offset contents)"
    proof -
      have "cnt - left = sent + (cnt - sent - left)" using s'(3) True by simp
      then have "take (cnt - left) (drop offset contents) =
          take sent (drop offset contents) @ take (cnt - sent - left) (drop sent (drop offset contents))"
        by (simp only: take_add)
      then show ?thesis using s'(4) by (simp add: add.commute)
    qed
    moreover have "left > 0 \<longrightarrow> left \<le> cnt - min (sum_list (n # ns)) (min cnt (length contents - offset))"
    proof
      assume "0 < left"
      define X where "X = min (sum_list ns) (min (cnt - sent) (length contents - offset - sent))"
      define Y where "Y = min (sum_list (n # ns)) (min cnt (length contents - offset))"
      have "left \<le> cnt - sent - X" using s'(5) \<open>0 < left\<close> by (simp only: X_def diff_diff_left)
      moreover have "Y \<le> sent + X"
        using min_split_sum [of n "sum_list ns" cnt "length contents - offset"] by (simp only: X_def Y_def sent_def sum_list.Cons)
      ultimately have "left \<le> cnt - Y" by simp
      then show "left \<le> cnt - min (sum_list (n # ns)) (min cnt (length contents - offset))" by (simp only: Y_def)
    qed
    moreover have "file_rounds (n # ns) contents f offset cnt s = Inr (left, s')"
      using step1 True s'(1) by (simp add: sent_def [symmetric] Let_def)
    ultimately show ?thesis using s'(2,3) by (intro exI [of _ s'] exI [of _ left]) auto
  next
    case False
    then have eq: "sent = cnt" using le by simp
    have "file_rounds (n # ns) contents f offset cnt s = Inr (0, if hasWriteComplete s then queue_functor WriteComplete ?s1 else ?s1)"
      using step1 False by (simp add: sent_def [symmetric] Let_def)
    then show ?thesis using ok1 eq by auto
  qed
qed auto

text \<open>a file transfer over a connection with nothing buffered. However the kernel splits it, each round sends the bytes that follow those of the
  round before, and once the rounds have been offered as many bytes as were asked for and the file holds that many,
  exactly those bytes have gone out, in order.\<close>

theorem sendfile_rounds_in_order:
  assumes "conn_ok s" and "cstate s = kConnected" and "content (outputBuffer s) = []" and "cnt < 2 ^ 64"
  shows "\<exists>s' left. file_rounds ns contents f offset cnt s = Inr (left, s') \<and>
    sock_out s' = sock_out s @ take (cnt - left) (drop offset contents) \<and>
    (cnt \<le> sum_list ns \<and> offset + cnt \<le> length contents \<longrightarrow> left = 0 \<and> sock_out s' = sock_out s @ take cnt (drop offset contents))"
proof -
  obtain s' left where s': "file_rounds ns contents f offset cnt s = Inr (left, s')"
    "sock_out s' = sock_out s @ take (cnt - left) (drop offset contents)"
    "left > 0 \<longrightarrow> left \<le> cnt - min (sum_list ns) (min cnt (length contents - offset))"
    using file_rounds_ok [OF assms] by blast
  have "left = 0" if "cnt \<le> sum_list ns" "offset + cnt \<le> length contents"
  proof -
    have "min (sum_list ns) (min cnt (length contents - offset)) = cnt" using that by simp
    with s'(3) show ?thesis by simp
  qed
  with s' show ?thesis by auto
qed

theorem sendfile_rounds_in_order_witness:
  "\<exists>s' left. file_rounds [2, 0, 3] ''abcdefgh'' 4 1 5 sample_conn = Inr (left, s') \<and> sock_out s' = ''bcdef''"
  using sendfile_rounds_in_order [OF sample_conn_ok(1,2) sample_conn_empty(2), of 5 "[2, 0, 3]" "''abcdefgh''" 4 1]
  by (auto simp: sample_conn_empty)

text \<open>a transfer that asks for more bytes than the file has never ends. At the end of the file \<open>sendfile\<close> returns 0, and the functor
  queues itself again unchanged.\<close>

theorem sendfile_past_end_spins:
  assumes "conn_ok s" and "cstate s = kConnected" and "content (outputBuffer s) = []" and "0 < cnt" and "cnt < 2 ^ 64"
    and "length contents \<le> offset"
  shows "sendFileInLoop (\<lambda>off k. Inr (min k (length contents - off))) contents f offset cnt s =
    Inr (queue_functor (SendFileInLoop f offset cnt) s)"
proof -
  have "s\<lparr>sock_out := sock_out s @ []\<rparr> = s" by simp
  then show ?thesis
    using sendFileInLoop_idle(1) [OF assms(1-3), of "\<lambda>off k. Inr (min k (length contents - off))" offset cnt 0 contents f] assms(4-6)
    by simp
qed

theorem sendfile_past_end_spins_witness:
  "sendFileInLoop (\<lambda>off k. Inr (min k (length ''abc'' - off))) ''abc'' 4 3 1 sample_conn = Inr (queue_functor (SendFileInLoop 4 3 1) sample_conn)"
  by (rule sendfile_past_end_spins [OF sample_conn_ok(1,2) sample_conn_empty(2)]) simp_all

text \<open>a disconnected connection still writes. A functor that reaches \<open>sendInLoop\<close> after the connection has been closed logs that it gives up and
  hands the data to the socket all the same.\<close>

theorem disconnected_send_still_writes:
  assumes "conn_ok s" and "cstate s = kDisconnected" and "\<not> writing s" and "content (outputBuffer s) = []"
    and "wr data = Inr (length data)" and "length data < 2 ^ 64"
  shows "\<exists>s'. sendInLoop ret wr data s = Inr s' \<and> cstate s' = kDisconnected \<and> sock_out s' = sock_out s @ data"
proof -
  obtain ch where ch: "chans (rx s) (chan s) = Some ch" "isWriting ch \<longleftrightarrow> writing s" using conn_okD [OF assms(1)] by metis
  have bok: "buffer_ok (outputBuffer s)" using assms(1) by (simp add: conn_ok_def)
  have "first_write wr ch data s = Inr (length data, 0, False,
      if hasWriteComplete s then queue_functor WriteComplete (s\<lparr>sock_out := sock_out s @ data\<rparr>) else s\<lparr>sock_out := sock_out s @ data\<rparr>)"
    using ch(2) assms readable_zero [OF bok] by (simp add: first_write_def Let_def subsz_nowrap)
  then show ?thesis using ch(1) assms(2) by (simp add: sendInLoop_def)
qed

theorem disconnected_send_still_writes_witness:
  "\<exists>s s'. handleClose (\<lambda>n. 0) Inr sample_conn = Inr s \<and> sendInLoop (\<lambda>n. 0) (\<lambda>d. Inr (length d)) ''late'' s = Inr s' \<and> sock_out s' = ''late''"
proof -
  obtain s where s: "handleClose (\<lambda>n. 0) Inr sample_conn = Inr s" "conn_ok s" "cstate s = kDisconnected" "outputBuffer s = outputBuffer sample_conn"
    "sock_out s = sock_out sample_conn" "mask_of (rx s) (chan s) = Some 0"
    using handleClose_ok [OF sample_conn_ok(1) sample_accepts] by blast
  have "\<not> writing s" using s(6) by (simp add: writing_def)
  from disconnected_send_still_writes [OF s(2,3) this, of "\<lambda>d. Inr (length d)" "''late''" "\<lambda>n. 0"] s show ?thesis
    by (auto simp: sample_conn_empty)
qed

text \<open>a connection that is established on a free descriptor is connected, tied and watched for reading, and tells its user once; destroying it,
  whatever happened before, leaves its channel with the kernel no longer and its user told of the end once.\<close>

theorem connection_lifecycle:
  assumes "reactor_ok r" and "free_slot r c sfd" and "epoll_accepts ret" and "quiet cb"
    and "\<forall>x\<in>set xs. op_ok x \<and> \<not> pipe_op x" and "length (sent_by kConnected xs) + 8 \<le> vec_max_size"
  shows "\<exists>s0 s s' t. TcpConnection (Some (r, l)) c nm sfd la pa = Inr s0 \<and>
    connectEstablished ret cb self (setWriteCompleteCallback w s0) = Inr s \<and> watched (rx s) (chan s) = Some kReadEvent \<and>
    user_calls s = [ConnectionCall kConnected] \<and> conn_run ret cb xs s = Inr s' \<and> connectDestroyed ret cb s' = Inr t \<and>
    reactor_ok (rx t) \<and> watched (rx t) (chan t) = None \<and> cstate t \<noteq> kConnected"
proof -
  obtain s0 where s0: "TcpConnection (Some (r, l)) c nm sfd la pa = Inr s0" "conn_new s0" using TcpConnection_Inr TcpConnection_new(1) [OF assms(1,2)] by blast
  obtain s where s: "connectEstablished ret cb self (setWriteCompleteCallback w s0) = Inr s" "conn_ok s" "cstate s = kConnected"
    "watched (rx s) (chan s) = Some kReadEvent" "user_calls s = [ConnectionCall kConnected]" "outputBuffer s = Buffer kInitialSize"
    using connectEstablished_ok [of "setWriteCompleteCallback w s0", OF _ assms(3,4)] s0(2) by auto
  have "writerIndex (outputBuffer s) + length (sent_by (cstate s) xs) \<le> vec_max_size"
    using assms(6) s(3,6) by (simp add: Buffer_def kCheapPrepend_def)
  moreover have "\<forall>x\<in>set xs. op_ok x" "\<not> (\<exists>x\<in>set xs. pipe_op x)" using assms(5) by blast+
  ultimately obtain s' where s': "conn_run ret cb xs s = Inr s'" "conn_ok s'" using conn_run_ok [OF s(2) assms(3,4), of xs] by blast
  from connectDestroyed_ok [OF s'(2) assms(3,4)] s s'(1) s0(1) show ?thesis by blast
qed

theorem connection_lifecycle_witness:
  "\<exists>s0 s s' t. TcpConnection (Some (sample_reactor0, loop_fresh)) 7 ''c1'' 5 sample_addr sample_addr = Inr s0 \<and>
     connectEstablished (\<lambda>n. 0) Inr 9 (setWriteCompleteCallback True s0) = Inr s \<and> conn_run (\<lambda>n. 0) Inr sample_ops s = Inr s' \<and>
     connectDestroyed (\<lambda>n. 0) Inr s' = Inr t \<and> watched (rx t) (chan t) = None"
proof -
  have "\<forall>x\<in>set sample_ops. op_ok x \<and> \<not> pipe_op x" "length (sent_by kConnected sample_ops) + 8 \<le> vec_max_size"
    by (simp_all add: sample_ops_def write_contract_def broken_def vec_max_size_def)
  from connection_lifecycle [OF sample_reactor0_ok sample_accepts this, of loop_fresh "''c1''" sample_addr sample_addr 9 True] show ?thesis by blast
qed

end
