(* ===== verification/LoopPool.thy ===== *)
theory LoopPool
  imports Prelude "HOL-Library.AList"
begin

text \<open>
  The choice of an event loop for a new connection: the consistent hash ring of
  \<^verbatim>\<open>include/ConsistenHash.h\<close> and the thread pool of \<^verbatim>\<open>src/EventLoopThreadPool.cc\<close> that uses it. The hash
  function is a parameter (the class takes it as an argument), and so is the loop that a started
  thread returns. The hash map \<open>circle_\<close> is an association list with distinct keys.
\<close>

section \<open>ConsistentHash\<close>

record consistent_hash =
  numReplicas :: nat
  circle :: "(nat \<times> string) list"
  sortedHashes :: "nat list"

definition ConsistentHash :: "nat \<Rightarrow> consistent_hash" where
  "ConsistentHash n = \<lparr>numReplicas = n, circle = [], sortedHashes = []\<rparr>"

definition add_vnode :: "(string \<Rightarrow> nat) \<Rightarrow> string \<Rightarrow> nat \<Rightarrow> consistent_hash \<Rightarrow> consistent_hash" where
  "add_vnode hf node i c =
     (let hash = hf (node @ ''_0'' @ dec_nat i)
      in c\<lparr>circle := AList.update hash node (circle c), sortedHashes := sortedHashes c @ [hash]\<rparr>)"

definition addNode :: "(string \<Rightarrow> nat) \<Rightarrow> string \<Rightarrow> consistent_hash \<Rightarrow> consistent_hash" where
  "addNode hf node c =
     (let c' = fold (add_vnode hf node) [0..<numReplicas c] c
      in c'\<lparr>sortedHashes := sort (sortedHashes c')\<rparr>)"

definition remove_vnode :: "(string \<Rightarrow> nat) \<Rightarrow> string \<Rightarrow> nat \<Rightarrow> consistent_hash \<Rightarrow> consistent_hash" where
  "remove_vnode hf node i c =
     (let hash = hf (node @ dec_nat i)
      in c\<lparr>circle := AList.delete hash (circle c), sortedHashes := remove1 hash (sortedHashes c)\<rparr>)"

definition removeNode :: "(string \<Rightarrow> nat) \<Rightarrow> string \<Rightarrow> consistent_hash \<Rightarrow> consistent_hash" where
  "removeNode hf node c = fold (remove_vnode hf node) [0..<numReplicas c] c"

text \<open>\<^verbatim>\<open>std::upper_bound\<close> on the sorted hashes, the wrap to the first one, and the dereference.\<close>

definition getNode :: "(string \<Rightarrow> nat) \<Rightarrow> string \<Rightarrow> consistent_hash \<Rightarrow> nat result" where
  "getNode hf key c =
     (if circle c = [] then Inl Runtime_error
      else let hash = hf key;
               it = dropWhile (\<lambda>x. x \<le> hash) (sortedHashes c);
               it' = (if it = [] then sortedHashes c else it)
           in case it' of [] \<Rightarrow> Inl Out_of_bounds | x # _ \<Rightarrow> Inr x)"

section \<open>EventLoopThreadPool\<close>

record 'l loop_pool =
  baseLoop :: 'l
  pool_name :: string
  started :: bool
  numThreads :: int
  loops :: "'l list"
  hash_ring :: consistent_hash

definition EventLoopThreadPool :: "'l \<Rightarrow> string \<Rightarrow> 'l loop_pool" where
  "EventLoopThreadPool base nm =
     \<lparr>baseLoop = base, pool_name = nm, started = False, numThreads = 0, loops = [], hash_ring = ConsistentHash 3\<rparr>"

definition setThreadNum :: "int \<Rightarrow> 'l loop_pool \<Rightarrow> 'l loop_pool" where
  "setThreadNum n p = p\<lparr>numThreads := n\<rparr>"

text \<open>One round of the loop of \<open>start\<close>; \<open>startLoop\<close> gives the loop that the named thread returns.\<close>

definition start_thread :: "(string \<Rightarrow> nat) \<Rightarrow> (string \<Rightarrow> 'l) \<Rightarrow> nat \<Rightarrow> 'l loop_pool \<Rightarrow> 'l loop_pool" where
  "start_thread hf startLoop i p =
     (let buf = pool_name p @ dec_nat i
      in p\<lparr>loops := loops p @ [startLoop buf], hash_ring := addNode hf buf (hash_ring p)\<rparr>)"

text \<open>The result says whether the initialisation callback is run on the base loop.\<close>

definition pool_start :: "(string \<Rightarrow> nat) \<Rightarrow> (string \<Rightarrow> 'l) \<Rightarrow> bool \<Rightarrow> 'l loop_pool \<Rightarrow> bool \<times> 'l loop_pool" where
  "pool_start hf startLoop cb p =
     (numThreads p = 0 \<and> cb, fold (start_thread hf startLoop) [0..<nat (numThreads p)] (p\<lparr>started := True\<rparr>))"

definition getNextLoop :: "(string \<Rightarrow> nat) \<Rightarrow> string \<Rightarrow> 'l loop_pool \<Rightarrow> 'l result" where
  "getNextLoop hf key p =
     bind_result (getNode hf key (hash_ring p))
       (\<lambda>index. if index \<ge> length (loops p) then Inr (baseLoop p) else Inr (loops p ! index))"

definition getAllLoops :: "'l loop_pool \<Rightarrow> 'l list" where
  "getAllLoops p = (if loops p = [] then [baseLoop p] else loops p)"

section \<open>The ring\<close>

text \<open>The ring is sorted, and every hash that names a node is in the sorted list.\<close>

definition ring_ok :: "consistent_hash \<Rightarrow> bool" where
  "ring_ok c \<longleftrightarrow> sorted (sortedHashes c) \<and> fst ` set (circle c) \<subseteq> set (sortedHashes c) \<and> distinct (map fst (circle c))"

definition vhashes :: "(string \<Rightarrow> nat) \<Rightarrow> string \<Rightarrow> nat \<Rightarrow> nat list" where
  "vhashes hf node n = map (\<lambda>i. hf (node @ ''_0'' @ dec_nat i)) [0..<n]"

lemma add_vnodes:
  "numReplicas (fold (add_vnode hf node) is c) = numReplicas c"
  "sortedHashes (fold (add_vnode hf node) is c) = sortedHashes c @ map (\<lambda>i. hf (node @ ''_0'' @ dec_nat i)) is"
  "fst ` set (circle (fold (add_vnode hf node) is c)) =
     fst ` set (circle c) \<union> set (map (\<lambda>i. hf (node @ ''_0'' @ dec_nat i)) is)"
  "distinct (map fst (circle c)) \<Longrightarrow> distinct (map fst (circle (fold (add_vnode hf node) is c)))"
proof (induction "is" arbitrary: c)
  case (Cons i "is")
  have upd: "fst ` set (AList.update k v al) = insert k (fst ` set al)" for k :: nat and v :: string and al
    by (simp add: dom_update)
  {
    case 1 then show ?case using Cons.IH(1) by (simp add: add_vnode_def Let_def)
  next
    case 2 then show ?case using Cons.IH(2) by (simp add: add_vnode_def Let_def)
  next
    case 3 then show ?case using Cons.IH(3) upd by (simp add: add_vnode_def Let_def)
  next
    case 4 then show ?case using Cons.IH(4) by (simp add: add_vnode_def Let_def distinct_update)
  }
qed simp_all

lemma addNode_hashes:
  "mset (sortedHashes (addNode hf node c)) = mset (sortedHashes c) + mset (vhashes hf node (numReplicas c))"
  "set (sortedHashes (addNode hf node c)) = set (sortedHashes c) \<union> set (vhashes hf node (numReplicas c))"
  "numReplicas (addNode hf node c) = numReplicas c"
  by (simp_all add: addNode_def Let_def add_vnodes vhashes_def)

lemma addNode_ok: "ring_ok c \<Longrightarrow> ring_ok (addNode hf node c)"
  by (auto simp: ring_ok_def addNode_def Let_def add_vnodes)

lemma addNode_circle: "0 < numReplicas c \<Longrightarrow> circle (addNode hf node c) \<noteq> []"
proof -
  assume "0 < numReplicas c"
  then have "fst ` set (circle (addNode hf node c)) \<noteq> {}"
    by (simp add: addNode_def Let_def add_vnodes)
  then show ?thesis by auto
qed

lemma remove_vnodes_ok: "ring_ok c \<Longrightarrow> ring_ok (fold (remove_vnode hf node) is c)"
proof (induction "is" arbitrary: c)
  case (Cons i "is")
  have "fst ` set (AList.delete k al) = fst ` set al - {k}" for k :: nat and al :: "(nat \<times> string) list"
    by (metis delete_keys set_map set_removeAll)
  then have "ring_ok (remove_vnode hf node i c)"
    using Cons.prems
    by (fastforce simp: ring_ok_def remove_vnode_def Let_def sorted_remove1 distinct_delete in_set_remove1)
  with Cons.IH show ?case by simp
qed simp

lemma removeNode_ok: "ring_ok c \<Longrightarrow> ring_ok (removeNode hf node c)"
  by (simp add: removeNode_def remove_vnodes_ok)

text \<open>The clockwise successor of a hash on a ring of hashes.\<close>

definition successor :: "nat set \<Rightarrow> nat \<Rightarrow> nat" where
  "successor H h = (if \<exists>x\<in>H. h < x then Min {x \<in> H. h < x} else Min H)"

lemma successor_eqI:
  assumes "finite H" and "x \<in> H" and "h < x \<and> (\<forall>y\<in>H. h < y \<longrightarrow> x \<le> y) \<or> (\<forall>y\<in>H. y \<le> h) \<and> (\<forall>y\<in>H. x \<le> y)"
  shows "successor H h = x"
  using assms by (auto simp: successor_def not_less [symmetric] intro!: Min_eqI)

lemma getNode_successor:
  assumes ok: "ring_ok c" and ne: "circle c \<noteq> []"
  shows "getNode hf key c = Inr (successor (set (sortedHashes c)) (hf key))"
proof -
  let ?xs = "sortedHashes c" and ?h = "hf key"
  have srt: "sorted ?xs" and ne': "?xs \<noteq> []" using ok ne by (auto simp: ring_ok_def)
  show ?thesis
  proof (cases "dropWhile (\<lambda>x. x \<le> ?h) ?xs")
    case Nil
    then have "\<forall>y\<in>set ?xs. y \<le> ?h" by (simp add: dropWhile_eq_Nil_conv)
    moreover obtain x xs where "?xs = x # xs" using ne' by (cases ?xs) auto
    ultimately show ?thesis
      using Nil ne srt by (auto simp: getNode_def Let_def intro!: successor_eqI [symmetric])
  next
    case (Cons x xs)
    have "?xs = takeWhile (\<lambda>x. x \<le> ?h) ?xs @ x # xs" using Cons by (metis takeWhile_dropWhile_id)
    then have x: "x \<in> set ?xs" "\<forall>y\<in>set ?xs. y \<in> set (takeWhile (\<lambda>x. x \<le> ?h) ?xs) \<or> x \<le> y"
      using srt by (metis in_set_conv_decomp, metis (no_types, lifting) Un_iff order_refl set_ConsD set_append sorted_append sorted_simps(2))
    moreover have "?h < x" using Cons by (metis dropWhile_eq_Cons_conv not_le)
    ultimately have "successor (set ?xs) ?h = x"
      by (intro successor_eqI) (auto dest!: set_takeWhileD)
    then show ?thesis using Cons ne by (simp add: getNode_def Let_def del: dropWhile_eq_Nil_conv)
  qed
qed

lemma successor_union:
  assumes "finite H" and "finite V" and "H \<noteq> {}"
  shows "successor (H \<union> V) h = successor H h \<or> successor (H \<union> V) h \<in> V"
proof (cases "successor (H \<union> V) h \<in> V")
  case False
  have mem: "successor (H \<union> V) h \<in> H \<union> V"
    using assms Min_in [of "{x \<in> H \<union> V. h < x}"] Min_in [of "H \<union> V"] by (auto simp: successor_def)
  with False have inH: "successor (H \<union> V) h \<in> H" by blast
  have "successor H h = successor (H \<union> V) h"
  proof (cases "\<exists>x\<in>H \<union> V. h < x")
    case True
    then have "successor (H \<union> V) h = Min {x \<in> H \<union> V. h < x}" by (simp add: successor_def)
    moreover have "Min {x \<in> H \<union> V. h < x} \<in> {x \<in> H \<union> V. h < x}"
      using True assms by (intro Min_in) auto
    moreover have "\<forall>y\<in>{x \<in> H \<union> V. h < x}. Min {x \<in> H \<union> V. h < x} \<le> y" using assms by auto
    ultimately show ?thesis using inH assms(1) by (intro successor_eqI) auto
  next
    case no: False
    then have "successor (H \<union> V) h = Min (H \<union> V)" by (auto simp: successor_def)
    then show ?thesis using no inH assms by (intro successor_eqI) (auto simp: not_less)
  qed
  then show ?thesis by simp
qed simp

section \<open>The pool\<close>

lemma pool_fold:
  "numThreads (fold (start_thread hf sl) is p) = numThreads p"
  "baseLoop (fold (start_thread hf sl) is p) = baseLoop p"
  "length (loops (fold (start_thread hf sl) is p)) = length (loops p) + length is"
  "ring_ok (hash_ring p) \<Longrightarrow> ring_ok (hash_ring (fold (start_thread hf sl) is p))"
  "numReplicas (hash_ring (fold (start_thread hf sl) is p)) = numReplicas (hash_ring p)"
  by (induction "is" arbitrary: p) (auto simp: start_thread_def Let_def addNode_ok addNode_hashes)

lemma pool_fold_hashes:
  "set (sortedHashes (hash_ring (fold (start_thread hf sl) is p))) =
     set (sortedHashes (hash_ring p)) \<union>
     (\<Union>i\<in>set is. set (vhashes hf (pool_name p @ dec_nat i) (numReplicas (hash_ring p))))"
  by (induction "is" arbitrary: p) (auto simp: start_thread_def Let_def addNode_hashes)

lemma pool_fold_circle:
  "is \<noteq> [] \<Longrightarrow> 0 < numReplicas (hash_ring p) \<Longrightarrow> circle (hash_ring (fold (start_thread hf sl) is p)) \<noteq> []"
proof (induction "is" rule: rev_induct)
  case (snoc i "is")
  have "0 < numReplicas (hash_ring (fold (start_thread hf sl) is p))" using snoc.prems by (simp add: pool_fold)
  then show ?case
    by (simp add: start_thread_def [where p = "fold _ _ _"] Let_def addNode_circle)
qed simp

lemma new_ring_ok: "ring_ok (ConsistentHash n)"
  by (simp add: ring_ok_def ConsistentHash_def)

section \<open>Rings built from nodes\<close>

definition ring_of :: "(string \<Rightarrow> nat) \<Rightarrow> nat \<Rightarrow> string list \<Rightarrow> consistent_hash" where
  "ring_of hf n ns = fold (addNode hf) ns (ConsistentHash n)"

lemma ring_of_snoc: "ring_of hf n (ns @ [node]) = addNode hf node (ring_of hf n ns)"
  by (simp add: ring_of_def)

lemma ring_of_ok:
  "ring_ok (ring_of hf n ns)" "numReplicas (ring_of hf n ns) = n"
  "set (sortedHashes (ring_of hf n ns)) = (\<Union>node\<in>set ns. set (vhashes hf node n))"
proof (induction ns rule: rev_induct)
  case Nil
  { case 1 show ?case by (simp add: ring_of_def new_ring_ok) }
  { case 2 show ?case by (simp add: ring_of_def ConsistentHash_def) }
  { case 3 show ?case by (simp add: ring_of_def ConsistentHash_def) }
next
  case (snoc node ns)
  { case 1 show ?case using snoc.IH(1) by (simp add: ring_of_snoc addNode_ok) }
  { case 2 show ?case using snoc.IH(2) by (simp add: ring_of_snoc addNode_hashes) }
  { case 3 show ?case using snoc.IH by (auto simp: ring_of_snoc addNode_hashes) }
qed

lemma ring_of_circle: "circle (ring_of hf n ns) = [] \<longleftrightarrow> n = 0 \<or> ns = []"
proof (cases ns rule: rev_cases)
  case Nil
  then show ?thesis by (simp add: ring_of_def ConsistentHash_def)
next
  case (snoc ms node)
  have e: "circle (ring_of hf 0 ks) = []" for ks
    by (induction ks rule: rev_induct) (simp_all add: ring_of_snoc ring_of_ok(2) addNode_def Let_def, simp add: ring_of_def ConsistentHash_def)
  show ?thesis
  proof (cases "n = 0")
    case False
    then show ?thesis using addNode_circle [of "ring_of hf n ms" hf node] ring_of_ok(2) [of hf n ms] snoc by (simp add: ring_of_snoc)
  qed (simp add: e)
qed

section \<open>Properties\<close>

text \<open>
  on a well-formed ring with at least one node, looking a key up always succeeds and returns
  the clockwise successor of the key's hash: the least hash on the ring above it, or the least
  hash of all when there is none above; on a ring without nodes it throws.
\<close>

theorem getNode_clockwise:
  assumes "ring_ok c"
  shows "getNode hf key c =
    (if circle c = [] then Inl Runtime_error
     else Inr (if \<exists>x\<in>set (sortedHashes c). hf key < x then Min {x \<in> set (sortedHashes c). hf key < x}
               else Min (set (sortedHashes c))))"
  using getNode_successor [OF assms] by (simp add: successor_def getNode_def)

theorem getNode_clockwise_witness:
  "getNode length ''abcd'' (addNode length ''loop'' (ConsistentHash 2)) = Inr 7"
proof -
  let ?c = "addNode length ''loop'' (ConsistentHash 2)"
  have ok: "ring_ok ?c" by (simp add: addNode_ok new_ring_ok)
  have "circle ?c \<noteq> []" by (rule addNode_circle) (simp add: ConsistentHash_def)
  moreover have "set (sortedHashes ?c) = {7}"
    by (simp add: addNode_hashes vhashes_def ConsistentHash_def upt_rec dec_nat.simps)
  moreover have "{x. x = (7::nat) \<and> Suc (Suc (Suc (Suc 0))) < x} = {7}" by auto
  ultimately show ?thesis using getNode_clockwise [OF ok, of length "''abcd''"] by simp
qed

text \<open>
  the consistency of the hashing. Adding a node to a ring that already has nodes leaves every
  key where it was, except for the keys that move to the new node itself.
\<close>

theorem addNode_moves_keys_only_to_it:
  assumes "ring_ok c" and "circle c \<noteq> []"
  shows "getNode hf key (addNode hf node c) = getNode hf key c \<or>
    (\<exists>h. getNode hf key (addNode hf node c) = Inr h \<and> h \<in> set (vhashes hf node (numReplicas c)))"
proof -
  have H: "set (sortedHashes c) \<noteq> {}" using assms by (auto simp: ring_ok_def)
  have ne: "circle (addNode hf node c) \<noteq> []"
  proof -
    have "fst ` set (circle (addNode hf node c)) \<noteq> {}"
      using assms(2) by (simp add: addNode_def Let_def add_vnodes)
    then show ?thesis by auto
  qed
  show ?thesis
    using successor_union [OF _ _ H, of "set (vhashes hf node (numReplicas c))" "hf key"]
    by (auto simp: getNode_successor [OF assms] getNode_successor [OF addNode_ok [OF assms(1)] ne] addNode_hashes)
qed

theorem addNode_moves_keys_only_to_it_witness:
  "getNode length ''k'' (addNode length ''b'' (addNode length ''longname'' (ConsistentHash 1))) = Inr 11 \<or>
   (\<exists>h. getNode length ''k'' (addNode length ''b'' (addNode length ''longname'' (ConsistentHash 1))) = Inr h \<and> h = 4)"
proof -
  let ?c = "addNode length ''longname'' (ConsistentHash 1)"
  have ok: "ring_ok ?c" and ne: "circle ?c \<noteq> []"
    by (simp add: addNode_ok new_ring_ok) (rule addNode_circle, simp add: ConsistentHash_def)
  have "set (sortedHashes ?c) = {11}"
    by (simp add: addNode_hashes vhashes_def ConsistentHash_def dec_nat.simps)
  moreover have "{x. x = (11::nat) \<and> Suc 0 < x} = {11}" by auto
  ultimately have "getNode length ''k'' ?c = Inr 11"
    using getNode_successor [OF ok ne, of length "''k''"] by (simp add: successor_def)
  then show ?thesis
    using addNode_moves_keys_only_to_it [OF ok ne, of length "''k''" "''b''"]
    by (simp add: addNode_hashes vhashes_def ConsistentHash_def dec_nat.simps eval_nat_numeral)
qed

lemma remove_absent: "\<forall>i\<in>set is. hf (node @ dec_nat i) \<notin> set (sortedHashes c) \<Longrightarrow> ring_ok c \<Longrightarrow>
    fold (remove_vnode hf node) is c = c"
proof (induction "is")
  case (Cons i "is")
  then have "hf (node @ dec_nat i) \<notin> fst ` set (circle c)" by (auto simp: ring_ok_def)
  with Cons.prems have "remove_vnode hf node i c = c"
    by (simp add: remove_vnode_def Let_def remove1_idem)
  with Cons show ?case by simp
qed simp

text \<open>
  \<open>removeNode\<close> does not remove what \<open>addNode\<close> added. The two build the names of the virtual nodes
  differently (\<open>node_0i\<close> and \<open>nodei\<close>); unless the hash function happens to map two such names to the
  same value, a ring to which a node was added is unchanged by removing it again.
\<close>

theorem removeNode_keeps_the_node:
  assumes "\<forall>i<n. \<forall>j<n. hf (node @ dec_nat i) \<noteq> hf (node @ ''_0'' @ dec_nat j)"
  shows "removeNode hf node (addNode hf node (ConsistentHash n)) = addNode hf node (ConsistentHash n)"
proof -
  have "set (sortedHashes (addNode hf node (ConsistentHash n))) = (\<lambda>i. hf (node @ ''_0'' @ dec_nat i)) ` {0..<n}"
    by (simp add: addNode_hashes vhashes_def ConsistentHash_def)
  with assms have "\<forall>i\<in>set [0..<n]. hf (node @ dec_nat i) \<notin> set (sortedHashes (addNode hf node (ConsistentHash n)))"
    by auto
  then show ?thesis
    unfolding removeNode_def
    by (intro remove_absent) (simp_all add: addNode_hashes ConsistentHash_def addNode_ok new_ring_ok [unfolded ConsistentHash_def])
qed

theorem removeNode_keeps_the_node_witness:
  "removeNode length ''EchoServer0'' (addNode length ''EchoServer0'' (ConsistentHash 3)) =
     addNode length ''EchoServer0'' (ConsistentHash 3) \<and>
   circle (removeNode length ''EchoServer0'' (addNode length ''EchoServer0'' (ConsistentHash 3))) \<noteq> []"
proof -
  have "length (dec_nat i) = 1" if "i < 3" for i using that by (simp add: dec_nat.simps)
  then have "\<forall>i<3. \<forall>j<3. length (''EchoServer0'' @ dec_nat i) \<noteq> length (''EchoServer0'' @ ''_0'' @ dec_nat j)"
    by simp
  from removeNode_keeps_the_node [OF this] show ?thesis
    using addNode_circle [of "ConsistentHash 3"] by (simp add: ConsistentHash_def)
qed

lemma pool_choice:
  assumes "0 < n" and p_def: "p = snd (pool_start hf startLoop cb (setThreadNum (int n) (EventLoopThreadPool base name)))"
  shows "(\<exists>l. getNextLoop hf key p = Inr l \<and> (l = base \<or> l \<in> set (loops p))) \<and> length (loops p) = n \<and>
    ((\<forall>i<n. \<forall>j<3. n \<le> hf (name @ dec_nat i @ ''_0'' @ dec_nat j)) \<longrightarrow> getNextLoop hf key p = Inr base)"
proof -
  let ?p0 = "setThreadNum (int n) (EventLoopThreadPool base name)\<lparr>started := True\<rparr>"
  have p: "p = fold (start_thread hf startLoop) [0..<n] ?p0" by (simp add: p_def pool_start_def setThreadNum_def)
  have p0: "hash_ring ?p0 = ConsistentHash 3" "loops ?p0 = []" "baseLoop ?p0 = base" "pool_name ?p0 = name"
    by (simp_all add: setThreadNum_def EventLoopThreadPool_def)
  have ring: "ring_ok (hash_ring p)" "circle (hash_ring p) \<noteq> []"
    unfolding p using assms(1)
    by (intro pool_fold(4), simp only: p0 new_ring_ok, intro pool_fold_circle, simp, simp only: p0, simp add: ConsistentHash_def)
  have len: "length (loops p) = n" and base: "baseLoop p = base" by (simp_all add: p pool_fold p0)
  let ?H = "set (sortedHashes (hash_ring p))"
  have H: "?H = (\<Union>i\<in>{0..<n}. set (vhashes hf (name @ dec_nat i) 3))"
    using pool_fold_hashes [of hf startLoop "[0..<n]" ?p0] by (simp add: p p0 ConsistentHash_def)
  have "?H \<noteq> {}" using ring by (auto simp: ring_ok_def)
  then have "successor ?H (hf key) \<in> ?H"
    using Min_in [of "{x \<in> ?H. hf key < x}"] Min_in [of ?H] by (auto simp: successor_def)
  then have "\<forall>i<n. \<forall>j<3. n \<le> hf (name @ dec_nat i @ ''_0'' @ dec_nat j) \<Longrightarrow> n \<le> successor ?H (hf key)"
    unfolding H by (auto simp: vhashes_def)
  then show ?thesis
    using len base getNode_successor [OF ring, of hf key] by (auto simp: getNextLoop_def)
qed

text \<open>
  what the pool does with the hash. A started pool with at least one thread always returns a
  loop: the thread whose number is the value \<open>getNode\<close> returned, or the base loop when that value,
  a hash and not a thread number, is not below the number of threads. If all hashes of the virtual
  nodes are that large, every connection is given to the base loop and the threads stay idle.
\<close>

theorem pool_returns_base_loop:
  assumes "0 < n" and p_def: "p = snd (pool_start hf startLoop cb (setThreadNum (int n) (EventLoopThreadPool base name)))"
  shows "(\<exists>l. getNextLoop hf key p = Inr l \<and> (l = base \<or> l \<in> set (loops p))) \<and> length (loops p) = n \<and>
    ((\<forall>i<n. \<forall>j<3. n \<le> hf (name @ dec_nat i @ ''_0'' @ dec_nat j)) \<longrightarrow> getNextLoop hf key p = Inr base)"
  using assms by (rule pool_choice)

theorem pool_returns_base_loop_witness:
  "getNextLoop length ''127.0.0.1'' (snd (pool_start length id False (setThreadNum (int 3) (EventLoopThreadPool ''base'' ''EchoServer''))))
     = Inr ''base''"
  using pool_returns_base_loop [OF _ refl, of 3 length "''127.0.0.1''" id False "''base''" "''EchoServer''"] by simp

text \<open>
  a pool without threads throws when it is asked for a loop, although its base loop is meant to
  serve all connections then.
\<close>

theorem pool_without_threads_throws:
  "getNextLoop hf key (snd (pool_start hf startLoop cb (EventLoopThreadPool base name))) = Inl Runtime_error \<and>
   getAllLoops (snd (pool_start hf startLoop cb (EventLoopThreadPool base name))) = [base]"
  by (simp add: pool_start_def EventLoopThreadPool_def getNextLoop_def getNode_def ConsistentHash_def getAllLoops_def)

text \<open>
  What the comment on \<^verbatim>\<open>getNode\<close> says: the first hash greater than or equal to the key's, or the first of all. It is what the code finds unless the
  key's hash is itself a hash of the ring and not the only one.
\<close>

definition documented_node :: "nat set \<Rightarrow> nat \<Rightarrow> nat" where
  "documented_node H h = (if \<exists>x\<in>H. h \<le> x then Min {x \<in> H. h \<le> x} else Min H)"

lemma successor_in: "finite H \<Longrightarrow> H \<noteq> {} \<Longrightarrow> successor H h \<in> H"
  using Min_in [of "{x \<in> H. h < x}"] Min_in [of H] by (auto simp: successor_def)

lemma documented_iff:
  assumes fin: "finite H" and ne: "H \<noteq> {}"
  shows "successor H h = documented_node H h \<longleftrightarrow> h \<notin> H \<or> H = {h}"
proof (cases "h \<in> H")
  case True
  have "Min {x \<in> H. h \<le> x} = h" using fin True by (intro Min_eqI) auto
  then have doc: "documented_node H h = h" using True by (auto simp: documented_node_def)
  have "successor H h = h \<longleftrightarrow> H = {h}"
  proof
    assume s: "successor H h = h"
    have none: "\<not> (\<exists>x\<in>H. h < x)"
    proof
      assume ex: "\<exists>x\<in>H. h < x"
      then have "Min {x \<in> H. h < x} \<in> {x \<in> H. h < x}" using fin by (intro Min_in) auto
      with s ex show False by (simp add: successor_def)
    qed
    with s have "Min H = h" by (simp add: successor_def)
    then have "h \<le> x" if "x \<in> H" for x using that fin Min_le by metis
    with none True show "H = {h}" by fastforce
  qed (simp add: successor_def)
  with doc True show ?thesis by simp
next
  case False
  then have "h \<le> x \<longleftrightarrow> h < x" if "x \<in> H" for x using that by (metis le_neq_implies_less less_imp_le)
  then have "(\<exists>x\<in>H. h \<le> x) \<longleftrightarrow> (\<exists>x\<in>H. h < x)" "{x \<in> H. h \<le> x} = {x \<in> H. h < x}" by auto
  with False show ?thesis by (simp add: successor_def documented_node_def)
qed

text \<open>
  C38: The ring is equivalent to its reference: the loops keep a sorted list and a hash map up to date node by node, and a lookup in the ring is
  the clockwise successor among all virtual hashes of its nodes, the first one strictly greater than the key's hash or else the least. So the order in
  which the nodes were added does not matter, even when hashes collide. This is not what the comment on \<^verbatim>\<open>getNode\<close> says: the result is a hash of the
  ring and not the name of a node, and it is the first hash greater than or equal to the key's exactly when the key's hash is not on
  the ring or the only one there.
\<close>

theorem ring_order_irrelevant:
  assumes "set ns = set ms" and "ring = (\<Union>node\<in>set ns. set (vhashes hf node n))"
  shows "getNode hf key (ring_of hf n ns) = getNode hf key (ring_of hf n ms) \<and>
    getNode hf key (ring_of hf n ns) = (if n = 0 \<or> ns = [] then Inl Runtime_error else Inr (successor ring (hf key))) \<and>
    (n \<noteq> 0 \<and> ns \<noteq> [] \<longrightarrow> successor ring (hf key) \<in> ring \<and>
      (successor ring (hf key) = documented_node ring (hf key) \<longleftrightarrow> hf key \<notin> ring \<or> ring = {hf key}))"
proof -
  have look: "getNode hf key (ring_of hf n ks) =
      (if n = 0 \<or> set ks = {} then Inl Runtime_error else Inr (successor (\<Union>node\<in>set ks. set (vhashes hf node n)) (hf key)))" for ks
    using getNode_successor [OF ring_of_ok(1) [of hf n ks], of hf key] ring_of_circle [of hf n ks] ring_of_ok(3) [of hf n ks]
    by (auto simp: getNode_def)
  have "ns = [] \<longleftrightarrow> set ns = {}" by simp
  then have "getNode hf key (ring_of hf n ns) = getNode hf key (ring_of hf n ms) \<and>
    getNode hf key (ring_of hf n ns) = (if n = 0 \<or> ns = [] then Inl Runtime_error else Inr (successor ring (hf key)))"
    using look [of ns] look [of ms] unfolding assms by simp
  moreover have "successor ring (hf key) \<in> ring \<and> (successor ring (hf key) = documented_node ring (hf key) \<longleftrightarrow> hf key \<notin> ring \<or> ring = {hf key})"
    if "n \<noteq> 0" "ns \<noteq> []"
  proof -
    have "finite ring" "ring \<noteq> {}" using that by (auto simp: assms(2) vhashes_def)
    then show ?thesis using successor_in documented_iff by blast
  qed
  ultimately show ?thesis by blast
qed

theorem ring_order_irrelevant_witness:
  "getNode length ''kkkk'' (ring_of length 2 [''a'', ''longer'', ''b'']) = getNode length ''kkkk'' (ring_of length 2 [''longer'', ''b'', ''a'']) \<and>
   getNode length ''kkkk'' (ring_of length 2 [''a'', ''longer'', ''b'']) = Inr 9 \<and> documented_node {4, 9} 4 = 4"
proof -
  have same: "set [''a'', ''longer'', ''b''] = set [''longer'', ''b'', ''a'']" by auto
  have d: "dec_nat 0 = [digit_char 0]" "dec_nat (Suc 0) = [digit_char 1]" by (simp_all add: dec_nat.simps)
  have ring: "{4, 9} = (\<Union>node\<in>set [''a'', ''longer'', ''b'']. set (vhashes length node 2))"
    by (auto simp: vhashes_def d numeral_2_eq_2)
  have "successor {4, 9} (length ''kkkk'') = (9 :: nat)" by (rule successor_eqI) auto
  moreover have "documented_node {4, 9} 4 = (4 :: nat)" by (auto simp: documented_node_def intro!: Min_eqI)
  ultimately show ?thesis using ring_order_irrelevant [OF same ring, of "''kkkk''"] by auto
qed

end
