(* ===== verification/TcpServers.thy ===== *)
theory TcpServers
  imports TcpConnections LoopPool "HOL-Library.AList"
begin

text \<open>
  The server: \<^verbatim>\<open>src/TcpServer.cc\<close> and the echo server of \<^verbatim>\<open>src/main.cc\<close>. The main loop accepts connections and hands each to a loop of the
  pool; establishing, removing and destroying a connection are functors that travel between the threads of these loops.
\<close>

section \<open>State\<close>

text \<open>The functors the server binds, for the connection object with the given number.\<close>

datatype server_functor = Listen | Establish nat | RemoveInLoop nat | Destroy nat

text \<open>
  The stages of a connection object: \<open>Connecting\<close> until \<open>connectEstablished\<close> has run, \<open>Closing\<close> when \<open>handleClose\<close> has run,
  \<open>Removed\<close> when it has left the map, \<open>Destroyed\<close> when \<open>connectDestroyed\<close> has run.
\<close>

datatype phase = Connecting | Established | Closing | Removed | Destroyed

record 'l conn_info =
  conn_name :: string
  conn_loop :: 'l
  conn_fd :: int

text \<open>\<open>queues\<close> are the functors that wait in the loops, oldest first.\<close>

record 'l server =
  base_loop :: 'l
  ipPort :: string
  server_name :: string
  thread_pool :: "'l loop_pool"
  start_count :: int
  nextConnId :: int
  connections :: "(string \<times> nat) list"
  objects :: "nat \<rightharpoonup> 'l conn_info"
  next_object :: nat
  phases :: "nat \<Rightarrow> phase"
  queues :: "'l \<Rightarrow> server_functor list"
  listen_count :: nat

section \<open>Operations\<close>

definition TcpServer :: "'l option \<Rightarrow> sockaddr_in \<Rightarrow> string \<Rightarrow> 'l server result" where
  "TcpServer loop listenAddr nm =
     bind_result (CheckLoopNotNull loop) (\<lambda>l.
     bind_result (toIpPort listenAddr) (\<lambda>addr.
       Inr \<lparr>base_loop = l, ipPort = addr, server_name = nm, thread_pool = EventLoopThreadPool l nm, start_count = 0, nextConnId = 1,
            connections = [], objects = Map.empty, next_object = 0, phases = (\<lambda>_. Connecting), queues = (\<lambda>_. []), listen_count = 0\<rparr>))"

definition TcpServer_setThreadNum :: "int \<Rightarrow> 'l server \<Rightarrow> 'l server" where
  "TcpServer_setThreadNum n s = s\<lparr>thread_pool := setThreadNum n (thread_pool s)\<rparr>"

definition post :: "'l \<Rightarrow> server_functor \<Rightarrow> 'l server \<Rightarrow> 'l server" where
  "post l f s = s\<lparr>queues := (queues s)(l := queues s l @ [f])\<rparr>"

definition removeConnectionInLoop :: "nat \<Rightarrow> 'l server \<Rightarrow> 'l server" where
  "removeConnectionInLoop c s =
     (case objects s c of
        None \<Rightarrow> s
      | Some i \<Rightarrow> post (conn_loop i) (Destroy c) (s\<lparr>phases := (phases s)(c := Removed), connections := AList.delete (conn_name i) (connections s)\<rparr>))"

fun exec_functor :: "server_functor \<Rightarrow> 'l server \<Rightarrow> 'l server" where
  "exec_functor Listen s = s\<lparr>listen_count := listen_count s + 1\<rparr>"
| "exec_functor (Establish c) s = s\<lparr>phases := (phases s)(c := Established)\<rparr>"
| "exec_functor (RemoveInLoop c) s = removeConnectionInLoop c s"
| "exec_functor (Destroy c) s = s\<lparr>phases := (phases s)(c := Destroyed)\<rparr>"

text \<open>\<^verbatim>\<open>runInLoop\<close> of the loop \<open>dest\<close>, called in the thread of the loop \<open>cur\<close>.\<close>

definition run_in_loop :: "'l \<Rightarrow> 'l \<Rightarrow> server_functor \<Rightarrow> 'l server \<Rightarrow> 'l server" where
  "run_in_loop cur dest f s = (if cur = dest then exec_functor f s else post dest f s)"

definition TcpServer_start :: "(string \<Rightarrow> nat) \<Rightarrow> (string \<Rightarrow> 'l) \<Rightarrow> bool \<Rightarrow> 'l \<Rightarrow> 'l server \<Rightarrow> 'l server" where
  "TcpServer_start hf startLoop cb cur s =
     (let s1 = s\<lparr>start_count := start_count s + 1\<rparr>
      in if start_count s = 0
         then run_in_loop cur (base_loop s) Listen (s1\<lparr>thread_pool := snd (pool_start hf startLoop cb (thread_pool s))\<rparr>)
         else s1)"

text \<open>\<^verbatim>\<open>snprintf\<close> into 64 bytes keeps 63 characters.\<close>

definition connName :: "'l server \<Rightarrow> int \<Rightarrow> string" where
  "connName s k = server_name s @ take 63 (''-'' @ ipPort s @ ''#'' @ dec_int k)"

text \<open>The entry of a new connection object in the map; the acceptor calls \<open>newConnection\<close> in the main loop's thread.\<close>

definition register_connection :: "'l \<Rightarrow> int \<Rightarrow> 'l server \<Rightarrow> 'l server" where
  "register_connection ioLoop sfd s =
     (let c = next_object s; nm = connName s (nextConnId s)
      in s\<lparr>nextConnId := nextConnId s + 1, connections := AList.update nm c (connections s),
           objects := (objects s)(c \<mapsto> \<lparr>conn_name = nm, conn_loop = ioLoop, conn_fd = sfd\<rparr>), next_object := c + 1,
           phases := (phases s)(c := Connecting)\<rparr>)"

definition newConnection :: "(string \<Rightarrow> nat) \<Rightarrow> int \<Rightarrow> sockaddr_in \<Rightarrow> 'l server \<Rightarrow> 'l server result" where
  "newConnection hf sfd peer s =
     bind_result (getNextLoop hf (toIp peer) (thread_pool s)) (\<lambda>ioLoop.
       if nextConnId s = 2 ^ 31 - 1 then Inl Int_overflow
       else Inr (run_in_loop (base_loop s) ioLoop (Establish (next_object s)) (register_connection ioLoop sfd s)))"

text \<open>\<^verbatim>\<open>handleClose\<close> of a connection calls \<open>removeConnection\<close> in the thread of the connection's loop.\<close>

definition removeConnection :: "nat \<Rightarrow> 'l server \<Rightarrow> 'l server" where
  "removeConnection c s =
     (case objects s c of
        None \<Rightarrow> s
      | Some i \<Rightarrow> run_in_loop (conn_loop i) (base_loop s) (RemoveInLoop c) s)"

definition connection_closed :: "nat \<Rightarrow> 'l server \<Rightarrow> 'l server" where
  "connection_closed c s = removeConnection c (s\<lparr>phases := (phases s)(c := Closing)\<rparr>)"

text \<open>The destructor, run in the thread of \<open>cur\<close>, destroys the connections that are left.\<close>

definition TcpServer_dtor :: "'l \<Rightarrow> 'l server \<Rightarrow> 'l server" where
  "TcpServer_dtor cur s =
     fold (\<lambda>(nm, c) t. case objects t c of None \<Rightarrow> t | Some i \<Rightarrow> run_in_loop cur (conn_loop i) (Destroy c) t) (connections s) s"

section \<open>Interleavings\<close>

text \<open>
  The main loop accepts, any loop runs the oldest functor in its queue, and any established connection may close in its loop.
\<close>

inductive server_step :: "(string \<Rightarrow> nat) \<Rightarrow> 'l server \<Rightarrow> 'l server \<Rightarrow> bool" for hf where
  accept: "Acceptor_handleRead rc addr (a :: conn_event acceptor) = Handed_over sfd peer \<Longrightarrow> newConnection hf sfd peer s = Inr s' \<Longrightarrow> server_step hf s s'"
| run: "queues s l = f # fs \<Longrightarrow> server_step hf s (exec_functor f (s\<lparr>queues := (queues s)(l := fs)\<rparr>))"
| close: "objects s c = Some i \<Longrightarrow> phases s c = Established \<Longrightarrow> server_step hf s (connection_closed c s)"

inductive_cases server_stepE: "server_step hf s t"

definition loop_of :: "'l server \<Rightarrow> nat \<Rightarrow> 'l option" where
  "loop_of s c = map_option conn_loop (objects s c)"

text \<open>The functors that should be waiting: exactly one for each connection between two stages, in the right loop.\<close>

fun due :: "'l server \<Rightarrow> 'l \<Rightarrow> server_functor \<Rightarrow> bool" where
  "due s l Listen = False"
| "due s l (Establish c) = (phases s c = Connecting \<and> loop_of s c = Some l)"
| "due s l (RemoveInLoop c) = (phases s c = Closing \<and> objects s c \<noteq> None \<and> l = base_loop s)"
| "due s l (Destroy c) = (phases s c = Removed \<and> loop_of s c = Some l)"

text \<open>\<open>hand\<close> is a functor of a loop that has been taken from its queue and has not run, or has not been queued yet.\<close>

definition waiting_ok :: "'l server \<Rightarrow> ('l \<times> server_functor) option \<Rightarrow> bool" where
  "waiting_ok s hand \<longleftrightarrow> (\<forall>l f. f \<noteq> Listen \<longrightarrow> count_list (queues s l) f + (if hand = Some (l, f) then 1 else 0) = (if due s l f then 1 else 0))"

definition open_phase :: "phase \<Rightarrow> bool" where
  "open_phase p \<longleftrightarrow> p = Connecting \<or> p = Established \<or> p = Closing"

definition map_ok :: "'l server \<Rightarrow> bool" where
  "map_ok s \<longleftrightarrow> length (ipPort s) \<le> 21 \<and> nextConnId s = int (next_object s) + 1 \<and> nextConnId s < 2 ^ 31 \<and>
     (\<forall>c i. objects s c = Some i \<longrightarrow> c < next_object s \<and> conn_name i = connName s (int c + 1)) \<and>
     distinct (map fst (connections s)) \<and>
     (\<forall>nm c. (nm, c) \<in> set (connections s) \<longleftrightarrow> (\<exists>i. objects s c = Some i \<and> conn_name i = nm \<and> open_phase (phases s c)))"

lemma map_okD:
  assumes "map_ok s" and "objects s c = Some i"
  shows "c < next_object s" and "conn_name i = connName s (int c + 1)" and "int c + 1 < 2 ^ 31"
proof -
  show "c < next_object s" and "conn_name i = connName s (int c + 1)" using assms unfolding map_ok_def by blast+
  then show "int c + 1 < 2 ^ 31" using assms(1) by (simp add: map_ok_def)
qed

lemma map_ok_entry: "map_ok s \<Longrightarrow> (nm, c) \<in> set (connections s) \<longleftrightarrow> (\<exists>i. objects s c = Some i \<and> conn_name i = nm \<and> open_phase (phases s c))"
  unfolding map_ok_def by blast

lemma count_list_snoc [simp]: "count_list (xs @ [x]) y = count_list xs y + (if x = y then 1 else 0)"
  by simp

lemma hand_due:
  assumes "waiting_ok s (Some (l, f))" and "f \<noteq> Listen"
  shows "due s l f"
proof (rule ccontr)
  assume "\<not> due s l f"
  moreover have "count_list (queues s l) f + (if Some (l, f) = Some (l, f) then 1 else 0) = (if due s l f then 1 else 0)"
    using assms unfolding waiting_ok_def by blast
  ultimately show False by simp
qed

lemma post_ok:
  assumes "waiting_ok s (Some (l, f))"
  shows "waiting_ok (post l f s) None" and "map_ok (post l f s) = map_ok s"
proof -
  have "due (post l f s) = due s"
  proof (intro ext)
    fix l' f'
    show "due (post l f s) l' f' = due s l' f'" by (cases f') (simp_all add: post_def loop_of_def)
  qed
  moreover have "count_list (queues (post l f s) l') g + 0 = count_list (queues s l') g + (if Some (l, f) = Some (l', g) then 1 else 0)" for l' g
    by (cases "l = l'") (simp_all add: post_def)
  ultimately show "waiting_ok (post l f s) None" using assms unfolding waiting_ok_def by simp
  show "map_ok (post l f s) = map_ok s" by (simp add: map_ok_def post_def connName_def)
qed

text \<open>A stage that only one connection changes.\<close>

lemma due_phase:
  assumes "s' = s\<lparr>phases := (phases s)(c := p)\<rparr>" and "f \<notin> {Establish c, RemoveInLoop c, Destroy c}"
  shows "due s' l f = due s l f"
  using assms by (cases f) (auto simp: loop_of_def)

lemma no_count:
  assumes "waiting_ok s hand" and "f \<noteq> Listen" and "\<not> due s l f"
  shows "count_list (queues s l) f = 0" and "hand \<noteq> Some (l, f)"
  using assms unfolding waiting_ok_def by (metis add_is_0 zero_neq_one)+

text \<open>
  The stage of \<open>c\<close> changes from one in which the functor in hand was due to one in which at most the functor \<open>g\<close> in loop \<open>l'\<close> is; \<open>g\<close> becomes the
  functor in hand.
\<close>

lemma advance:
  assumes w: "waiting_ok s (Some (l, f))" and fc: "f \<in> {Establish c, RemoveInLoop c, Destroy c}"
    and only: "\<And>l'' f''. f'' \<in> {Establish c, RemoveInLoop c, Destroy c} \<Longrightarrow> due s l'' f'' \<Longrightarrow> (l'', f'') = (l, f)"
    and s': "s' = s\<lparr>phases := (phases s)(c := p), connections := cs\<rparr>"
    and next_due: "\<And>l'' f''. f'' \<in> {Establish c, RemoveInLoop c, Destroy c} \<Longrightarrow> due s' l'' f'' \<longleftrightarrow> hand' = Some (l'', f'')"
    and h: "\<And>l'' f''. hand' = Some (l'', f'') \<Longrightarrow> f'' \<in> {Establish c, RemoveInLoop c, Destroy c}"
  shows "waiting_ok s' hand'"
  unfolding waiting_ok_def
proof (intro allI impI)
  fix l'' f'' assume nl: "f'' \<noteq> Listen"
  have q: "queues s' = queues s" using s' by simp
  show "count_list (queues s' l'') f'' + (if hand' = Some (l'', f'') then 1 else 0) = (if due s' l'' f'' then 1 else 0)"
  proof (cases "f'' \<in> {Establish c, RemoveInLoop c, Destroy c}")
    case True
    have "count_list (queues s l'') f'' + (if Some (l, f) = Some (l'', f'') then 1 else 0) = (if due s l'' f'' then 1 else 0)"
      using w nl unfolding waiting_ok_def by blast
    then have "count_list (queues s l'') f'' = 0" using only [OF True, of l''] by (auto split: if_splits)
    then show ?thesis using next_due [OF True, of l''] q by simp
  next
    case False
    have "due s' l'' f'' = due s l'' f''" using False s' by (cases f'') (auto simp: loop_of_def)
    moreover have "hand' \<noteq> Some (l'', f'')" using h False by blast
    moreover have "(l, f) \<noteq> (l'', f'')" using fc False by auto
    moreover have "count_list (queues s l'') f'' + (if Some (l, f) = Some (l'', f'') then 1 else 0) = (if due s l'' f'' then 1 else 0)"
      using w nl unfolding waiting_ok_def by blast
    ultimately show ?thesis using q by (auto split: if_splits)
  qed
qed

lemma map_ok_phase:
  assumes "map_ok s" and "open_phase p = open_phase (phases s c)"
  shows "map_ok (s\<lparr>phases := (phases s)(c := p)\<rparr>)"
proof -
  have "open_phase (if x = c then p else phases s x) = open_phase (phases s x)" for x using assms(2) by simp
  then show ?thesis using assms(1) by (simp add: map_ok_def connName_def)
qed

lemma connName_inj:
  assumes "length (ipPort s) \<le> 21" and "1 \<le> j" and "j < 2 ^ 31" and "1 \<le> k" and "k < 2 ^ 31" and "connName s j = connName s k"
  shows "j = k"
proof -
  have len: "length (dec_int x) \<le> 10" if "1 \<le> x" "x < 2 ^ 31" for x :: int
  proof -
    have "nat x < 10 ^ 10" using that by simp
    then show ?thesis using that dec_nat_length [of "nat x" 10] by (simp add: dec_int_def)
  qed
  have "take 63 (''-'' @ ipPort s @ ''#'' @ dec_int x) = ''-'' @ ipPort s @ ''#'' @ dec_int x" if "1 \<le> x" "x < 2 ^ 31" for x
    using len [OF that] assms(1) by simp
  then have "dec_int j = dec_int k" using assms by (simp add: connName_def)
  then show ?thesis by (metis parse_dec_int)
qed

text \<open>Erasing the name of one connection erases no other: the names are different.\<close>

lemma removal_ok:
  assumes m: "map_ok s" and i: "objects s c = Some i"
  shows "map_ok (s\<lparr>phases := (phases s)(c := Removed), connections := AList.delete (conn_name i) (connections s)\<rparr>)" (is "map_ok ?t")
proof -
  have nm: "conn_name j = connName s (int d + 1)" "int d + 1 < 2 ^ 31" if "objects s d = Some j" for d j
    using map_okD [OF m that] by simp_all
  have other: "conn_name j = conn_name i \<longleftrightarrow> d = c" if "objects s d = Some j" for d j
  proof
    assume "conn_name j = conn_name i"
    then have "connName s (int d + 1) = connName s (int c + 1)" using nm(1) that i by metis
    then show "d = c" using connName_inj [of s "int d + 1" "int c + 1"] nm(2) [OF that] nm(2) [OF i] m by (simp add: map_ok_def)
  qed (use that i in simp)
  have "(n, d) \<in> set (AList.delete (conn_name i) (connections s)) \<longleftrightarrow>
      (\<exists>j. objects s d = Some j \<and> conn_name j = n \<and> open_phase (if d = c then Removed else phases s d))" for n d
  proof -
    have "(n, d) \<in> set (AList.delete (conn_name i) (connections s)) \<longleftrightarrow> (n, d) \<in> set (connections s) \<and> n \<noteq> conn_name i"
      by (auto simp: AList.delete_eq)
    also have "\<dots> \<longleftrightarrow> (\<exists>j. objects s d = Some j \<and> conn_name j = n \<and> open_phase (phases s d)) \<and> n \<noteq> conn_name i"
      using m unfolding map_ok_def by blast
    also have "\<dots> \<longleftrightarrow> (\<exists>j. objects s d = Some j \<and> conn_name j = n \<and> open_phase (if d = c then Removed else phases s d))"
      using other by (auto simp: open_phase_def)
    finally show ?thesis .
  qed
  then show ?thesis using m by (simp add: map_ok_def connName_def AList.distinct_delete)
qed

lemma exec_ok:
  assumes w: "waiting_ok s (Some (l, f))" and m: "map_ok s" and f: "f \<noteq> Listen"
  shows "waiting_ok (exec_functor f s) None \<and> map_ok (exec_functor f s)"
proof -
  have d: "due s l f" using hand_due [OF w f] .
  show ?thesis
  proof (cases f)
    case (Establish c)
    then have p: "phases s c = Connecting" using d by simp
    have "waiting_ok (s\<lparr>phases := (phases s)(c := Established), connections := connections s\<rparr>) None"
    proof (rule advance [OF w _ _ refl])
      show "f \<in> {Establish c, RemoveInLoop c, Destroy c}" using Establish by simp
      show "(l'', f'') = (l, f)" if "f'' \<in> {Establish c, RemoveInLoop c, Destroy c}" "due s l'' f''" for l'' f''
        using that p d Establish by auto
    qed auto
    moreover have "map_ok (s\<lparr>phases := (phases s)(c := Established)\<rparr>)" using map_ok_phase [OF m, of Established c] p by (simp add: open_phase_def)
    ultimately show ?thesis using Establish by simp
  next
    case (RemoveInLoop c)
    then obtain i where p: "phases s c = Closing" "objects s c = Some i" "l = base_loop s" using d by auto
    let ?t = "s\<lparr>phases := (phases s)(c := Removed), connections := AList.delete (conn_name i) (connections s)\<rparr>"
    have "waiting_ok ?t (Some (conn_loop i, Destroy c))"
    proof (rule advance [OF w _ _ refl])
      show "f \<in> {Establish c, RemoveInLoop c, Destroy c}" using RemoveInLoop by simp
      show "(l'', f'') = (l, f)" if "f'' \<in> {Establish c, RemoveInLoop c, Destroy c}" "due s l'' f''" for l'' f''
        using that p RemoveInLoop by auto
    qed (use p in \<open>auto simp: loop_of_def\<close>)
    moreover have "map_ok ?t" using removal_ok [OF m p(2)] by simp
    ultimately show ?thesis using post_ok [of ?t "conn_loop i" "Destroy c"] RemoveInLoop p(2) by (simp add: removeConnectionInLoop_def)
  next
    case (Destroy c)
    then have p: "phases s c = Removed" using d by simp
    have "waiting_ok (s\<lparr>phases := (phases s)(c := Destroyed), connections := connections s\<rparr>) None"
    proof (rule advance [OF w _ _ refl])
      show "f \<in> {Establish c, RemoveInLoop c, Destroy c}" using Destroy by simp
      show "(l'', f'') = (l, f)" if "f'' \<in> {Establish c, RemoveInLoop c, Destroy c}" "due s l'' f''" for l'' f''
        using that p d Destroy by auto
    qed auto
    moreover have "map_ok (s\<lparr>phases := (phases s)(c := Destroyed)\<rparr>)" using map_ok_phase [OF m, of Destroyed c] p by (simp add: open_phase_def)
    ultimately show ?thesis using Destroy by simp
  qed (use f in simp)
qed

lemma run_in_loop_ok:
  assumes "waiting_ok s (Some (dest, f))" and "map_ok s" and "f \<noteq> Listen"
  shows "waiting_ok (run_in_loop cur dest f s) None \<and> map_ok (run_in_loop cur dest f s)"
  using exec_ok [OF assms] post_ok [OF assms(1)] assms(2) by (simp add: run_in_loop_def)

lemma update_absent: "k \<notin> fst ` set al \<Longrightarrow> AList.update k v al = al @ [(k, v)]"
  by (induction al) auto

text \<open>A new connection is in the map, and the functor that establishes it is in hand.\<close>

lemma register_ok:
  assumes w: "waiting_ok s None" and m: "map_ok s" and room: "nextConnId s \<noteq> 2 ^ 31 - 1" and s1_def: "s1 = register_connection l sfd s"
  shows "waiting_ok s1 (Some (l, Establish (next_object s)))" and "map_ok s1"
proof -
  let ?c = "next_object s"
  let ?nm = "connName s (nextConnId s)"
  note s1_def = s1_def [unfolded register_connection_def Let_def]
  have free: "objects s ?c = None" using map_okD(1) [OF m, of ?c] by (cases "objects s ?c") simp_all
  have id: "nextConnId s = int ?c + 1" "nextConnId s < 2 ^ 31" "length (ipPort s) \<le> 21" using m by (simp_all add: map_ok_def)
  show "waiting_ok s1 (Some (l, Establish ?c))"
    unfolding waiting_ok_def
  proof (intro allI impI)
    fix l' f assume "f \<noteq> Listen"
    then have old: "count_list (queues s l') f = (if due s l' f then 1 else 0)" using w unfolding waiting_ok_def by auto
    have "due s1 l' f = (if f \<in> {Establish ?c, RemoveInLoop ?c, Destroy ?c} then l' = l \<and> f = Establish ?c else due s l' f)"
      by (cases f) (auto simp: s1_def loop_of_def)
    moreover have "f \<in> {Establish ?c, RemoveInLoop ?c, Destroy ?c} \<Longrightarrow> \<not> due s l' f" using free by (auto simp: loop_of_def)
    ultimately show "count_list (queues s1 l') f + (if Some (l, Establish ?c) = Some (l', f) then 1 else 0) = (if due s1 l' f then 1 else 0)"
      using old by (auto simp: s1_def)
  qed
  show "map_ok s1"
  proof -
    have fresh: "?nm \<notin> fst ` set (connections s)"
    proof
      assume "?nm \<in> fst ` set (connections s)"
      then obtain d where "(?nm, d) \<in> set (connections s)" by force
      then obtain j where d: "objects s d = Some j" "conn_name j = ?nm" using map_ok_entry [OF m] by blast
      then have "connName s (int d + 1) = connName s (int ?c + 1)" "d < ?c" using map_okD [OF m d(1)] id(1) by simp_all
      then show False using connName_inj [of s "int d + 1" "int ?c + 1"] id by simp
    qed
    then have upd: "AList.update ?nm ?c (connections s) = connections s @ [(?nm, ?c)]"
      by (rule update_absent)
    have "(n, d) \<in> set (connections s1) \<longleftrightarrow> (\<exists>i. objects s1 d = Some i \<and> conn_name i = n \<and> open_phase (phases s1 d))" for n d
    proof (cases "d = ?c")
      case True
      have "(n, ?c) \<notin> set (connections s)" using map_ok_entry [OF m] free by simp
      then show ?thesis using True upd by (auto simp: s1_def open_phase_def)
    next
      case False
      have "(n, d) \<in> set (connections s) \<longleftrightarrow> (\<exists>i. objects s d = Some i \<and> conn_name i = n \<and> open_phase (phases s d))" using map_ok_entry [OF m] .
      then show ?thesis using False upd by (simp add: s1_def)
    qed
    moreover have "distinct (map fst (connections s1))" using m upd fresh by (simp add: map_ok_def s1_def)
    moreover have "d < next_object s1 \<and> conn_name i = connName s1 (int d + 1)" if "objects s1 d = Some i" for d i
    proof (cases "d = ?c")
      case True
      then show ?thesis using that id(1) by (auto simp: s1_def connName_def)
    next
      case False
      then have "objects s d = Some i" using that by (simp add: s1_def)
      from map_okD [OF m this] show ?thesis by (simp add: s1_def connName_def)
    qed
    ultimately show ?thesis using id room unfolding map_ok_def by (simp add: s1_def)
  qed
qed

lemma newConnection_ok:
  assumes w: "waiting_ok s None" and m: "map_ok s" and new: "newConnection hf sfd peer s = Inr s'"
  shows "waiting_ok s' None \<and> map_ok s'"
proof -
  obtain l where l: "nextConnId s \<noteq> 2 ^ 31 - 1" "s' = run_in_loop (base_loop s) l (Establish (next_object s)) (register_connection l sfd s)"
    using new by (auto simp: newConnection_def split: if_splits)
  show ?thesis unfolding l(2) using register_ok [OF w m l(1) refl] by (intro run_in_loop_ok) simp_all
qed

lemma closing_ok:
  assumes w: "waiting_ok s None" and m: "map_ok s" and c: "objects s c = Some i" "phases s c = Established"
    and t: "t = s\<lparr>phases := (phases s)(c := Closing)\<rparr>"
  shows "waiting_ok t (Some (base_loop s, RemoveInLoop c))" and "map_ok t"
proof -
  show "waiting_ok t (Some (base_loop s, RemoveInLoop c))"
    unfolding waiting_ok_def
  proof (intro allI impI)
    fix l f assume "f \<noteq> Listen"
    then have old: "count_list (queues s l) f = (if due s l f then 1 else 0)" using w unfolding waiting_ok_def by auto
    have "due t l f = (if f \<in> {Establish c, RemoveInLoop c, Destroy c} then l = base_loop s \<and> f = RemoveInLoop c else due s l f)"
      using c t by (cases f) (auto simp: loop_of_def)
    moreover have "f \<in> {Establish c, RemoveInLoop c, Destroy c} \<Longrightarrow> \<not> due s l f" using c by auto
    ultimately show "count_list (queues t l) f + (if Some (base_loop s, RemoveInLoop c) = Some (l, f) then 1 else 0) = (if due t l f then 1 else 0)"
      using old t by auto
  qed
  show "map_ok t" unfolding t using map_ok_phase [OF m, of Closing c] c(2) by (simp add: open_phase_def)
qed

lemma closed_ok:
  assumes "waiting_ok s None" and "map_ok s" and c: "objects s c = Some i" "phases s c = Established"
  shows "waiting_ok (connection_closed c s) None \<and> map_ok (connection_closed c s)"
proof -
  let ?t = "s\<lparr>phases := (phases s)(c := Closing)\<rparr>"
  have "waiting_ok (run_in_loop (conn_loop i) (base_loop s) (RemoveInLoop c) ?t) None \<and> map_ok (run_in_loop (conn_loop i) (base_loop s) (RemoveInLoop c) ?t)"
    using closing_ok [OF assms refl] by (intro run_in_loop_ok) simp_all
  then show ?thesis using c(1) by (simp add: connection_closed_def removeConnection_def)
qed

text \<open>A functor taken from its queue is in hand.\<close>

lemma popped_ok:
  assumes w: "waiting_ok s None" and m: "map_ok s" and q: "queues s l = f # fs" and t_def: "t = s\<lparr>queues := (queues s)(l := fs)\<rparr>"
  shows "f \<noteq> Listen \<Longrightarrow> waiting_ok t (Some (l, f))" and "f = Listen \<Longrightarrow> waiting_ok t None" and "map_ok t"
proof -
  have d: "due t = due s"
  proof (intro ext)
    fix l' f' show "due t l' f' = due s l' f'" unfolding t_def by (cases f') (simp_all add: loop_of_def)
  qed
  show "map_ok t" using m by (simp add: map_ok_def connName_def t_def)
  have cnt: "count_list (queues s l') g = count_list (queues t l') g + (if Some (l, f) = Some (l', g) then 1 else 0)" for l' g
    using q t_def by (cases "l' = l") auto
  have old: "count_list (queues s l') g = (if due s l' g then 1 else 0)" if "g \<noteq> Listen" for l' g using w that unfolding waiting_ok_def by auto
  show "waiting_ok t (Some (l, f))" if "f \<noteq> Listen"
    unfolding waiting_ok_def
  proof (intro allI impI)
    fix l' g assume "g \<noteq> Listen"
    then show "count_list (queues t l') g + (if Some (l, f) = Some (l', g) then 1 else 0) = (if due t l' g then 1 else 0)"
      using old cnt [of l' g] d by simp
  qed
  show "waiting_ok t None" if "f = Listen"
    unfolding waiting_ok_def
  proof (intro allI impI)
    fix l' g assume "g \<noteq> Listen"
    then show "count_list (queues t l') g + (if None = Some (l', g) then 1 else 0) = (if due t l' g then 1 else 0)"
      using old cnt [of l' g] d that by simp
  qed
qed

lemma pop_functor_ok:
  assumes w: "waiting_ok s None" and m: "map_ok s" and q: "queues s l = f # fs"
  shows "waiting_ok (exec_functor f (s\<lparr>queues := (queues s)(l := fs)\<rparr>)) None \<and> map_ok (exec_functor f (s\<lparr>queues := (queues s)(l := fs)\<rparr>))"
proof -
  let ?t = "s\<lparr>queues := (queues s)(l := fs)\<rparr>"
  note t = popped_ok [OF w m q refl]
  show ?thesis
  proof (cases "f = Listen")
    case True
    have "due (exec_functor Listen ?t) = due ?t"
    proof (intro ext)
      fix l' f' show "due (exec_functor Listen ?t) l' f' = due ?t l' f'" by (cases f') (simp_all add: loop_of_def)
    qed
    then have "waiting_ok (exec_functor Listen ?t) None" using t(2) [OF True] unfolding waiting_ok_def by simp
    then show ?thesis using True t(3) by (simp add: map_ok_def connName_def)
  next
    case False
    from exec_ok [OF t(1) [OF False] t(3) False] show ?thesis .
  qed
qed

lemma server_step_ok:
  assumes "server_step hf s t" and "waiting_ok s None \<and> map_ok s"
  shows "waiting_ok t None \<and> map_ok t"
  using assms(1)
proof (cases rule: server_step.cases)
  case (accept rc addr a sfd peer)
  from newConnection_ok [OF _ _ accept(2)] assms(2) show ?thesis by simp
next
  case (run l f fs)
  from pop_functor_ok [OF _ _ run(2)] assms(2) show ?thesis unfolding run(1) by simp
next
  case (close c i)
  from closed_ok [OF _ _ close(2,3)] assms(2) show ?thesis unfolding close(1) by simp
qed

section \<open>A started server\<close>

definition started_server :: "(string \<Rightarrow> nat) \<Rightarrow> (string \<Rightarrow> 'l) \<Rightarrow> int \<Rightarrow> 'l \<Rightarrow> sockaddr_in \<Rightarrow> string \<Rightarrow> 'l server \<Rightarrow> bool" where
  "started_server hf startLoop n l addr nm s \<longleftrightarrow>
     (\<exists>s0. TcpServer (Some l) addr nm = Inr s0 \<and> s = TcpServer_start hf startLoop False l (TcpServer_setThreadNum n s0))"

lemma started_ok:
  assumes "started_server hf startLoop n l addr nm s"
  shows "waiting_ok s None \<and> map_ok s"
proof -
  obtain s0 where s0: "TcpServer (Some l) addr nm = Inr s0" "s = TcpServer_start hf startLoop False l (TcpServer_setThreadNum n s0)"
    using assms by (auto simp: started_server_def)
  have "length (ipPort s0) \<le> 21" using s0(1) toIpPort_length [of addr] by (auto simp: TcpServer_def CheckLoopNotNull_def toIpPort_def Let_def split: if_splits)
  moreover have "nextConnId s0 = 1" "connections s0 = []" "objects s0 = Map.empty" "next_object s0 = 0" "queues s0 = (\<lambda>_. [])"
    using s0(1) by (auto simp: TcpServer_def CheckLoopNotNull_def)
  ultimately have s: "length (ipPort s) \<le> 21" "nextConnId s = 1" "connections s = []" "objects s = Map.empty" "next_object s = 0"
    "\<And>l f. f \<noteq> Listen \<Longrightarrow> count_list (queues s l) f = 0"
    by (auto simp: s0(2) TcpServer_setThreadNum_def TcpServer_start_def run_in_loop_def post_def Let_def)
  have "\<not> due s l' f" for l' f using s(4) by (cases f) (simp_all add: loop_of_def)
  then show ?thesis using s by (simp add: waiting_ok_def map_ok_def)
qed

text \<open>
  C10: In every interleaving of the main loop, the loops of the pool and closing connections: a functor that reaches the head of a loop's
  queue finds its connection in exactly the stage it is made for, and waits once only; so each connection is established once, then
  removed from the map once in the main loop, then destroyed once in its own loop. The map of the server holds exactly the connections that are
  not yet removed, under different names, and no closed connection is forgotten: its removal, then its destruction, is waiting.
\<close>

theorem server_functors_in_order:
  assumes "reach (started_server hf startLoop n base addr nm) (server_step hf) s"
  shows "(\<forall>l f fs. queues s l = f # fs \<and> f \<noteq> Listen \<longrightarrow> due s l f \<and> f \<notin> set fs) \<and>
    distinct (map fst (connections s)) \<and>
    (\<forall>c i. objects s c = Some i \<longrightarrow>
       ((conn_name i, c) \<in> set (connections s) \<longleftrightarrow> open_phase (phases s c)) \<and>
       (phases s c = Closing \<longrightarrow> RemoveInLoop c \<in> set (queues s (base_loop s))) \<and>
       (phases s c = Removed \<longrightarrow> Destroy c \<in> set (queues s (conn_loop i))))"
proof -
  have "waiting_ok s None \<and> map_ok s"
    using assms
  proof (rule reach_invariant)
    show "waiting_ok t None \<and> map_ok t" if "started_server hf startLoop n base addr nm t" for t using started_ok [OF that] .
    show "waiting_ok u None \<and> map_ok u" if "waiting_ok t None \<and> map_ok t" "server_step hf t u" for t u using server_step_ok [OF that(2,1)] .
  qed
  then have w: "\<And>l f. f \<noteq> Listen \<Longrightarrow> count_list (queues s l) f = (if due s l f then 1 else 0)" and m: "map_ok s"
    unfolding waiting_ok_def by auto
  have "due s l f \<and> f \<notin> set fs" if "queues s l = f # fs" "f \<noteq> Listen" for l f fs
    using w [OF that(2), of l] that(1) by (auto simp: count_list_0_iff split: if_splits)
  moreover have "f \<in> set (queues s l)" if "due s l f" for l f
  proof -
    have "f \<noteq> Listen" using that by auto
    then show ?thesis using w [of f l] that by (metis count_list_0_iff zero_neq_one)
  qed
  ultimately show ?thesis using m map_ok_entry [OF m] by (auto simp: map_ok_def loop_of_def)
qed

text \<open>One accepted connection of a server with three threads whose hash sends it to the second.\<close>

lemma sample_server_started:
  "\<exists>s. started_server (\<lambda>x. 1) id 3 ''main'' sample_addr ''Echo'' s \<and> nextConnId s = 1 \<and>
     thread_pool s = snd (pool_start (\<lambda>x. 1) id False (setThreadNum (int 3) (EventLoopThreadPool ''main'' ''Echo'')))"
  using toIpPort_length [of sample_addr]
  by (auto simp: started_server_def TcpServer_def CheckLoopNotNull_def toIpPort_def TcpServer_setThreadNum_def TcpServer_start_def run_in_loop_def Let_def)

theorem server_functors_in_order_witness:
  "\<exists>s s'. started_server (\<lambda>x. 1) id 3 ''main'' sample_addr ''Echo'' s \<and> newConnection (\<lambda>x. 1) 9 sample_addr s = Inr s' \<and>
     distinct (map fst (connections s'))"
proof -
  obtain s where s: "started_server (\<lambda>x. 1) id 3 ''main'' sample_addr ''Echo'' s" "nextConnId s = 1"
    "thread_pool s = snd (pool_start (\<lambda>x. 1) id False (setThreadNum (int 3) (EventLoopThreadPool ''main'' ''Echo'')))"
    using sample_server_started by blast
  obtain l where "getNextLoop (\<lambda>x. 1) (toIp sample_addr) (thread_pool s) = Inr l" using pool_choice [OF _ s(3)] by auto
  then obtain s' where s': "newConnection (\<lambda>x. 1) 9 sample_addr s = Inr s'" using s(2) by (simp add: newConnection_def Let_def)
  let ?a = "setNewConnectionCallback \<lparr>acceptSocket = Socket 3, acceptChannel = 1, acc_reactor = sample_reactor0, hasNewConnectionCallback = False, listenning = True\<rparr>"
  have "Acceptor_handleRead 9 sample_addr ?a = Handed_over 9 sample_addr" by (simp add: Acceptor_handleRead_def Socket_accept_def setNewConnectionCallback_def)
  from server_step.accept [OF this s'] have "server_step (\<lambda>x. 1) s s'" .
  with reach_init [of "started_server (\<lambda>x. 1) id 3 ''main'' sample_addr ''Echo''" s] s(1)
  have "reach (started_server (\<lambda>x. 1) id 3 ''main'' sample_addr ''Echo'') (server_step (\<lambda>x. 1)) s'" by (blast intro: reach_step)
  from server_functors_in_order [OF this] s(1) s' show ?thesis by blast
qed

text \<open>However often and from whichever threads \<open>start\<close> is called, the acceptor is told to listen once.\<close>

lemma start_again:
  assumes "0 < start_count s"
  shows "listen_count (fold (TcpServer_start hf startLoop cb) curs s) = listen_count s \<and> queues (fold (TcpServer_start hf startLoop cb) curs s) = queues s"
  using assms by (induction curs arbitrary: s) (simp_all add: TcpServer_start_def Let_def)

lemma server_listens_once:
  assumes "TcpServer (Some l) addr nm = Inr s" and t_def: "t = fold (TcpServer_start hf startLoop cb) (cur # curs) s"
  shows "listen_count t + count_list (queues t l) Listen = 1"
proof -
  let ?s = "TcpServer_start hf startLoop cb cur s"
  have s: "start_count s = 0" "base_loop s = l" "queues s = (\<lambda>_. [])" "listen_count s = 0" using assms(1) by (auto simp: TcpServer_def CheckLoopNotNull_def)
  then have "0 < start_count ?s" "listen_count ?s + count_list (queues ?s l) Listen = 1"
    by (auto simp: TcpServer_start_def Let_def run_in_loop_def post_def)
  then show ?thesis unfolding t_def using start_again [of ?s hf startLoop cb curs] by simp
qed

section \<open>The destructor\<close>

definition destroy_entry :: "'l \<Rightarrow> string \<times> nat \<Rightarrow> 'l server \<Rightarrow> 'l server" where
  "destroy_entry cur = (\<lambda>(nm, c) t. case objects t c of None \<Rightarrow> t | Some i \<Rightarrow> run_in_loop cur (conn_loop i) (Destroy c) t)"

lemma TcpServer_dtor_entries: "TcpServer_dtor cur s = fold (destroy_entry cur) (connections s) s"
  by (simp add: TcpServer_dtor_def destroy_entry_def)

lemma destroy_entry_keeps:
  "objects (destroy_entry cur x s) = objects s" "set (queues s l) \<subseteq> set (queues (destroy_entry cur x s) l)"
  "phases s c = Destroyed \<Longrightarrow> phases (destroy_entry cur x s) c = Destroyed"
  by (cases x; auto simp: destroy_entry_def run_in_loop_def post_def split: option.split)+

lemma destroy_entries_keep:
  "objects (fold (destroy_entry cur) xs s) = objects s" "set (queues s l) \<subseteq> set (queues (fold (destroy_entry cur) xs s) l)"
  "phases s c = Destroyed \<Longrightarrow> phases (fold (destroy_entry cur) xs s) c = Destroyed"
proof (induction xs arbitrary: s)
  case (Cons x xs)
  { case 1 show ?case using Cons.IH(1) by (simp add: destroy_entry_keeps) }
  { case 2 show ?case using Cons.IH(2) [of "destroy_entry cur x s"] destroy_entry_keeps(2) [of s l cur x] by simp }
  { case 3 then show ?case using Cons.IH(3) by (simp add: destroy_entry_keeps) }
qed simp_all

text \<open>
  The destructor of the server destroys every connection that is still in the map, at once in its own thread and through the queue of the
  connection's loop otherwise. It leaves what waits in the loops: the removal of a connection that was closing, bound to the server itself, runs after
  the server is gone.
\<close>

lemma server_dtor_destroys:
  assumes "(nm, c) \<in> set (connections s)" and "objects s c = Some i"
  shows "Destroy c \<in> set (queues (TcpServer_dtor cur s) (conn_loop i)) \<or> phases (TcpServer_dtor cur s) c = Destroyed"
proof -
  obtain xs ys where xs: "connections s = xs @ (nm, c) # ys" using assms(1) by (meson split_list)
  let ?t = "fold (destroy_entry cur) xs s"
  have "objects ?t c = Some i" using assms(2) by (simp add: destroy_entries_keep)
  then have "Destroy c \<in> set (queues (destroy_entry cur (nm, c) ?t) (conn_loop i)) \<or> phases (destroy_entry cur (nm, c) ?t) c = Destroyed"
    by (simp add: destroy_entry_def run_in_loop_def post_def)
  then show ?thesis using destroy_entries_keep(2) [of "destroy_entry cur (nm, c) ?t" "conn_loop i" cur ys] destroy_entries_keep(3) [of "destroy_entry cur (nm, c) ?t" c cur ys]
    by (auto simp: TcpServer_dtor_entries xs)
qed

lemma server_dtor_leaves_removals: "RemoveInLoop c \<in> set (queues s l) \<Longrightarrow> RemoveInLoop c \<in> set (queues (TcpServer_dtor cur s) l)"
  using destroy_entries_keep(2) by (fastforce simp: TcpServer_dtor_entries)

section \<open>The echo server\<close>

definition EchoServer_onConnection :: "tcp_conn \<Rightarrow> tcp_conn result" where
  "EchoServer_onConnection s = Inr s"

definition EchoServer_onMessage :: "(nat \<Rightarrow> int) \<Rightarrow> (string \<Rightarrow> int + nat) \<Rightarrow> int \<Rightarrow> tcp_conn \<Rightarrow> tcp_conn result" where
  "EchoServer_onMessage ret wr receiveTime s =
     bind_result (retrieveAllAsString (inputBuffer s)) (\<lambda>(msg, b). TcpConnection_send ret wr msg (s\<lparr>inputBuffer := b\<rparr>))"

lemma take_all: "buffer_ok b \<Longrightarrow> \<exists>b'. retrieveAllAsString b = Inr (content b, b') \<and> buffer_ok b' \<and> content b' = []"
  using retrieveAsString_takes_front [of b "length (content b)"] by auto

lemma conn_ok_input: "conn_ok s \<Longrightarrow> buffer_ok b \<Longrightarrow> conn_ok (s\<lparr>inputBuffer := b\<rparr>)"
  by (simp add: conn_ok_def writing_def)

lemma echo_ok:
  assumes ok: "conn_ok s" and up: "cstate s = kConnected \<or> cstate s = kDisconnecting" and acc: "epoll_accepts ret" and wr: "write_contract wr"
    and rd: "readv_contract readv" and data: "readv (read_iov (inputBuffer s)) = Inr data" "data \<noteq> []"
    and room: "length (storage (inputBuffer s)) + extrabuf_size \<le> vec_max_size"
    and fits: "length (content (inputBuffer s) @ data) \<le> vec_max_size - writerIndex (outputBuffer s)"
    and alive: "\<not> broken (wr (content (inputBuffer s) @ data))"
  shows "\<exists>b s'. handleRead ret readv (EchoServer_onMessage ret wr) onConnection t s = Inr s' \<and>
    TcpConnection_send ret wr (content (inputBuffer s) @ data) (s\<lparr>inputBuffer := b\<rparr>) = Inr s' \<and>
    stream s' = stream s @ (if cstate s = kConnected then content (inputBuffer s) @ data else []) \<and>
    content (inputBuffer s') = [] \<and> conn_ok s' \<and> cstate s' = cstate s"
proof -
  let ?d = "content (inputBuffer s) @ data"
  have bok: "buffer_ok (inputBuffer s)" using ok by (simp add: conn_ok_def)
  obtain b where b: "readFd readv (inputBuffer s) = Inr (Inr (length data), b)" "buffer_ok b" "content b = ?d"
    using readFd_ok [OF bok rd room data(1)] .
  obtain b' where b': "retrieveAllAsString b = Inr (?d, b')" "buffer_ok b'" "content b' = []"
    using take_all [OF b(2)] b(3) by auto
  let ?s = "s\<lparr>inputBuffer := b'\<rparr>"
  have ok': "conn_ok ?s" using conn_ok_input [OF ok b'(2)] .
  have read: "handleRead ret readv (EchoServer_onMessage ret wr) onConnection t s = TcpConnection_send ret wr ?d ?s"
    using b(1) b'(1) data(2) by (simp add: handleRead_def EchoServer_onMessage_def)
  show ?thesis
  proof (cases "cstate s = kConnected")
    case True
    have ns: "\<not> write_shut ?s" using ok True by (auto simp: conn_ok_def)
    have f': "length ?d \<le> vec_max_size - writerIndex (outputBuffer ?s)" using fits by simp
    obtain s' where s': "sendInLoop ret wr ?d ?s = Inr s'" "conn_ok s'" "cstate s' = cstate ?s" "inputBuffer s' = inputBuffer ?s" "stream s' = stream ?s @ ?d"
      using sendInLoop_ok [OF ok' acc wr ns f'] alive by (auto simp: broken_def)
    then show ?thesis using read True b'(3) by (auto simp: stream_def TcpConnection_send_def)
  next
    case False
    then show ?thesis using read ok' b'(3) by (auto simp: stream_def TcpConnection_send_def)
  qed
qed

text \<open>
  The echo server. When a connected client's socket delivers the bytes \<open>data\<close>, one run of the read handler with the echo callback succeeds
  and appends to the outgoing stream exactly what was waiting in the input buffer followed by \<open>data\<close>, through any partial write; the input
  buffer is empty afterwards and the connection stays well-formed and up.
\<close>

theorem echo_returns_input:
  assumes ok: "conn_ok s" and up: "cstate s = kConnected" and acc: "epoll_accepts ret" and wr: "write_contract wr"
    and rd: "readv_contract readv" and data: "readv (read_iov (inputBuffer s)) = Inr data" "data \<noteq> []"
    and room: "length (storage (inputBuffer s)) + extrabuf_size \<le> vec_max_size"
    and fits: "length (content (inputBuffer s) @ data) \<le> vec_max_size - writerIndex (outputBuffer s)"
    and alive: "\<not> broken (wr (content (inputBuffer s) @ data))"
  shows "\<exists>s'. handleRead ret readv (EchoServer_onMessage ret wr) EchoServer_onConnection t s = Inr s' \<and>
    sock_out s' @ content (outputBuffer s') = sock_out s @ content (outputBuffer s) @ content (inputBuffer s) @ data \<and>
    content (inputBuffer s') = [] \<and> conn_ok s' \<and> cstate s' = kConnected"
proof -
  have "cstate s = kConnected \<or> cstate s = kDisconnecting" using up by simp
  from echo_ok [OF ok this acc wr rd data room fits alive, of EchoServer_onConnection t] up show ?thesis by (auto simp: stream_def)
qed

theorem echo_returns_input_witness:
  "\<exists>s'. handleRead (\<lambda>n. 0) (\<lambda>iov. if sum_list iov \<ge> 4 then Inr ''ping'' else Inl 11) (EchoServer_onMessage (\<lambda>n. 0) (\<lambda>d. Inr (min 2 (length d))))
      EchoServer_onConnection 0 sample_conn = Inr s' \<and> sock_out s' @ content (outputBuffer s') = ''ping''"
proof -
  let ?rv = "\<lambda>iov :: nat list. (if sum_list iov \<ge> 4 then Inr ''ping'' else Inl 11) :: int + char list"
  have b: "inputBuffer sample_conn = Buffer kInitialSize" by (rule sample_conn_ok(4))
  have ok: "buffer_ok (Buffer kInitialSize)" and e: "content (Buffer kInitialSize) = []" using Buffer_ok [of kInitialSize] by (simp_all add: buffer_consts)
  have w: "writableBytes (Buffer kInitialSize) = 1024" using writableBytes_ok [OF ok] by (simp add: Buffer_def buffer_consts)
  have rd: "readv_contract ?rv" by (auto simp: readv_contract_def)
  have "?rv (read_iov (inputBuffer sample_conn)) = Inr ''ping''" by (simp add: b read_iov_def w extrabuf_size_def)
  moreover have "length (storage (inputBuffer sample_conn)) + extrabuf_size \<le> vec_max_size" by (simp add: b Buffer_def buffer_consts)
  ultimately show ?thesis
    using echo_returns_input [OF sample_conn_ok(1,2) sample_accepts(1) _ rd, of "\<lambda>d. Inr (min 2 (length d))" "''ping''" 0] b e
    by (auto simp: sample_conn_empty write_contract_def broken_def vec_max_size_def)
qed

end
