(* ===== verification/ServerSystem.thy ===== *)
theory ServerSystem
  imports TcpServers
begin

text \<open>
  The whole server: the control state of \<^verbatim>\<open>TcpServer\<close>, the acceptor, the connection objects and the reactors of all loops in one state.
  Every functor and every event handler runs on its connection with the reactor of the connection's loop. The theory shows that
  no functor fails, that the kernel watches living channels only, and that the state of each connection object follows its stage.
\<close>

section \<open>State and operations\<close>

record 'l system =
  ctl :: "'l server"
  server_acceptor :: "conn_event acceptor"
  conns :: "nat \<rightharpoonup> tcp_conn"
  reactors :: "'l \<Rightarrow> conn_event reactor"

text \<open>A member function of the connection \<open>c\<close>, run in the thread of its loop.\<close>

definition in_conn :: "(tcp_conn \<Rightarrow> tcp_conn result) \<Rightarrow> nat \<Rightarrow> 'l system \<Rightarrow> 'l system result" where
  "in_conn op c s =
     (case (conns s c, objects (ctl s) c) of
        (Some k, Some i) \<Rightarrow>
          bind_result (op (k\<lparr>rx := reactors s (conn_loop i)\<rparr>)) (\<lambda>k'.
            Inr (s\<lparr>conns := (conns s)(c \<mapsto> k'), reactors := (reactors s)(conn_loop i := rx k')\<rparr>))
      | _ \<Rightarrow> Inl Null_deref)"

text \<open>The last reference to a connection goes: the connection, its channel and its socket are destroyed.\<close>

definition free_conn :: "nat \<Rightarrow> 'l system \<Rightarrow> 'l system" where
  "free_conn c s =
     (case (conns s c, objects (ctl s) c) of
        (Some k, Some i) \<Rightarrow>
          let r = reactors s (conn_loop i)
          in s\<lparr>conns := (conns s)(c := None), reactors := (reactors s)(conn_loop i := r\<lparr>chans := (chans r)(chan k := None)\<rparr>)\<rparr>
      | _ \<Rightarrow> s)"

text \<open>The functors, with the objects they work on; \<open>listen_rc\<close> is what \<^verbatim>\<open>listen\<close> returns.\<close>

fun sys_exec :: "(nat \<Rightarrow> int) \<Rightarrow> int \<Rightarrow> server_functor \<Rightarrow> 'l system \<Rightarrow> 'l system result" where
  "sys_exec ret listen_rc Listen s =
     bind_result (Acceptor_listen ret listen_rc ((server_acceptor s)\<lparr>acc_reactor := reactors s (base_loop (ctl s))\<rparr>)) (\<lambda>a.
       Inr (s\<lparr>ctl := exec_functor Listen (ctl s), server_acceptor := a, reactors := (reactors s)(base_loop (ctl s) := acc_reactor a)\<rparr>))"
| "sys_exec ret listen_rc (Establish c) s =
     in_conn (connectEstablished ret EchoServer_onConnection c) c (s\<lparr>ctl := exec_functor (Establish c) (ctl s)\<rparr>)"
| "sys_exec ret listen_rc (RemoveInLoop c) s = Inr (s\<lparr>ctl := exec_functor (RemoveInLoop c) (ctl s)\<rparr>)"
| "sys_exec ret listen_rc (Destroy c) s =
     bind_result (in_conn (connectDestroyed ret EchoServer_onConnection) c (s\<lparr>ctl := exec_functor (Destroy c) (ctl s)\<rparr>)) (\<lambda>s'. Inr (free_conn c s'))"

definition sys_run_in_loop :: "(nat \<Rightarrow> int) \<Rightarrow> 'l \<Rightarrow> 'l \<Rightarrow> server_functor \<Rightarrow> 'l system \<Rightarrow> 'l system result" where
  "sys_run_in_loop ret cur dest f s = (if cur = dest then sys_exec ret 0 f s else Inr (s\<lparr>ctl := post dest f (ctl s)\<rparr>))"

text \<open>\<open>q\<close> is the address of the new channel, \<open>la\<close> the address \<^verbatim>\<open>getsockname\<close> gave, \<open>wcc\<close> whether the server has a write-complete callback.\<close>

definition sys_newConnection ::
    "(nat \<Rightarrow> int) \<Rightarrow> (string \<Rightarrow> nat) \<Rightarrow> bool \<Rightarrow> ptr \<Rightarrow> sockaddr_in \<Rightarrow> int \<Rightarrow> sockaddr_in \<Rightarrow> 'l system \<Rightarrow> 'l system result" where
  "sys_newConnection ret hf wcc q la sfd peer s =
     bind_result (getNextLoop hf (toIp peer) (thread_pool (ctl s))) (\<lambda>ioLoop.
       if nextConnId (ctl s) = 2 ^ 31 - 1 then Inl Int_overflow
       else let c = next_object (ctl s)
            in bind_result (TcpConnection (Some (reactors s ioLoop, loop_fresh)) q (connName (ctl s) (nextConnId (ctl s))) sfd la peer) (\<lambda>k.
                 sys_run_in_loop ret (base_loop (ctl s)) ioLoop (Establish c)
                   (s\<lparr>ctl := register_connection ioLoop sfd (ctl s), conns := (conns s)(c \<mapsto> setWriteCompleteCallback wcc k),
                      reactors := (reactors s)(ioLoop := rx k)\<rparr>)))"

text \<open>\<^verbatim>\<open>TcpServer::removeConnection\<close>, called by the closed connection in the thread of its loop.\<close>

definition sys_removeConnection :: "(nat \<Rightarrow> int) \<Rightarrow> nat \<Rightarrow> 'l system \<Rightarrow> 'l system result" where
  "sys_removeConnection ret c s =
     (case objects (ctl s) c of None \<Rightarrow> Inl Null_deref
      | Some i \<Rightarrow> sys_run_in_loop ret (conn_loop i) (base_loop (ctl s)) (RemoveInLoop c)
                    (s\<lparr>ctl := (ctl s)\<lparr>phases := (phases (ctl s))(c := Closing)\<rparr>\<rparr>))"

text \<open>The peer closes: \<^verbatim>\<open>handleClose\<close>, whose last call is the close callback of the server.\<close>

definition sys_close :: "(nat \<Rightarrow> int) \<Rightarrow> nat \<Rightarrow> 'l system \<Rightarrow> 'l system result" where
  "sys_close ret c s =
     bind_result (in_conn (handleClose ret EchoServer_onConnection) c s) (sys_removeConnection ret c)"

text \<open>Construction and start in the main loop's thread, on the reactors the loops have then.\<close>

definition start_system ::
    "(nat \<Rightarrow> int) \<Rightarrow> (string \<Rightarrow> nat) \<Rightarrow> (string \<Rightarrow> 'l) \<Rightarrow> int \<Rightarrow> 'l \<Rightarrow> sockaddr_in \<Rightarrow> string \<Rightarrow> int \<Rightarrow> int \<Rightarrow> int \<Rightarrow> ptr \<Rightarrow>
     ('l \<Rightarrow> conn_event reactor) \<Rightarrow> 'l system result" where
  "start_system ret hf startLoop n l addr nm sfd bind_rc listen_rc q rs =
     bind_result (TcpServer (Some l) addr nm) (\<lambda>s0.
     bind_result (Acceptor sfd bind_rc q OnRead False (rs l)) (\<lambda>a.
     bind_result (Acceptor_listen ret listen_rc (setNewConnectionCallback a)) (\<lambda>a'.
       Inr \<lparr>ctl = TcpServer_start hf startLoop False l (TcpServer_setThreadNum n s0), server_acceptor = a', conns = Map.empty,
            reactors = rs(l := acc_reactor a')\<rparr>)))"

section \<open>What an operation leaves alone\<close>

text \<open>
  What becomes of a channel: its descriptor, its returned events and its callbacks stay; no operation but \<open>connectEstablished\<close> ties it; an operation
  that does not close the connection leaves a channel that is registered for reading registered for reading.
\<close>

definition same_wiring :: "'cb channel \<Rightarrow> 'cb channel \<Rightarrow> bool" where
  "same_wiring ch ch' \<longleftrightarrow> fd ch' = fd ch \<and> revents ch' = revents ch \<and> readCallback ch' = readCallback ch \<and> writeCallback ch' = writeCallback ch \<and>
     closeCallback ch' = closeCallback ch \<and> errorCallback ch' = errorCallback ch"

definition same_tie :: "'cb channel \<Rightarrow> 'cb channel \<Rightarrow> bool" where
  "same_tie ch ch' \<longleftrightarrow> same_wiring ch ch' \<and> tied ch' = tied ch \<and> tie ch' = tie ch"

definition registered_reading :: "'cb channel \<Rightarrow> bool" where
  "registered_reading ch \<longleftrightarrow> index ch = kAdded \<and> bit (events ch) 0"

definition still_reading :: "'cb channel \<Rightarrow> 'cb channel \<Rightarrow> bool" where
  "still_reading ch ch' \<longleftrightarrow> same_tie ch ch' \<and> (registered_reading ch \<longrightarrow> registered_reading ch')"

text \<open>An operation of one channel leaves all other channels as they are, and changes its own as \<open>R\<close> says.\<close>

definition only_channel :: "('cb channel \<Rightarrow> 'cb channel \<Rightarrow> bool) \<Rightarrow> ptr \<Rightarrow> 'cb reactor \<Rightarrow> 'cb reactor \<Rightarrow> bool" where
  "only_channel R c r r' \<longleftrightarrow> (\<forall>d. d \<noteq> c \<longrightarrow> chans r' d = chans r d) \<and>
     (\<forall>ch'. chans r' c = Some ch' \<longrightarrow> (\<exists>ch. chans r c = Some ch \<and> R ch ch'))"

definition own_by :: "(conn_event channel \<Rightarrow> conn_event channel \<Rightarrow> bool) \<Rightarrow> tcp_conn \<Rightarrow> tcp_conn \<Rightarrow> bool" where
  "own_by R s s' \<longleftrightarrow> chan s' = chan s \<and> only_channel R (chan s) (rx s) (rx s')"

abbreviation own_effect :: "tcp_conn \<Rightarrow> tcp_conn \<Rightarrow> bool" where
  "own_effect \<equiv> own_by same_wiring"

abbreviation own_traffic :: "tcp_conn \<Rightarrow> tcp_conn \<Rightarrow> bool" where
  "own_traffic \<equiv> own_by still_reading"

lemma wiring_refl [simp]: "same_wiring ch ch" "same_tie ch ch" "still_reading ch ch"
  by (simp_all add: same_wiring_def same_tie_def still_reading_def)

lemma wiring_trans: "transp same_wiring" "transp same_tie" "transp still_reading"
  by (auto simp: same_wiring_def same_tie_def still_reading_def intro!: transpI)

lemma wiring_weaken: "still_reading ch ch' \<Longrightarrow> same_tie ch ch'" "same_tie ch ch' \<Longrightarrow> same_wiring ch ch'"
  by (auto simp: same_tie_def still_reading_def)

lemma wired_same: "same_wiring ch ch' \<Longrightarrow> wired ch' = wired ch"
  by (simp add: same_wiring_def wired_def)

lemma only_channel_mono: "only_channel R c r r' \<Longrightarrow> (\<And>ch ch'. R ch ch' \<Longrightarrow> Q ch ch') \<Longrightarrow> only_channel Q c r r'"
  unfolding only_channel_def by blast

lemma only_channel_trans: "transp R \<Longrightarrow> only_channel R c r r' \<Longrightarrow> only_channel R c r' r'' \<Longrightarrow> only_channel R c r r''"
  unfolding only_channel_def by (metis transpD)

lemma own_by_mono: "own_by R s s' \<Longrightarrow> (\<And>ch ch'. R ch ch' \<Longrightarrow> Q ch ch') \<Longrightarrow> own_by Q s s'"
  unfolding own_by_def using only_channel_mono by blast

lemma own_traffic_effect: "own_traffic s s' \<Longrightarrow> own_effect s s'"
  by (erule own_by_mono) (intro wiring_weaken(1,2))

lemma own_refl: "chan s' = chan s \<Longrightarrow> rx s' = rx s \<Longrightarrow> own_effect s s'" "chan s' = chan s \<Longrightarrow> rx s' = rx s \<Longrightarrow> own_traffic s s'"
  by (simp_all add: own_by_def only_channel_def)

lemma own_by_trans: "transp R \<Longrightarrow> own_by R s t \<Longrightarrow> own_by R t u \<Longrightarrow> own_by R s u"
  unfolding own_by_def using only_channel_trans by metis

lemmas own_trans [trans] = own_by_trans [OF wiring_trans(1)] own_by_trans [OF wiring_trans(3)]

lemma change_events_only: "change_events ret f c r = Inr r' \<Longrightarrow> only_channel same_tie c r r'"
  by (auto simp: change_events_def updateChannel_def only_channel_def same_tie_def same_wiring_def Let_def split: option.splits if_splits)

lemma change_events_reading:
  assumes "change_events ret f c r = Inr r'" and "\<And>e. bit e 0 \<Longrightarrow> bit (f e) 0"
  shows "only_channel still_reading c r r'"
proof -
  have ne: "f e \<noteq> 0" if "bit e 0" for e using assms(2) [OF that] by auto
  show ?thesis
    using assms ne change_events_only [OF assms(1)]
    by (auto simp: change_events_def updateChannel_def only_channel_def still_reading_def registered_reading_def isNoneEvent_def kNoneEvent_def
        index_defs Let_def split: option.splits if_splits)
qed

lemma removeChannel_only: "removeChannel ret c r = Inr r' \<Longrightarrow> only_channel same_tie c r r'"
  by (auto simp: removeChannel_def only_channel_def same_tie_def same_wiring_def Let_def split: option.splits if_splits)

lemma only_effect: "only_channel same_tie c r r' \<Longrightarrow> only_channel same_wiring c r r'"
  by (erule only_channel_mono) (rule wiring_weaken(2))

lemma on_channel_own: "on_channel (change_events ret f) s = Inr s' \<Longrightarrow> own_effect s s'"
  using only_effect [OF change_events_only] by (auto simp: on_channel_def own_by_def)

lemma write_mask_reading: "bit ((e :: ev) OR kWriteEvent) 0 = bit e 0" "bit ((e :: ev) AND NOT kWriteEvent) 0 = bit e 0"
  by (simp_all add: event_bits bit_simps)

lemma on_channel_write:
  "on_channel (enableWriting ret) s = Inr s' \<Longrightarrow> own_traffic s s'" "on_channel (disableWriting ret) s = Inr s' \<Longrightarrow> own_traffic s s'"
  by (auto simp: on_channel_def own_by_def enableWriting_def disableWriting_def write_mask_reading dest!: change_events_reading)

lemmas enable_defs = enableReading_def enableWriting_def disableWriting_def disableAll_def

lemma connectEstablished_own:
  assumes "connectEstablished ret EchoServer_onConnection self s = Inr s'"
  shows "own_effect s s'" and "\<exists>ch. chans (rx s) (chan s) = Some ch"
    and "chans (rx s) (chan s) = Some ch \<Longrightarrow> index ch = kNew \<Longrightarrow> \<exists>ch'. chans (rx s') (chan s') = Some ch' \<and> same_wiring ch ch' \<and> tied ch' \<and> tie ch' = self \<and> registered_reading ch'"
proof -
  obtain c0 t where ch: "chans (rx s) (chan s) = Some c0"
    and t: "on_channel (enableReading ret) (s\<lparr>cstate := kConnected, rx := (rx s)\<lparr>chans := (chans (rx s))(chan s \<mapsto> Channel_tie self c0)\<rparr>\<rparr>) = Inr t"
      "connection_call EchoServer_onConnection t = Inr s'"
    using assms by (auto simp: connectEstablished_def Let_def split: option.splits)
  show "\<exists>ch. chans (rx s) (chan s) = Some ch" using ch by blast
  have "own_effect s (s\<lparr>cstate := kConnected, rx := (rx s)\<lparr>chans := (chans (rx s))(chan s \<mapsto> Channel_tie self c0)\<rparr>\<rparr>)"
    using ch by (simp add: own_by_def only_channel_def Channel_tie_def same_wiring_def)
  also have "own_effect \<dots> t" using t(1) on_channel_own unfolding enableReading_def by blast
  also have "own_effect t s'" using t(2) by (auto simp: connection_call_def EchoServer_onConnection_def intro: own_refl)
  finally show "own_effect s s'" .
  assume c: "chans (rx s) (chan s) = Some ch" "index ch = kNew"
  have "bit ((e :: ev) OR kReadEvent) 0" for e by (simp add: event_bits bit_simps)
  then show "\<exists>ch'. chans (rx s') (chan s') = Some ch' \<and> same_wiring ch ch' \<and> tied ch' \<and> tie ch' = self \<and> registered_reading ch'"
    using t ch c by (auto simp: connection_call_def EchoServer_onConnection_def on_channel_def enableReading_def change_events_def updateChannel_def
        Channel_tie_def same_wiring_def registered_reading_def index_defs Let_def split: option.splits)
qed

lemma handleClose_own:
  assumes "handleClose ret EchoServer_onConnection s = Inr s'"
  shows "own_effect s s'"
    and "chans (rx s) (chan s) = Some ch \<Longrightarrow> index ch = kAdded \<Longrightarrow> \<exists>ch'. chans (rx s') (chan s') = Some ch' \<and> same_tie ch ch' \<and> index ch' = kDeleted"
proof -
  obtain t where t: "on_channel (disableAll ret) (s\<lparr>cstate := kDisconnected\<rparr>) = Inr t" "chan s' = chan t" "rx s' = rx t"
    using assms by (auto simp: handleClose_def connection_call_def EchoServer_onConnection_def)
  have "own_effect s (s\<lparr>cstate := kDisconnected\<rparr>)" by (simp add: own_refl)
  also have "own_effect \<dots> t" using t(1) on_channel_own unfolding disableAll_def by blast
  also have "own_effect t s'" using t(2,3) by (simp add: own_refl)
  finally show "own_effect s s'" .
  assume "chans (rx s) (chan s) = Some ch" "index ch = kAdded"
  then show "\<exists>ch'. chans (rx s') (chan s') = Some ch' \<and> same_tie ch ch' \<and> index ch' = kDeleted"
    using t by (auto simp: on_channel_def disableAll_def change_events_def updateChannel_def isNoneEvent_def same_tie_def same_wiring_def index_defs
        Let_def split: option.splits)
qed

lemma store_remaining_own:
  assumes "store_remaining ret ch d s = Inr s'"
  shows "own_traffic s s'"
proof -
  obtain b where "(if \<not> isWriting ch then on_channel (enableWriting ret) ((high_water (length d) s)\<lparr>outputBuffer := b\<rparr>)
      else Inr ((high_water (length d) s)\<lparr>outputBuffer := b\<rparr>)) = Inr s'"
    using assms by (auto simp: store_remaining_def Let_def)
  then have "own_traffic ((high_water (length d) s)\<lparr>outputBuffer := b\<rparr>) s'"
    by (auto simp: own_refl(2) split: if_splits dest: on_channel_write(1))
  then show ?thesis using own_trans(2) [OF own_refl(2) [of "(high_water (length d) s)\<lparr>outputBuffer := b\<rparr>" s]] by simp
qed

lemma sendInLoop_own:
  assumes "sendInLoop ret wr d s = Inr s'"
  shows "own_traffic s s'"
proof -
  obtain ch n m fault s1 where ch: "chans (rx s) (chan s) = Some ch" and w: "first_write wr ch d s = Inr (n, m, fault, s1)"
    and s': "(if \<not> fault \<and> m > 0 then store_remaining ret ch (take m (drop n d)) s1 else Inr s1) = Inr s'"
    using assms by (auto simp: sendInLoop_def split: option.splits)
  have "own_traffic s s1" using w by (auto simp: first_write_def Let_def own_refl(2) split: if_splits sum.splits)
  also have "own_traffic s1 s'" using s' store_remaining_own by (auto simp: own_refl(2) split: if_splits)
  finally show ?thesis .
qed

lemma shutdownInLoop_own: "shutdownInLoop s = Inr s' \<Longrightarrow> own_traffic s s'"
  by (auto simp: shutdownInLoop_def split: option.splits if_splits intro: own_refl(2))

lemma handleWrite_own:
  assumes "handleWrite ret wr s = Inr s'"
  shows "own_traffic s s'"
proof -
  have drained: "own_traffic s s'"
    if drain: "bind_result (on_channel (disableWriting ret) t) (\<lambda>s2. let s3 = (if hasWriteComplete s2 then queue_functor WriteComplete s2 else s2)
          in if cstate s3 = kDisconnecting then shutdownInLoop s3 else Inr s3) = Inr s'" and t: "chan t = chan s" "rx t = rx s" for t
  proof -
    obtain s2 where s2: "on_channel (disableWriting ret) t = Inr s2"
      "(let s3 = (if hasWriteComplete s2 then queue_functor WriteComplete s2 else s2) in if cstate s3 = kDisconnecting then shutdownInLoop s3 else Inr s3) = Inr s'"
      using drain by auto
    have "own_traffic s t" using t by (simp add: own_refl(2))
    also have "own_traffic t s2" using s2(1) by (rule on_channel_write(2))
    also have "own_traffic s2 (if hasWriteComplete s2 then queue_functor WriteComplete s2 else s2)" by (simp add: own_refl(2))
    also have "own_traffic \<dots> s'" using s2(2) shutdownInLoop_own by (auto simp: Let_def own_refl(2) split: if_splits)
    finally show ?thesis .
  qed
  obtain ch where ch: "chans (rx s) (chan s) = Some ch" using assms by (auto simp: handleWrite_def split: option.splits)
  show ?thesis
  proof (cases "isWriting ch")
    case True
    then obtain n where n: "writeFd wr (outputBuffer s) = Inr n" "n \<noteq> Inl EPIPE" using assms ch by (auto simp: handleWrite_def)
    show ?thesis
    proof (cases n)
      case (Inr k)
      let ?t = "s\<lparr>sock_out := sock_out s @ take k (content (outputBuffer s)), outputBuffer := retrieve (outputBuffer s) k\<rparr>"
      show ?thesis
      proof (cases "k > 0 \<and> readableBytes (outputBuffer ?t) = 0")
        case True
        have "handleWrite ret wr s = bind_result (on_channel (disableWriting ret) ?t) (\<lambda>s2. let s3 = (if hasWriteComplete s2 then queue_functor WriteComplete s2 else s2)
          in if cstate s3 = kDisconnecting then shutdownInLoop s3 else Inr s3)"
          using \<open>isWriting ch\<close> ch n Inr True by (simp add: handleWrite_def)
        then show ?thesis using assms drained [of ?t] by simp
      next
        case False
        then show ?thesis using assms \<open>isWriting ch\<close> ch n Inr by (auto simp: handleWrite_def Let_def own_refl(2) split: if_splits)
      qed
    qed (use assms True ch n in \<open>simp add: handleWrite_def own_refl(2)\<close>)
  qed (use assms ch in \<open>simp add: handleWrite_def own_refl(2)\<close>)
qed

lemma TcpConnection_send_own: "TcpConnection_send ret wr d s = Inr s' \<Longrightarrow> own_traffic s s'"
  by (auto simp: TcpConnection_send_def split: if_splits dest: sendInLoop_own intro: own_refl(2))

lemma conn_apply_own:
  assumes "conn_apply ret EchoServer_onConnection x s = Inr s'" and "x \<noteq> PeerClosed"
  shows "own_traffic s s'"
proof (cases x)
  case (Send d wr)
  then show ?thesis using assms TcpConnection_send_own by simp
next
  case (Writable wr)
  then show ?thesis using assms handleWrite_own by simp
next
  case Shutdown
  have "own_traffic s (s\<lparr>cstate := kDisconnecting\<rparr>)" by (simp add: own_refl(2))
  then show ?thesis using assms Shutdown own_trans(2) shutdownInLoop_own
    by (auto simp: TcpConnection_shutdown_def split: if_splits intro: own_refl(2))
qed (use assms in simp)

section \<open>Invariant\<close>

text \<open>No two living channels of a reactor have the same descriptor.\<close>

definition private_fds :: "'cb reactor \<Rightarrow> bool" where
  "private_fds r \<longleftrightarrow> (\<forall>q q' ch ch'. chans r q = Some ch \<longrightarrow> chans r q' = Some ch' \<longrightarrow> fd ch = fd ch' \<longrightarrow> q = q')"

lemma private_usable:
  assumes "reactor_ok r" and "private_fds r" and "chans r q = Some ch"
  shows "usable r q"
proof -
  obtain p where p: "poll_ptr r = Some p" "poller_ok (chans r) p" using assms(1) by (auto simp: reactor_ok_def split: option.splits)
  have "d = q" if d: "channels p (fd ch) = Some d" for d
  proof -
    obtain dh where "chans r d = Some dh" "fd dh = fd ch" using p(2) d unfolding poller_ok_def by blast
    then show ?thesis using assms(2,3) by (auto simp: private_fds_def)
  qed
  then show ?thesis using p(1) assms(3) by (cases "channels p (fd ch)") (auto simp: usable_def)
qed

lemma private_only: "private_fds r \<Longrightarrow> only_channel same_wiring c r r' \<Longrightarrow> private_fds r'"
  unfolding private_fds_def only_channel_def same_wiring_def by metis

text \<open>The state a connection object is in at each stage.\<close>

fun conn_stage :: "phase \<Rightarrow> tcp_conn \<Rightarrow> bool" where
  "conn_stage Connecting k = conn_new k"
| "conn_stage Established k = (conn_ok k \<and> (cstate k = kConnected \<or> cstate k = kDisconnecting))"
| "conn_stage Closing k = (conn_ok k \<and> cstate k = kDisconnected \<and> mask_of (rx k) (chan k) = Some 0)"
| "conn_stage Removed k = (conn_ok k \<and> cstate k = kDisconnected \<and> mask_of (rx k) (chan k) = Some 0)"
| "conn_stage Destroyed k = False"

lemma conn_stage_channel:
  assumes "conn_stage p k"
  obtains ch where "chans (rx k) (chan k) = Some ch"
  using assms by (cases p) (auto simp: conn_new_def conn_ok_def usable_def split: option.splits)

lemma conn_stage_frame:
  assumes st: "conn_stage p (k\<lparr>rx := r\<rparr>)" and ok: "reactor_ok r'" "private_fds r'" and same: "chans r' (chan k) = chans r (chan k)"
  shows "conn_stage p (k\<lparr>rx := r'\<rparr>)"
proof -
  obtain ch where "chans r (chan k) = Some ch" using conn_stage_channel [OF st] by auto
  then have use: "usable r' (chan k)" using private_usable [OF ok] same by simp
  have m: "mask_of r' (chan k) = mask_of r (chan k)" using same by (simp add: mask_of_def)
  have w: "writing (k\<lparr>rx := r'\<rparr>) = writing (k\<lparr>rx := r\<rparr>)" using m by (simp add: writing_def)
  have "conn_new (k\<lparr>rx := r'\<rparr>)" if "conn_new (k\<lparr>rx := r\<rparr>)" using that ok(1) use m by (simp add: conn_new_def)
  moreover have "conn_ok (k\<lparr>rx := r'\<rparr>)" if "conn_ok (k\<lparr>rx := r\<rparr>)" using that ok(1) use w by (simp add: conn_ok_def)
  ultimately show ?thesis using st m by (cases p) simp_all
qed

text \<open>
  The channel of the connection \<open>d\<close> with the descriptor \<open>f\<close> at each stage: it has the callbacks of its connection, is tied to it once it is established, is
  registered for reading as long as the connection is up and out of the interest list from then on.
\<close>

fun channel_stage :: "phase \<Rightarrow> nat \<Rightarrow> 'cb channel \<Rightarrow> bool" where
  "channel_stage Connecting d ch = (\<not> tied ch \<and> index ch = kNew)"
| "channel_stage Established d ch = (tied ch \<and> tie ch = d \<and> registered_reading ch)"
| "channel_stage Closing d ch = (tied ch \<and> tie ch = d \<and> index ch = kDeleted)"
| "channel_stage Removed d ch = (tied ch \<and> tie ch = d \<and> index ch = kDeleted)"
| "channel_stage Destroyed d ch = False"

definition bound_channel :: "conn_event channel option \<Rightarrow> nat \<Rightarrow> int \<Rightarrow> phase \<Rightarrow> bool" where
  "bound_channel co d f p = (case co of None \<Rightarrow> False | Some ch \<Rightarrow> wired ch \<and> fd ch = f \<and> channel_stage p d ch)"

text \<open>The object \<open>d\<close> is as its stage \<open>p\<close> says; it is gone exactly when it has been destroyed.\<close>

definition stands :: "'l system \<Rightarrow> nat \<Rightarrow> phase \<Rightarrow> bool" where
  "stands s d p =
     (case (objects (ctl s) d, conns s d) of
        (Some i, Some k) \<Rightarrow> conn_stage p (k\<lparr>rx := reactors s (conn_loop i)\<rparr>) \<and> bound_channel (chans (reactors s (conn_loop i)) (chan k)) d (conn_fd i) p
      | (Some i, None) \<Rightarrow> p = Destroyed
      | (None, None) \<Rightarrow> True
      | (None, Some k) \<Rightarrow> False)"

text \<open>A tied channel belongs to the connection that it is tied to, and lies in that connection's loop.\<close>

definition owned :: "'l system \<Rightarrow> bool" where
  "owned s \<longleftrightarrow> (\<forall>l q ch. chans (reactors s l) q = Some ch \<longrightarrow> tied ch \<longrightarrow>
     (\<exists>i k. objects (ctl s) (tie ch) = Some i \<and> conn_loop i = l \<and> conns s (tie ch) = Some k \<and> chan k = q))"

definition world :: "'l system \<Rightarrow> bool" where
  "world s \<longleftrightarrow> (\<forall>l. reactor_ok (reactors s l) \<and> private_fds (reactors s l)) \<and>
     (\<forall>c d k k'. conns s c = Some k \<longrightarrow> conns s d = Some k' \<longrightarrow> chan k = chan k' \<longrightarrow> c = d) \<and> owned s"

definition sys_ok :: "'l system \<Rightarrow> bool" where
  "sys_ok s \<longleftrightarrow> waiting_ok (ctl s) None \<and> map_ok (ctl s) \<and> world s \<and> (\<forall>d. stands s d (phases (ctl s) d))"

lemma world_ctl: "world s \<Longrightarrow> objects (ctl s) \<subseteq>\<^sub>m objects x \<Longrightarrow> world (s\<lparr>ctl := x\<rparr>)"
  unfolding world_def owned_def map_le_def by simp (metis domI)

lemma world_ctl_same [simp]: "objects x = objects (ctl s) \<Longrightarrow> world (s\<lparr>ctl := x\<rparr>) = world s"
  by (simp add: world_def owned_def)

lemma post_objects [simp]: "objects (post l f x) = objects x"
  by (simp add: post_def)

lemma stands_ctl: "objects x d = objects (ctl s) d \<Longrightarrow> stands (s\<lparr>ctl := x\<rparr>) d p = stands s d p"
  by (simp add: stands_def split: option.split)

lemma in_conn_Inr:
  assumes "objects (ctl s) c = Some i" and "conns s c = Some k" and "op (k\<lparr>rx := reactors s (conn_loop i)\<rparr>) = Inr k'"
  shows "in_conn op c s = Inr (s\<lparr>conns := (conns s)(c \<mapsto> k'), reactors := (reactors s)(conn_loop i := rx k')\<rparr>)"
  using assms by (simp add: in_conn_def)

text \<open>A change of one object and one channel leaves all other objects at their stage.\<close>

lemma world_update:
  assumes w: "world s" and st: "\<And>d. d \<noteq> c \<Longrightarrow> stands s d (ph d)" and r': "reactor_ok r'" "private_fds r'"
    and same: "\<And>d. d \<noteq> q \<Longrightarrow> chans r' d = chans (reactors s l) d"
    and q: "\<And>d kd. d \<noteq> c \<Longrightarrow> conns s d = Some kd \<Longrightarrow> chan kd \<noteq> q" and ko: "\<And>k'. ko = Some k' \<Longrightarrow> chan k' = q"
    and old: "\<And>k. conns s c = Some k \<Longrightarrow> chan k = q" and i: "objects (ctl s) c = Some i" "conn_loop i = l"
    and tie: "\<And>ch. chans r' q = Some ch \<Longrightarrow> tied ch \<Longrightarrow> tie ch = c \<and> ko \<noteq> None"
    and s': "s' = s\<lparr>conns := (conns s)(c := ko), reactors := (reactors s)(l := r')\<rparr>"
  shows "world s' \<and> (\<forall>d. d \<noteq> c \<longrightarrow> stands s' d (ph d))"
proof (intro conjI allI impI)
  have inj: "a = b" if "conns s a = Some k" "conns s b = Some k'" "chan k = chan k'" for a b k k' using w that by (simp add: world_def)
  have inj': "a = b" if a: "((conns s)(c := ko)) a = Some k" and b: "((conns s)(c := ko)) b = Some k'" and eq: "chan k = chan k'" for a b k k'
  proof (cases "a = c"; cases "b = c")
    assume "a = c" "b \<noteq> c"
    then show ?thesis using q [of b k'] ko [of k] a b eq by simp
  next
    assume "a \<noteq> c" "b = c"
    then show ?thesis using q [of a k] ko [of k'] a b eq by simp
  qed (use inj a b eq in auto)
  have rs: "reactor_ok (reactors s' m) \<and> private_fds (reactors s' m)" for m using w r' by (simp add: world_def s')
  have cs: "conns s' = (conns s)(c := ko)" by (simp add: s')
  have "owned s'"
    unfolding owned_def
  proof (intro allI impI)
    fix m p ch assume ch: "chans (reactors s' m) p = Some ch" "tied ch"
    show "\<exists>i k. objects (ctl s') (tie ch) = Some i \<and> conn_loop i = m \<and> conns s' (tie ch) = Some k \<and> chan k = p"
    proof (cases "m = l \<and> p = q")
      case True
      then have "tie ch = c" "ko \<noteq> None" using tie [of ch] ch by (simp_all add: s')
      then show ?thesis using True ko i by (auto simp: s')
    next
      case False
      then have "chans (reactors s m) p = Some ch" using ch(1) same by (cases "m = l") (auto simp: s')
      then obtain j kd where d: "objects (ctl s) (tie ch) = Some j" "conn_loop j = m" "conns s (tie ch) = Some kd" "chan kd = p"
        using w ch(2) unfolding world_def owned_def by blast
      moreover have "tie ch \<noteq> c" using d old [of kd] i False by auto
      ultimately show ?thesis by (simp add: s')
    qed
  qed
  then show "world s'" unfolding world_def cs using rs inj' by blast
  fix d assume d: "d \<noteq> c"
  show "stands s' d (ph d)"
  proof (cases "objects (ctl s) d")
    case None
    then show ?thesis using st [OF d] d by (simp add: stands_def s')
  next
    case i: (Some i)
    show ?thesis
    proof (cases "conns s d")
      case None
      then show ?thesis using st [OF d] d i by (simp add: stands_def s')
    next
      case k: (Some k)
      have stage: "conn_stage (ph d) (k\<lparr>rx := reactors s (conn_loop i)\<rparr>)" "bound_channel (chans (reactors s (conn_loop i)) (chan k)) d (conn_fd i) (ph d)"
        using st [OF d] i k by (simp_all add: stands_def)
      have "conn_stage (ph d) (k\<lparr>rx := reactors s' (conn_loop i)\<rparr>) \<and> bound_channel (chans (reactors s' (conn_loop i)) (chan k)) d (conn_fd i) (ph d)"
      proof (cases "conn_loop i = l")
        case True
        have eq: "chans r' (chan k) = chans (reactors s l) (chan k)" using same q [OF d k] by blast
        from conn_stage_frame [OF stage(1) r', unfolded True, OF eq] show ?thesis using True eq stage(2) by (simp add: s')
      next
        case False
        then show ?thesis using stage by (simp add: s')
      qed
      then show ?thesis using i k d by (simp add: stands_def s')
    qed
  qed
qed

text \<open>An operation of the connection \<open>c\<close> on its own channel.\<close>

lemma in_conn_ok:
  assumes w: "world s" and st: "\<And>d. stands s d (ph d)" and i: "objects (ctl s) c = Some i" and k: "conns s c = Some k"
    and op: "op (k\<lparr>rx := reactors s (conn_loop i)\<rparr>) = Inr k'" and own: "own_effect (k\<lparr>rx := reactors s (conn_loop i)\<rparr>) k'"
    and stage: "conn_stage p k'" and bnd: "bound_channel (chans (rx k') (chan k')) c (conn_fd i) p" and np: "p \<noteq> Connecting"
  obtains s' where "in_conn op c s = Inr s'" and "world s'" and "\<And>d. stands s' d ((ph(c := p)) d)" and "ctl s' = ctl s"
    and "server_acceptor s' = server_acceptor s"
proof -
  let ?s' = "s\<lparr>conns := (conns s)(c \<mapsto> k'), reactors := (reactors s)(conn_loop i := rx k')\<rparr>"
  have r': "reactor_ok (rx k')" using stage by (cases p) (simp_all add: conn_new_def conn_ok_def)
  have only: "only_channel same_wiring (chan k) (reactors s (conn_loop i)) (rx k')" "chan k' = chan k" using own by (simp_all add: own_by_def)
  have priv: "private_fds (rx k')" using private_only [OF _ only(1)] w by (simp add: world_def)
  have up: "world ?s' \<and> (\<forall>d. d \<noteq> c \<longrightarrow> stands ?s' d (ph d))"
  proof (rule world_update [where q = "chan k" and ko = "Some k'" and s = s and ph = ph and c = c, OF w st r' priv])
    show "chan kd \<noteq> chan k" if "d \<noteq> c" "conns s d = Some kd" for d kd using w k that by (auto simp: world_def)
    show "chans (rx k') d = chans (reactors s (conn_loop i)) d" if "d \<noteq> chan k" for d using only(1) that by (simp add: only_channel_def)
    show "tie ch = c \<and> Some k' \<noteq> None" if "chans (rx k') (chan k) = Some ch" "tied ch" for ch
      using bnd that only(2) np by (cases p) (auto simp: bound_channel_def)
  qed (use only(2) i k in simp_all)
  have "k'\<lparr>rx := rx k'\<rparr> = k'" by simp
  then have "stands ?s' c p" using stage i bnd by (simp add: stands_def)
  with up have "stands ?s' d ((ph(c := p)) d)" for d by simp
  then show ?thesis using that [of ?s'] in_conn_Inr [of s c i k op k', OF i k op] up by simp
qed

section \<open>Steps\<close>

text \<open>
  What the kernel and the allocator promise for a new connection: the descriptor is not open, so no living channel has it, and
  no living channel lies at the address of the new one.
\<close>

definition fresh_for :: "'l system \<Rightarrow> ptr \<Rightarrow> int \<Rightarrow> bool" where
  "fresh_for s q sfd \<longleftrightarrow> (\<forall>l. chans (reactors s l) q = None) \<and> (\<forall>l q' ch. chans (reactors s l) q' = Some ch \<longrightarrow> fd ch \<noteq> sfd)"

text \<open>The data fit the buffers, and the write does not find the connection broken.\<close>

definition op_fits :: "conn_op \<Rightarrow> tcp_conn \<Rightarrow> bool" where
  "op_fits x k \<longleftrightarrow> op_ok x \<and> x \<noteq> PeerClosed \<and> writerIndex (outputBuffer k) + length (sent_by (cstate k) [x]) \<le> vec_max_size"

definition read_fits :: "(nat list \<Rightarrow> int + string) \<Rightarrow> (string \<Rightarrow> int + nat) \<Rightarrow> string \<Rightarrow> tcp_conn \<Rightarrow> bool" where
  "read_fits readv wr data k \<longleftrightarrow> write_contract wr \<and> readv_contract readv \<and> readv (read_iov (inputBuffer k)) = Inr data \<and> data \<noteq> [] \<and>
     length (storage (inputBuffer k)) + extrabuf_size \<le> vec_max_size \<and>
     length (content (inputBuffer k) @ data) \<le> vec_max_size - writerIndex (outputBuffer k) \<and> \<not> broken (wr (content (inputBuffer k) @ data))"

text \<open>
  The acceptor hands over a connection; a loop runs the oldest functor in its queue; on a connection that is up the user sends or shuts down, the
  socket becomes writable, data arrive and are echoed, or the peer closes.
\<close>

inductive sys_step :: "(nat \<Rightarrow> int) \<Rightarrow> (string \<Rightarrow> nat) \<Rightarrow> bool \<Rightarrow> 'l system \<Rightarrow> 'l system \<Rightarrow> bool" for ret hf wcc where
  accept: "Acceptor_handleRead rc addr (server_acceptor s) = Handed_over sfd peer \<Longrightarrow> fresh_for s q sfd \<Longrightarrow>
    sys_newConnection ret hf wcc q la sfd peer s = Inr s' \<Longrightarrow> sys_step ret hf wcc s s'"
| run: "queues (ctl s) l = f # fs \<Longrightarrow> sys_exec ret listen_rc f (s\<lparr>ctl := (ctl s)\<lparr>queues := (queues (ctl s))(l := fs)\<rparr>\<rparr>) = Inr s' \<Longrightarrow>
    sys_step ret hf wcc s s'"
| traffic: "phases (ctl s) c = Established \<Longrightarrow> conns s c = Some k \<Longrightarrow> op_fits x k \<Longrightarrow>
    in_conn (conn_apply ret EchoServer_onConnection x) c s = Inr s' \<Longrightarrow> sys_step ret hf wcc s s'"
| echo: "phases (ctl s) c = Established \<Longrightarrow> conns s c = Some k \<Longrightarrow> read_fits readv wr data k \<Longrightarrow>
    in_conn (handleRead ret readv (EchoServer_onMessage ret wr) EchoServer_onConnection t) c s = Inr s' \<Longrightarrow> sys_step ret hf wcc s s'"
| close: "phases (ctl s) c = Established \<Longrightarrow> conns s c \<noteq> None \<Longrightarrow> sys_close ret c s = Inr s' \<Longrightarrow> sys_step ret hf wcc s s'"

section \<open>The steps keep the invariant\<close>

lemma quiet_echo [simp]: "quiet EchoServer_onConnection"
  by (simp add: quiet_def EchoServer_onConnection_def)

lemma standsD:
  assumes "stands s c p" and "objects (ctl s) c = Some i" and "p \<noteq> Destroyed"
  shows "\<exists>k. conns s c = Some k \<and> conn_stage p (k\<lparr>rx := reactors s (conn_loop i)\<rparr>) \<and> bound_channel (chans (reactors s (conn_loop i)) (chan k)) c (conn_fd i) p"
  using assms by (auto simp: stands_def split: option.splits)

lemma stands_conn:
  assumes "stands s c p" and "conns s c = Some k"
  obtains i where "objects (ctl s) c = Some i" and "conn_stage p (k\<lparr>rx := reactors s (conn_loop i)\<rparr>)"
    and "bound_channel (chans (reactors s (conn_loop i)) (chan k)) c (conn_fd i) p"
  using assms by (auto simp: stands_def split: option.splits)

lemma stands_channel:
  assumes "stands s c p" and "conns s c = Some k"
  shows "\<exists>l ch. chans (reactors s l) (chan k) = Some ch"
proof (rule stands_conn [OF assms])
  fix i assume "conn_stage p (k\<lparr>rx := reactors s (conn_loop i)\<rparr>)"
  from conn_stage_channel [OF this] obtain ch where "chans (reactors s (conn_loop i)) (chan k) = Some ch" by auto
  then show ?thesis by blast
qed

lemma exec_functor_objects [simp]: "objects (exec_functor f s) = objects s"
  by (cases f) (auto simp: removeConnectionInLoop_def post_def split: option.split)

lemma exec_Listen_ctl: "phases (exec_functor Listen s) = phases s" "base_loop (exec_functor f s) = base_loop s"
  by (simp, cases f) (auto simp: removeConnectionInLoop_def post_def split: option.split)

lemma established_bound:
  assumes "\<exists>ch'. x = Some ch' \<and> same_wiring ch ch' \<and> tied ch' \<and> tie ch' = c \<and> registered_reading ch'" and "wired ch" and "fd ch = f"
  shows "bound_channel x c f Established"
proof -
  obtain ch' where "x = Some ch'" "same_wiring ch ch'" "tied ch'" "tie ch' = c" "registered_reading ch'" using assms(1) by blast
  moreover from this have "wired ch'" using wired_same assms(2) by blast
  ultimately show ?thesis using assms(3) by (simp add: bound_channel_def same_wiring_def)
qed

lemma closed_bound:
  assumes "\<exists>ch'. x = Some ch' \<and> same_tie ch ch' \<and> index ch' = kDeleted" and "wired ch" and "fd ch = f" and "tied ch" and "tie ch = c"
  shows "bound_channel x c f Closing"
proof -
  obtain ch' where "x = Some ch'" "same_tie ch ch'" "index ch' = kDeleted" using assms(1) by blast
  moreover from this have "wired ch'" using wired_same wiring_weaken(2) assms(2) by blast
  ultimately show ?thesis using assms(3-5) by (simp add: bound_channel_def same_tie_def same_wiring_def)
qed

lemma establish_stage:
  assumes w: "world s" and st: "\<And>d. stands s d (ph d)" and acc: "epoll_accepts ret" and i: "objects (ctl s) c = Some i" and p: "ph c = Connecting"
  obtains s' where "in_conn (connectEstablished ret EchoServer_onConnection c) c s = Inr s'" and "world s'" and "ctl s' = ctl s"
    and "\<And>d. stands s' d ((ph(c := Established)) d)"
proof -
  obtain k where k: "conns s c = Some k" "conn_new (k\<lparr>rx := reactors s (conn_loop i)\<rparr>)"
    and b: "bound_channel (chans (reactors s (conn_loop i)) (chan k)) c (conn_fd i) Connecting"
    using standsD [OF st [of c] i, unfolded p] unfolding conn_stage.simps by blast
  from connectEstablished_ok [OF k(2) acc quiet_echo, of c] obtain k' where k':
    "connectEstablished ret EchoServer_onConnection c (k\<lparr>rx := reactors s (conn_loop i)\<rparr>) = Inr k'" "conn_stage Established k'" by auto
  obtain ch where ch: "chans (reactors s (conn_loop i)) (chan k) = Some ch" "wired ch" "fd ch = conn_fd i" "index ch = kNew"
    using b by (auto simp: bound_channel_def split: option.splits)
  have b': "bound_channel (chans (rx k') (chan k')) c (conn_fd i) Established"
    by (rule established_bound [OF connectEstablished_own(3) [OF k'(1)]]) (use ch in simp_all)
  show thesis
    using in_conn_ok [where ph = ph and op = "connectEstablished ret EchoServer_onConnection c", OF w st i k(1) k'(1) connectEstablished_own(1) [OF k'(1)] k'(2) b'] that by blast
qed

lemma close_stage:
  assumes w: "world s" and st: "\<And>d. stands s d (ph d)" and acc: "epoll_accepts ret" and i: "objects (ctl s) c = Some i" and p: "ph c = Established"
  obtains s' where "in_conn (handleClose ret EchoServer_onConnection) c s = Inr s'" and "world s'" and "ctl s' = ctl s"
    and "\<And>d. stands s' d ((ph(c := Closing)) d)"
proof -
  obtain k where k: "conns s c = Some k" "conn_ok (k\<lparr>rx := reactors s (conn_loop i)\<rparr>)"
    and b: "bound_channel (chans (reactors s (conn_loop i)) (chan k)) c (conn_fd i) Established"
    using standsD [OF st [of c] i, unfolded p] unfolding conn_stage.simps by blast
  from handleClose_ok [OF k(2) acc quiet_echo] obtain k' where k':
    "handleClose ret EchoServer_onConnection (k\<lparr>rx := reactors s (conn_loop i)\<rparr>) = Inr k'" "conn_stage Closing k'" by auto
  obtain ch where ch: "chans (reactors s (conn_loop i)) (chan k) = Some ch" "wired ch" "fd ch = conn_fd i" "tied ch" "tie ch = c" "index ch = kAdded"
    using b by (auto simp: bound_channel_def registered_reading_def split: option.splits)
  have b': "bound_channel (chans (rx k') (chan k')) c (conn_fd i) Closing"
    by (rule closed_bound [OF handleClose_own(2) [OF k'(1)]]) (use ch in simp_all)
  show thesis
    using in_conn_ok [where ph = ph and op = "handleClose ret EchoServer_onConnection", OF w st i k(1) k'(1) handleClose_own(1) [OF k'(1)] k'(2) b'] that by blast
qed

text \<open>Destroying a removed connection: its channel leaves the poller, then the objects go.\<close>

lemma destroy_stage:
  assumes w: "world s" and st: "\<And>d. stands s d (ph d)" and i: "objects (ctl s) c = Some i" and p: "ph c = Removed"
  obtains s' where "bind_result (in_conn (connectDestroyed ret EchoServer_onConnection) c s) (\<lambda>s'. Inr (free_conn c s')) = Inr s'"
    and "world s'" and "ctl s' = ctl s" and "\<And>d. stands s' d ((ph(c := Destroyed)) d)"
proof -
  let ?r = "reactors s (conn_loop i)"
  obtain k where k: "conns s c = Some k" and ks: "conn_ok (k\<lparr>rx := ?r\<rparr>)" "cstate k = kDisconnected" using standsD [OF st [of c] i] p by auto
  have use: "reactor_ok ?r" "usable ?r (chan k)" using ks(1) by (simp_all add: conn_ok_def)
  then obtain ch where ch: "chans ?r (chan k) = Some ch" by (auto simp: usable_def split: option.splits)
  from removeChannel_ok [OF use ch, of ret] obtain r' where r': "removeChannel ret (chan k) ?r = Inr r'" "reactor_ok r'"
    "chans r' = (chans ?r)(chan k \<mapsto> ch\<lparr>index := kNew\<rparr>)" by (auto simp: reactor_ok_def)
  define r'' where "r'' = r'\<lparr>chans := (chans r')(chan k := None)\<rparr>"
  have ok'': "reactor_ok r''" unfolding r''_def by (rule reactor_ok_drop) (use r' in simp_all)
  have same: "chans r'' d = (if d = chan k then None else chans ?r d)" for d using r'(3) by (simp add: r''_def)
  have priv: "private_fds r''" using w by (auto simp: world_def private_fds_def same)
  let ?s' = "s\<lparr>conns := (conns s)(c := None), reactors := (reactors s)(conn_loop i := r'')\<rparr>"
  have "connectDestroyed ret EchoServer_onConnection (k\<lparr>rx := ?r\<rparr>) = Inr (k\<lparr>rx := r'\<rparr>)"
    using ks(2) r'(1) by (simp add: connectDestroyed_def on_channel_def)
  from in_conn_Inr [where op = "connectDestroyed ret EchoServer_onConnection", OF i k this]
  have step: "bind_result (in_conn (connectDestroyed ret EchoServer_onConnection) c s) (\<lambda>s'. Inr (free_conn c s')) = Inr ?s'"
    using i by (simp add: free_conn_def Let_def r''_def)
  have up: "world ?s' \<and> (\<forall>d. d \<noteq> c \<longrightarrow> stands ?s' d (ph d))"
  proof (rule world_update [where q = "chan k" and ko = None and s = s and ph = ph and c = c, OF w st ok'' priv])
    show "chan kd \<noteq> chan k" if "d \<noteq> c" "conns s d = Some kd" for d kd using w k that by (auto simp: world_def)
  qed (use i k in \<open>simp_all add: same\<close>)
  moreover have "stands ?s' c Destroyed" using i by (simp add: stands_def)
  ultimately have "stands ?s' d ((ph(c := Destroyed)) d)" for d by simp
  with that [OF step] up show thesis by simp
qed

text \<open>A functor in hand runs without an error, and its connection moves to the next stage.\<close>

lemma sys_exec_ok:
  assumes w: "waiting_ok (ctl s) (Some (l, f))" and m: "map_ok (ctl s)" and f: "f \<noteq> Listen" and wd: "world s"
    and st: "\<forall>d. stands s d (phases (ctl s) d)" and acc: "epoll_accepts ret"
  obtains s' where "sys_exec ret listen_rc f s = Inr s'" and "sys_ok s'" and "ctl s' = exec_functor f (ctl s)"
proof -
  have d: "due (ctl s) l f" using hand_due [OF w f] .
  have c_ok: "waiting_ok (exec_functor f (ctl s)) None" "map_ok (exec_functor f (ctl s))" using exec_ok [OF w m f] by simp_all
  let ?t = "s\<lparr>ctl := exec_functor f (ctl s)\<rparr>"
  have wt: "world ?t" using wd by simp
  have stt: "stands ?t d (phases (ctl s) d)" for d using st by (simp add: stands_ctl)
  have fin: thesis if "sys_exec ret listen_rc f s = Inr s'" "world s'" "ctl s' = exec_functor f (ctl s)" "\<And>d. stands s' d (phases (exec_functor f (ctl s)) d)" for s'
    using that c_ok \<open>\<And>s'. \<lbrakk>sys_exec ret listen_rc f s = Inr s'; sys_ok s'; ctl s' = exec_functor f (ctl s)\<rbrakk> \<Longrightarrow> thesis\<close> by (simp add: sys_ok_def)
  show thesis
  proof (cases f)
    case (Establish c)
    then obtain i where i: "objects (ctl ?t) c = Some i" "phases (ctl s) c = Connecting" using d by (auto simp: loop_of_def)
    obtain s' where s': "in_conn (connectEstablished ret EchoServer_onConnection c) c ?t = Inr s'" "world s'" "ctl s' = ctl ?t"
      "\<And>d. stands s' d (((phases (ctl s))(c := Established)) d)"
      using establish_stage [where ph = "phases (ctl s)", OF wt stt acc i] by blast
    show thesis by (rule fin [of s']) (use s' Establish in simp_all)
  next
    case (RemoveInLoop c)
    then have p: "phases (ctl s) c = Closing" "objects (ctl s) c \<noteq> None" using d by auto
    have ph: "phases (exec_functor f (ctl s)) = (phases (ctl s))(c := Removed)" using RemoveInLoop p(2) by (auto simp: removeConnectionInLoop_def post_def)
    have "stands ?t d (((phases (ctl s))(c := Removed)) d)" for d using stt [of d] p(1) by (auto simp: stands_def bound_channel_def split: option.splits)
    then show thesis by (intro fin [of ?t]) (use RemoveInLoop wt ph in simp_all)
  next
    case (Destroy c)
    then obtain i where i: "objects (ctl ?t) c = Some i" "phases (ctl s) c = Removed" using d by (auto simp: loop_of_def)
    obtain s' where s': "bind_result (in_conn (connectDestroyed ret EchoServer_onConnection) c ?t) (\<lambda>s'. Inr (free_conn c s')) = Inr s'" "world s'" "ctl s' = ctl ?t"
      "\<And>d. stands s' d (((phases (ctl s))(c := Destroyed)) d)"
      using destroy_stage [where ph = "phases (ctl s)" and ret = ret, OF wt stt i] by blast
    show thesis by (rule fin [of s']) (use s' Destroy in simp_all)
  qed (use f in simp)
qed

lemma sys_run_in_loop_ok:
  assumes w: "waiting_ok (ctl s) (Some (dest, f))" and m: "map_ok (ctl s)" and f: "f \<noteq> Listen" and wd: "world s"
    and st: "\<forall>d. stands s d (phases (ctl s) d)" and acc: "epoll_accepts ret"
  obtains s' where "sys_run_in_loop ret cur dest f s = Inr s'" and "sys_ok s'" and "ctl s' = run_in_loop cur dest f (ctl s)"
proof (cases "cur = dest")
  case True
  then show thesis using sys_exec_ok [OF assms, of 0] that by (auto simp: sys_run_in_loop_def run_in_loop_def)
next
  case False
  let ?t = "s\<lparr>ctl := post dest f (ctl s)\<rparr>"
  have "phases (post dest f (ctl s)) = phases (ctl s)" "objects (post dest f (ctl s)) = objects (ctl s)" by (simp_all add: post_def)
  then have "sys_ok ?t" using post_ok [OF w] m wd st by (simp add: sys_ok_def stands_ctl)
  then show thesis using False that [of ?t] by (simp add: sys_run_in_loop_def run_in_loop_def)
qed

text \<open>A connection whose \<open>handleClose\<close> has run, and whose stage has not been recorded yet, is handed to the server.\<close>

lemma sys_removeConnection_ok:
  assumes c: "waiting_ok (ctl t) None" "map_ok (ctl t)" and w: "world t" and acc: "epoll_accepts ret" and i: "objects (ctl t) c = Some i"
    and e: "phases (ctl t) c = Established" and st: "\<And>d. stands t d (((phases (ctl t))(c := Closing)) d)"
  obtains s' where "sys_removeConnection ret c t = Inr s'" and "sys_ok s'" and "ctl s' = connection_closed c (ctl t)"
proof -
  let ?x = "(ctl t)\<lparr>phases := (phases (ctl t))(c := Closing)\<rparr>"
  let ?u = "t\<lparr>ctl := ?x\<rparr>"
  note x = closing_ok [OF c i e refl]
  have "waiting_ok (ctl ?u) (Some (base_loop (ctl t), RemoveInLoop c))" "map_ok (ctl ?u)" using x by simp_all
  moreover have "world ?u" using w by simp
  moreover have "\<forall>d. stands ?u d (phases (ctl ?u) d)" using st by (simp add: stands_ctl)
  ultimately obtain s' where "sys_run_in_loop ret (conn_loop i) (base_loop (ctl t)) (RemoveInLoop c) ?u = Inr s'" "sys_ok s'"
    "ctl s' = run_in_loop (conn_loop i) (base_loop (ctl t)) (RemoveInLoop c) ?x"
    using sys_run_in_loop_ok [where f = "RemoveInLoop c" and s = ?u and cur = "conn_loop i" and ret = ret] acc by auto
  then show ?thesis using that i by (simp add: sys_removeConnection_def connection_closed_def removeConnection_def)
qed

lemma sys_close_ok:
  assumes ok: "sys_ok s" and acc: "epoll_accepts ret" and c: "phases (ctl s) c = Established" "conns s c \<noteq> None"
  obtains s' where "sys_close ret c s = Inr s'" and "sys_ok s'" and "ctl s' = connection_closed c (ctl s)"
proof -
  have st: "stands s d (phases (ctl s) d)" for d using ok by (simp add: sys_ok_def)
  have w: "world s" "waiting_ok (ctl s) None" "map_ok (ctl s)" using ok by (simp_all add: sys_ok_def)
  obtain i where i: "objects (ctl s) c = Some i" using stands_conn [OF st] c(2) by blast
  obtain t where t: "in_conn (handleClose ret EchoServer_onConnection) c s = Inr t" "world t" "ctl t = ctl s"
    "\<And>d. stands t d (((phases (ctl s))(c := Closing)) d)"
    using close_stage [where ph = "phases (ctl s)", OF w(1) st acc i c(1)] by blast
  from sys_removeConnection_ok [of t ret c i] t(2-4) w(2,3) acc i c(1) obtain s' where
    "sys_removeConnection ret c t = Inr s'" "sys_ok s'" "ctl s' = connection_closed c (ctl s)" by auto
  then show ?thesis using that t(1) by (simp add: sys_close_def)
qed

lemma fresh_slot:
  assumes "world s" and "fresh_for s q sfd"
  shows "free_slot (reactors s l) q sfd"
proof -
  have "reactor_ok (reactors s l)" using assms(1) by (simp add: world_def)
  then obtain p where p: "poll_ptr (reactors s l) = Some p" "poller_ok (chans (reactors s l)) p" by (auto simp: reactor_ok_def split: option.splits)
  have "channels p sfd = None"
  proof (rule ccontr)
    assume "channels p sfd \<noteq> None"
    then obtain d where "channels p sfd = Some d" by blast
    then obtain ch where "chans (reactors s l) d = Some ch" "fd ch = sfd" using p(2) unfolding poller_ok_def by blast
    then show False using assms(2) by (auto simp: fresh_for_def)
  qed
  then show ?thesis using p(1) assms(2) by (simp add: free_slot_def fresh_for_def)
qed

lemma sys_newConnection_ok:
  assumes ok: "sys_ok s" and acc: "epoll_accepts ret" and fresh: "fresh_for s q sfd"
    and l: "getNextLoop hf (toIp peer) (thread_pool (ctl s)) = Inr l" and room: "nextConnId (ctl s) \<noteq> 2 ^ 31 - 1"
  obtains s' where "sys_newConnection ret hf wcc q la sfd peer s = Inr s'" and "sys_ok s'" and "newConnection hf sfd peer (ctl s) = Inr (ctl s')"
proof -
  let ?c = "next_object (ctl s)" and ?r = "reactors s l" and ?x = "register_connection l sfd (ctl s)"
  have w: "world s" "waiting_ok (ctl s) None" "map_ok (ctl s)" and st: "\<And>d. stands s d (phases (ctl s) d)" using ok by (simp_all add: sys_ok_def)
  note reg = register_ok [OF w(2,3) room refl, of l sfd]
  have rok: "reactor_ok ?r" "private_fds ?r" using w(1) by (simp_all add: world_def)
  note slot = fresh_slot [OF w(1) fresh, of l]
  obtain k where k: "TcpConnection (Some (?r, loop_fresh)) q (connName (ctl s) (nextConnId (ctl s))) sfd la peer = Inr k" using TcpConnection_Inr by blast
  note kn = TcpConnection_new [OF rok(1) slot k]
  obtain ch where ch: "rx k = ?r\<lparr>chans := (chans ?r)(q \<mapsto> ch)\<rparr>" "fd ch = sfd" "wired ch" "\<not> tied ch" "index ch = kNew" using kn(6) by blast
  let ?k = "setWriteCompleteCallback wcc k"
  have k1: "conn_new ?k" "chan ?k = q" "rx ?k = rx k" using kn(1,2) by simp (simp_all add: setWriteCompleteCallback_def kn(2))
  let ?t = "s\<lparr>ctl := ?x\<rparr>"
  let ?s1 = "?t\<lparr>conns := (conns ?t)(?c \<mapsto> ?k), reactors := (reactors ?t)(l := rx k)\<rparr>"
  have ph: "phases ?x = (phases (ctl s))(?c := Connecting)" and obj: "objects ?x d = (if d = ?c then Some \<lparr>conn_name = connName (ctl s) (nextConnId (ctl s)), conn_loop = l, conn_fd = sfd\<rparr> else objects (ctl s) d)" for d
    by (simp_all add: register_connection_def Let_def)
  have fr: "fd c' \<noteq> fd ch" if "chans ?r q' = Some c'" for q' c' using fresh that ch(2) by (auto simp: fresh_for_def)
  have priv: "private_fds (rx k)" using rok(2) ch(1) fr fr [symmetric] by (auto simp: private_fds_def)
  have none: "objects (ctl s) ?c = None" using map_okD(1) [OF w(3), of ?c] by (cases "objects (ctl s) ?c") auto
  then have noconn: "conns s ?c = None" using st [of ?c] by (simp add: stands_def split: option.splits)
  have sub: "objects (ctl s) \<subseteq>\<^sub>m objects ?x" using none by (auto simp: obj map_le_def)
  have up: "world ?s1 \<and> (\<forall>d. d \<noteq> ?c \<longrightarrow> stands ?s1 d (phases (ctl s) d))"
  proof (rule world_update [where q = q and ko = "Some ?k" and s = ?t and ph = "phases (ctl s)" and c = ?c and r' = "rx k"
        and i = "\<lparr>conn_name = connName (ctl s) (nextConnId (ctl s)), conn_loop = l, conn_fd = sfd\<rparr>"])
    show "stands ?t d (phases (ctl s) d)" if "d \<noteq> ?c" for d using st [of d] that obj by (simp add: stands_ctl)
    show "chan kd \<noteq> q" if dc: "d \<noteq> ?c" and kd: "conns ?t d = Some kd" for d kd
    proof -
      from kd have "conns s d = Some kd" by simp
      from stands_channel [OF st this] show ?thesis using fresh by (auto simp: fresh_for_def)
    qed
    show "reactor_ok (rx k)" using kn(1) by (simp add: conn_new_def)
    show "chans (rx k) d = chans (reactors ?t l) d" if "d \<noteq> q" for d using ch(1) that by simp
    show "world ?t" by (rule world_ctl [OF w(1) sub])
  qed (use priv k1 ch noconn obj in simp_all)
  have "?k\<lparr>rx := rx k\<rparr> = ?k" using k1(3) by (simp flip: k1(3))
  then have "stands ?s1 ?c Connecting" using k1(1,2) obj ch by (simp add: stands_def bound_channel_def)
  then have "\<forall>d. stands ?s1 d (phases (ctl ?s1) d)" using up ph by simp
  moreover have "waiting_ok (ctl ?s1) (Some (l, Establish ?c))" "map_ok (ctl ?s1)" using reg by simp_all
  ultimately obtain s' where s': "sys_run_in_loop ret (base_loop (ctl s)) l (Establish ?c) ?s1 = Inr s'" "sys_ok s'"
    "ctl s' = run_in_loop (base_loop (ctl s)) l (Establish ?c) ?x"
    using sys_run_in_loop_ok [where f = "Establish ?c" and s = ?s1 and cur = "base_loop (ctl s)" and ret = ret] acc up by auto
  have "newConnection hf sfd peer (ctl s) = Inr (ctl s')" using l room s'(3) by (simp add: newConnection_def)
  moreover have "sys_newConnection ret hf wcc q la sfd peer s = Inr s'" using l room k s'(1) by (simp add: sys_newConnection_def Let_def)
  ultimately show thesis using that s'(2) by blast
qed

lemma in_conn_elim:
  assumes "in_conn op c s = Inr s'" and "conns s c = Some k"
  obtains i k' where "objects (ctl s) c = Some i" and "op (k\<lparr>rx := reactors s (conn_loop i)\<rparr>) = Inr k'" and "ctl s' = ctl s"
  using assms by (auto simp: in_conn_def split: option.splits)

lemma traffic_bound:
  assumes b: "bound_channel (chans r q) c f Established" and only: "only_channel still_reading q r r'" and ch': "chans r' q = Some ch'"
  shows "bound_channel (chans r' q) c f Established"
proof -
  obtain ch where ch: "chans r q = Some ch" "still_reading ch ch'" using only ch' unfolding only_channel_def by blast
  have "wired ch' = wired ch" using ch(2) wired_same wiring_weaken by blast
  with b ch ch' show ?thesis by (simp add: bound_channel_def still_reading_def same_tie_def same_wiring_def)
qed

text \<open>Traffic on a connection that is up keeps it up.\<close>

lemma in_conn_up_ok:
  assumes ok: "sys_ok s" and c: "phases (ctl s) c = Established" "conns s c = Some k" and step: "in_conn op c s = Inr s'"
    and op: "\<And>r k'. conn_stage Established (k\<lparr>rx := r\<rparr>) \<Longrightarrow> op (k\<lparr>rx := r\<rparr>) = Inr k' \<Longrightarrow> conn_stage Established k' \<and> own_traffic (k\<lparr>rx := r\<rparr>) k'"
  shows "sys_ok s' \<and> ctl s' = ctl s"
proof -
  have st: "stands s d (phases (ctl s) d)" for d using ok by (simp add: sys_ok_def)
  have w: "world s" "waiting_ok (ctl s) None" "map_ok (ctl s)" using ok by (simp_all add: sys_ok_def)
  obtain i k' where i: "objects (ctl s) c = Some i" and k': "op (k\<lparr>rx := reactors s (conn_loop i)\<rparr>) = Inr k'" using in_conn_elim [OF step c(2)] .
  have "conn_stage Established (k\<lparr>rx := reactors s (conn_loop i)\<rparr>)" and b: "bound_channel (chans (reactors s (conn_loop i)) (chan k)) c (conn_fd i) Established"
    using st [of c] i c by (simp_all add: stands_def)
  from op [OF this(1) k'] have e: "conn_stage Established k'" "own_traffic (k\<lparr>rx := reactors s (conn_loop i)\<rparr>) k'" by simp_all
  obtain ch' where ch': "chans (rx k') (chan k') = Some ch'" by (rule conn_stage_channel [OF e(1)])
  have "only_channel still_reading (chan k) (reactors s (conn_loop i)) (rx k')" "chan k' = chan k" using e(2) by (simp_all add: own_by_def)
  then have b': "bound_channel (chans (rx k') (chan k')) c (conn_fd i) Established" using traffic_bound [OF b] ch' by simp
  obtain t where t: "in_conn op c s = Inr t" "world t" "\<And>d. stands t d (((phases (ctl s))(c := Established)) d)" "ctl t = ctl s"
    using in_conn_ok [where ph = "phases (ctl s)" and op = op, OF w(1) st i c(2) k' own_traffic_effect [OF e(2)] e(1) b'] by blast
  have "(phases (ctl s))(c := Established) = phases (ctl s)" using c(1) by auto
  then show ?thesis using t step w by (simp add: sys_ok_def)
qed

lemma traffic_effect:
  assumes st: "conn_stage Established s" and acc: "epoll_accepts ret" and fits: "op_fits x s" and step: "conn_apply ret EchoServer_onConnection x s = Inr s'"
  shows "conn_stage Established s' \<and> own_traffic s s'"
proof -
  have "conn_ok s" "op_ok x" "writerIndex (outputBuffer s) + length (sent_by (cstate s) [x]) \<le> vec_max_size"
    using st fits by (simp_all add: op_fits_def)
  from conn_apply_ok [OF this(1) acc quiet_echo this(2,3)] step have "conn_ok s'" "cstate s' = next_state x (cstate s)" by auto
  moreover have "next_state x (cstate s) = kConnected \<or> next_state x (cstate s) = kDisconnecting" using st fits by (cases x) (auto simp: op_fits_def)
  ultimately show ?thesis using conn_apply_own [OF step] fits by (simp add: op_fits_def)
qed

lemma echo_effect:
  assumes st: "conn_stage Established s" and acc: "epoll_accepts ret" and fits: "read_fits readv wr data s"
    and step: "handleRead ret readv (EchoServer_onMessage ret wr) EchoServer_onConnection t s = Inr s'"
  shows "conn_stage Established s' \<and> own_traffic s s'"
proof -
  have "conn_ok s" "cstate s = kConnected \<or> cstate s = kDisconnecting" using st by simp_all
  from echo_ok [OF this acc, of wr readv data EchoServer_onConnection t] fits step obtain b where
    s': "TcpConnection_send ret wr (content (inputBuffer s) @ data) (s\<lparr>inputBuffer := b\<rparr>) = Inr s'" "conn_ok s'" "cstate s' = cstate s"
    by (auto simp: read_fits_def)
  have "own_traffic s (s\<lparr>inputBuffer := b\<rparr>)" by (simp add: own_refl(2))
  also have "own_traffic \<dots> s'" by (rule TcpConnection_send_own [OF s'(1)])
  finally show ?thesis using s' st by simp
qed

text \<open>\<open>Listen\<close> is never queued: \<open>start\<close> is called in the main loop's thread.\<close>

definition no_listen :: "'l server \<Rightarrow> bool" where
  "no_listen s \<longleftrightarrow> (\<forall>l. Listen \<notin> set (queues s l))"

lemma no_listen_post: "no_listen s \<Longrightarrow> f \<noteq> Listen \<Longrightarrow> no_listen (post l f s)"
  by (simp add: no_listen_def post_def)

lemma no_listen_exec: "no_listen s \<Longrightarrow> no_listen (exec_functor f s)"
  by (cases f) (auto simp: no_listen_def removeConnectionInLoop_def post_def split: option.splits if_splits)

lemma no_listen_run: "no_listen s \<Longrightarrow> f \<noteq> Listen \<Longrightarrow> no_listen (run_in_loop cur dest f s)"
  by (simp add: run_in_loop_def no_listen_exec no_listen_post)

lemma no_listen_step:
  assumes "server_step hf s t" and "no_listen s"
  shows "no_listen t"
  using assms(1)
proof (cases rule: server_step.cases)
  case (accept rc addr a sfd peer)
  have "no_listen (register_connection l sfd s)" for l using assms(2) by (simp add: no_listen_def register_connection_def Let_def)
  then show ?thesis using accept(2) by (auto simp: newConnection_def no_listen_run split: if_splits)
next
  case (run l f fs)
  have "no_listen (s\<lparr>queues := (queues s)(l := fs)\<rparr>)" using assms(2) run(2) by (auto simp: no_listen_def) (metis list.set_intros(2))
  then show ?thesis unfolding run(1) by (rule no_listen_exec)
next
  case (close c i)
  have "no_listen (s\<lparr>phases := (phases s)(c := Closing)\<rparr>)" using assms(2) by (simp add: no_listen_def)
  then show ?thesis unfolding close(1) by (simp add: connection_closed_def removeConnection_def no_listen_run split: option.split)
qed

text \<open>Each step of the system keeps the invariant, and its control state makes a step of the server or stays as it is.\<close>

lemma sys_step_ok:
  assumes step: "sys_step ret hf wcc s s'" and ok: "sys_ok s" and nl: "no_listen (ctl s)" and acc: "epoll_accepts ret"
  shows "sys_ok s' \<and> (ctl s' = ctl s \<or> server_step hf (ctl s) (ctl s'))"
  using step
proof (cases rule: sys_step.cases)
  case (accept rc addr sfd peer q la)
  obtain l where "getNextLoop hf (toIp peer) (thread_pool (ctl s)) = Inr l" "nextConnId (ctl s) \<noteq> 2 ^ 31 - 1"
    using accept(3) by (auto simp: sys_newConnection_def split: if_splits)
  from sys_newConnection_ok [OF ok acc accept(2) this, of wcc la] accept(3)
  have "sys_ok s'" "newConnection hf sfd peer (ctl s) = Inr (ctl s')" by auto
  then show ?thesis using server_step.accept [OF accept(1)] by blast
next
  case (run l f fs listen_rc)
  let ?x = "(ctl s)\<lparr>queues := (queues (ctl s))(l := fs)\<rparr>"
  have f: "f \<noteq> Listen" using nl run(1) by (auto simp: no_listen_def) (metis list.set_intros(1))
  have c: "waiting_ok (ctl s) None" "map_ok (ctl s)" and w: "world (s\<lparr>ctl := ?x\<rparr>)" using ok by (simp_all add: sys_ok_def)
  note x = popped_ok [OF c run(1) refl]
  have st: "\<forall>d. stands (s\<lparr>ctl := ?x\<rparr>) d (phases (ctl (s\<lparr>ctl := ?x\<rparr>)) d)" using ok by (simp add: sys_ok_def stands_ctl)
  have "waiting_ok (ctl (s\<lparr>ctl := ?x\<rparr>)) (Some (l, f))" "map_ok (ctl (s\<lparr>ctl := ?x\<rparr>))" using x(1) [OF f] x(3) by simp_all
  from sys_exec_ok [OF this f w st acc, of listen_rc] run(2) have "sys_ok s'" "ctl s' = exec_functor f ?x" by auto
  then show ?thesis using server_step.run [OF run(1)] by simp
next
  case (traffic c k x)
  have "sys_ok s' \<and> ctl s' = ctl s"
  proof (rule in_conn_up_ok [OF ok traffic(1,2,4)])
    show "conn_stage Established k' \<and> own_traffic (k\<lparr>rx := r\<rparr>) k'"
      if "conn_stage Established (k\<lparr>rx := r\<rparr>)" "conn_apply ret EchoServer_onConnection x (k\<lparr>rx := r\<rparr>) = Inr k'" for r k'
      using traffic_effect [OF that(1) acc _ that(2)] traffic(3) by (simp add: op_fits_def)
  qed
  then show ?thesis by simp
next
  case (echo c k readv wr data t)
  have "sys_ok s' \<and> ctl s' = ctl s"
  proof (rule in_conn_up_ok [OF ok echo(1,2,4)])
    show "conn_stage Established k' \<and> own_traffic (k\<lparr>rx := r\<rparr>) k'"
      if "conn_stage Established (k\<lparr>rx := r\<rparr>)" "handleRead ret readv (EchoServer_onMessage ret wr) EchoServer_onConnection t (k\<lparr>rx := r\<rparr>) = Inr k'" for r k'
      using echo_effect [OF that(1) acc _ that(2)] echo(3) by (simp add: read_fits_def)
  qed
  then show ?thesis by simp
next
  case (close c)
  have st: "stands s c (phases (ctl s) c)" using ok by (simp add: sys_ok_def)
  obtain i where i: "objects (ctl s) c = Some i" using stands_conn [OF st] close(2) by blast
  from sys_close_ok [OF ok acc close(1,2)] close(3) have "sys_ok s'" "ctl s' = connection_closed c (ctl s)" by auto
  then show ?thesis using server_step.close [OF i close(1)] by simp
qed

section \<open>Starting\<close>

lemma acceptor_reactor_ok:
  assumes ok: "reactor_ok r" and free: "free_slot r q sfd"
    and new: "Acceptor sfd bind_rc q cb reuse r = Inr a" and lst: "Acceptor_listen ret listen_rc (setNewConnectionCallback a) = Inr a'"
  shows "reactor_ok (acc_reactor a')" and "\<exists>ch. fd ch = sfd \<and> \<not> tied ch \<and> only_channel same_tie q (r\<lparr>chans := (chans r)(q \<mapsto> ch)\<rparr>) (acc_reactor a')"
    and "hasNewConnectionCallback a'"
proof -
  let ?ch = "setReadCallback cb (Channel sfd)"
  let ?r0 = "r\<lparr>chans := (chans r)(q \<mapsto> ?ch)\<rparr>"
  have a: "acceptChannel a = q" "acc_reactor a = ?r0"
    using new by (auto simp: Acceptor_def createNonblocking_def bindAddress_def split: if_splits)
  obtain r1 where r1: "change_events ret (\<lambda>e. e OR kReadEvent) q ?r0 = Inr r1" "acc_reactor a' = r1" and cb: "hasNewConnectionCallback a'"
    using lst a by (auto simp: Acceptor_listen_def Socket_listen_def enableReading_def setNewConnectionCallback_def split: if_splits)
  have ch: "fd ?ch = sfd" "events ?ch = 0" "index ?ch = kNew" "\<not> tied ?ch" by (simp_all add: setReadCallback_def Channel_def kNew_def)
  obtain p where p: "poll_ptr r = Some p" "channels p sfd = None" "chans r q = None" using free by (auto simp: free_slot_def split: option.splits)
  note f = fresh_channel_ok [OF ok p(3,1,2) ch(1-3)]
  show "reactor_ok (acc_reactor a')" using change_events_Inr [OF f(1,2) r1(1)] r1(2) by metis
  show "\<exists>ch. fd ch = sfd \<and> \<not> tied ch \<and> only_channel same_tie q (r\<lparr>chans := (chans r)(q \<mapsto> ch)\<rparr>) (acc_reactor a')"
    using change_events_only [OF r1(1)] r1(2) ch(1,4) by blast
  show "hasNewConnectionCallback a'" by (rule cb)
qed

text \<open>The reactors of the loops before the server is built, and a descriptor and an address for the acceptor that none of them has.\<close>

definition loops_ready :: "('l \<Rightarrow> conn_event reactor) \<Rightarrow> ptr \<Rightarrow> int \<Rightarrow> bool" where
  "loops_ready rs q sfd \<longleftrightarrow> (\<forall>m. reactor_ok (rs m) \<and> private_fds (rs m) \<and> free_slot (rs m) q sfd \<and> (\<forall>d ch. chans (rs m) d = Some ch \<longrightarrow> fd ch \<noteq> sfd \<and> \<not> tied ch))"

lemma start_system_ok:
  assumes start: "start_system ret hf startLoop n l addr nm sfd bind_rc listen_rc q rs = Inr s" and ready: "loops_ready rs q sfd"
  shows "sys_ok s" and "no_listen (ctl s)" and "started_server hf startLoop n l addr nm (ctl s)"
proof -
  obtain s0 a a' where s0: "TcpServer (Some l) addr nm = Inr s0" and a: "Acceptor sfd bind_rc q OnRead False (rs l) = Inr a"
    "Acceptor_listen ret listen_rc (setNewConnectionCallback a) = Inr a'"
    and s: "s = \<lparr>ctl = TcpServer_start hf startLoop False l (TcpServer_setThreadNum n s0), server_acceptor = a', conns = Map.empty, reactors = rs(l := acc_reactor a')\<rparr>"
    using start by (auto simp: start_system_def)
  show started: "started_server hf startLoop n l addr nm (ctl s)" using s0 s by (auto simp: started_server_def)
  have e: "base_loop s0 = l" "objects s0 = Map.empty" "queues s0 = (\<lambda>_. [])" using s0 by (auto simp: TcpServer_def CheckLoopNotNull_def)
  then have c: "objects (ctl s) = Map.empty" "queues (ctl s) = (\<lambda>_. [])"
    by (auto simp: s TcpServer_setThreadNum_def TcpServer_start_def run_in_loop_def post_def Let_def)
  show "no_listen (ctl s)" using c(2) by (simp add: no_listen_def)
  have r: "reactor_ok (rs m)" "private_fds (rs m)" "free_slot (rs m) q sfd" and fr: "\<And>d ch. chans (rs m) d = Some ch \<Longrightarrow> fd ch \<noteq> sfd \<and> \<not> tied ch" for m
    using ready by (auto simp: loops_ready_def)
  note acc = acceptor_reactor_ok [OF r(1,3) a]
  obtain ch where ch: "fd ch = sfd" "only_channel same_tie q ((rs l)\<lparr>chans := (chans (rs l))(q \<mapsto> ch)\<rparr>) (acc_reactor a')" "\<not> tied ch" using acc(2) by blast
  have fd1: "fd c' \<noteq> sfd" and fd2: "sfd \<noteq> fd c'" if "chans (rs l) d = Some c'" for d c' using fr [OF that] by auto
  have "private_fds ((rs l)\<lparr>chans := (chans (rs l))(q \<mapsto> ch)\<rparr>)" using r(2) [of l] fd1 fd2 ch(1) by (auto simp: private_fds_def)
  then have "private_fds (acc_reactor a')" using private_only only_effect ch(2) by blast
  moreover have "\<not> tied c'" if "chans (acc_reactor a') d = Some c'" for d c'
    using ch(2,3) fr [of l] that by (cases "d = q") (auto simp: only_channel_def same_tie_def)
  ultimately have "world s" using acc(1) r fr by (auto simp: world_def owned_def s)
  moreover have "stands s d p" for d p using c(1) by (simp add: stands_def s)
  ultimately show "sys_ok s" using started_ok [OF started] by (simp add: sys_ok_def)
qed

lemma system_reach_ok:
  assumes reach: "reach (\<lambda>s. start_system ret hf startLoop n l addr nm sfd bind_rc listen_rc q rs = Inr s) (sys_step ret hf wcc) s"
    and ready: "loops_ready rs q sfd" and acc: "epoll_accepts ret"
  shows "sys_ok s \<and> no_listen (ctl s) \<and> reach (started_server hf startLoop n l addr nm) (server_step hf) (ctl s)"
  using reach
proof (rule reach_invariant)
  fix s assume "start_system ret hf startLoop n l addr nm sfd bind_rc listen_rc q rs = Inr s"
  from start_system_ok [OF this ready] show "sys_ok s \<and> no_listen (ctl s) \<and> reach (started_server hf startLoop n l addr nm) (server_step hf) (ctl s)"
    by (simp add: reach_init)
next
  fix s t assume s: "sys_ok s \<and> no_listen (ctl s) \<and> reach (started_server hf startLoop n l addr nm) (server_step hf) (ctl s)" and st: "sys_step ret hf wcc s t"
  from sys_step_ok [OF st _ _ acc] s have "sys_ok t" "ctl t = ctl s \<or> server_step hf (ctl s) (ctl t)" by simp_all
  then show "sys_ok t \<and> no_listen (ctl t) \<and> reach (started_server hf startLoop n l addr nm) (server_step hf) (ctl t)"
    using s no_listen_step reach_step by metis
qed

section \<open>A running server\<close>

definition sample_system :: "string system result" where
  "sample_system = start_system (\<lambda>n. 0) (\<lambda>x. 1) id 3 ''main'' sample_addr ''Echo'' 3 0 0 1 (\<lambda>m. sample_reactor0)"

lemma sample_ready: "loops_ready (\<lambda>m. sample_reactor0) 1 3"
  using sample_reactor0_ok(1) by (auto simp: loops_ready_def private_fds_def free_slot_def sample_reactor0_def)

lemma newConnection_object:
  assumes "newConnection hf sfd peer s = Inr t"
  shows "objects t (next_object s) \<noteq> None"
proof -
  obtain l where "t = run_in_loop (base_loop s) l (Establish (next_object s)) (register_connection l sfd s)"
    using assms by (auto simp: newConnection_def split: if_splits)
  then show ?thesis by (simp add: run_in_loop_def post_def register_connection_def Let_def)
qed

text \<open>It starts, and accepts a connection whose hash sends it to some loop.\<close>

lemma sample_accepts_one:
  obtains s s' where "sample_system = Inr s" and "sys_step (\<lambda>n. 0) (\<lambda>x. 1) True s s'" and "objects (ctl s') 0 \<noteq> None"
proof -
  obtain s0 where s0: "TcpServer (Some ''main'') sample_addr ''Echo'' = Inr s0"
    using toIpPort_length [of sample_addr] by (auto simp: TcpServer_def CheckLoopNotNull_def toIpPort_def)
  obtain a where a: "Acceptor 3 0 1 OnRead False sample_reactor0 = Inr a" by (simp add: Acceptor_def createNonblocking_def bindAddress_def)
  have slot: "free_slot sample_reactor0 1 3" using sample_ready by (simp add: loops_ready_def)
  obtain a' where a': "Acceptor_listen (\<lambda>n. 0) 0 (setNewConnectionCallback a) = Inr a'"
  proof -
    have "acceptChannel a = 1" "acc_reactor a = sample_reactor0\<lparr>chans := [1 \<mapsto> setReadCallback OnRead (Channel 3)]\<rparr>"
      using a by (auto simp: Acceptor_def createNonblocking_def bindAddress_def sample_reactor0_def)
    then show thesis using that
      by (simp add: Acceptor_listen_def Socket_listen_def setNewConnectionCallback_def enableReading_def change_events_def updateChannel_def
          setReadCallback_def Channel_def kNew_def sample_reactor0_def epoll_update_def Let_def)
  qed
  define s where "s = \<lparr>ctl = TcpServer_start (\<lambda>x. 1) id False ''main'' (TcpServer_setThreadNum 3 s0), server_acceptor = a', conns = Map.empty,
    reactors = (\<lambda>m. sample_reactor0)(''main'' := acc_reactor a')\<rparr>"
  have start: "sample_system = Inr s" using s0 a a' by (simp add: sample_system_def start_system_def s_def)
  note ok = start_system_ok [OF start [unfolded sample_system_def] sample_ready]
  note acc = acceptor_reactor_ok [OF sample_reactor0_ok(1) slot a a']
  obtain ch where ch: "fd ch = 3" "only_channel same_tie 1 (sample_reactor0\<lparr>chans := [1 \<mapsto> ch]\<rparr>) (acc_reactor a')" using acc(2) by (auto simp: sample_reactor0_def)
  have main: "fd c' = 3 \<and> d = 1" if "chans (acc_reactor a') d = Some c'" for d c'
    using ch that by (cases "d = 1") (auto simp: only_channel_def same_tie_def same_wiring_def)
  have fresh: "fresh_for s 2 9"
  proof -
    have "chans (acc_reactor a') 2 = None" using main [of 2] by (cases "chans (acc_reactor a') 2") auto
    then show ?thesis using main by (auto simp: fresh_for_def s_def sample_reactor0_def)
  qed
  have pool: "thread_pool (ctl s) = snd (pool_start (\<lambda>x. 1) id False (setThreadNum (int 3) (EventLoopThreadPool ''main'' ''Echo'')))"
    "nextConnId (ctl s) = 1" "next_object (ctl s) = 0"
    using s0 by (auto simp: s_def TcpServer_def CheckLoopNotNull_def toIpPort_def TcpServer_setThreadNum_def TcpServer_start_def run_in_loop_def Let_def split: if_splits)
  obtain l where l: "getNextLoop (\<lambda>x. 1) (toIp sample_addr) (thread_pool (ctl s)) = Inr l" using pool_choice [OF _ pool(1)] by auto
  obtain s' where s': "sys_newConnection (\<lambda>n. 0) (\<lambda>x. 1) True 2 sample_addr 9 sample_addr s = Inr s'" "newConnection (\<lambda>x. 1) 9 sample_addr (ctl s) = Inr (ctl s')"
    using sys_newConnection_ok [OF ok(1) sample_accepts(1) fresh l, of True sample_addr] pool(2) by auto
  have "Acceptor_handleRead 9 sample_addr (server_acceptor s) = Handed_over 9 sample_addr" using acc(3) by (simp add: s_def Acceptor_handleRead_def Socket_accept_def)
  from sys_step.accept [OF this fresh s'(1)] have "sys_step (\<lambda>n. 0) (\<lambda>x. 1) True s s'" .
  moreover have "objects (ctl s') 0 \<noteq> None"
    using newConnection_object [OF s'(2)] pool(3) by simp
  ultimately show thesis using that start by blast
qed

lemma sample_reach:
  assumes "sample_system = Inr s" and "sys_step (\<lambda>n. 0) (\<lambda>x. 1) True s s'"
  shows "reach (\<lambda>s. start_system (\<lambda>n. 0) (\<lambda>x. 1) id 3 ''main'' sample_addr ''Echo'' 3 0 0 1 (\<lambda>m. sample_reactor0) = Inr s) (sys_step (\<lambda>n. 0) (\<lambda>x. 1) True) s'"
proof -
  let ?init = "\<lambda>s. start_system (\<lambda>n. 0) (\<lambda>x. 1) id 3 ''main'' sample_addr ''Echo'' 3 0 0 1 (\<lambda>m. sample_reactor0) = Inr s"
  have "?init s" using assms(1) by (simp add: sample_system_def)
  from reach_step [where init = ?init and step = "sys_step (\<lambda>n. 0) (\<lambda>x. 1) True" and s = s and t = s', OF reach_init [where init = ?init, OF this] assms(2)]
  show ?thesis .
qed

section \<open>Properties\<close>

text \<open>
  C6: The system of acceptor, loops, reactors and connection objects refines the server's control state: each of its reachable states projects to
  a reachable state of the server, in which each functor finds its connection at the stage it is made for.
\<close>

theorem system_refines_server:
  assumes "reach (\<lambda>s. start_system ret hf startLoop n l addr nm sfd bind_rc listen_rc q rs = Inr s) (sys_step ret hf wcc) s"
    and "loops_ready rs q sfd" and "epoll_accepts ret"
  shows "reach (started_server hf startLoop n l addr nm) (server_step hf) (ctl s) \<and>
    (\<forall>c i k. objects (ctl s) c = Some i \<and> conns s c = Some k \<longrightarrow>
       cstate k = (case phases (ctl s) c of Connecting \<Rightarrow> kConnecting | Established \<Rightarrow> if cstate k = kDisconnecting then kDisconnecting else kConnected
                   | _ \<Rightarrow> kDisconnected)) \<and>
    (\<forall>c i. objects (ctl s) c = Some i \<longrightarrow> (conns s c = None \<longleftrightarrow> phases (ctl s) c = Destroyed))"
proof -
  have ok: "sys_ok s" "reach (started_server hf startLoop n l addr nm) (server_step hf) (ctl s)" using system_reach_ok [OF assms] by simp_all
  have st: "stands s c (phases (ctl s) c)" for c using ok(1) by (simp add: sys_ok_def)
  have "cstate k = (case phases (ctl s) c of Connecting \<Rightarrow> kConnecting | Established \<Rightarrow> if cstate k = kDisconnecting then kDisconnecting else kConnected
      | _ \<Rightarrow> kDisconnected)" if "objects (ctl s) c = Some i" "conns s c = Some k" for c i k
    using st [of c] that by (cases "phases (ctl s) c") (auto simp: stands_def conn_new_def)
  moreover have "conns s c = None \<longleftrightarrow> phases (ctl s) c = Destroyed" if "objects (ctl s) c = Some i" for c i
    using st [of c] that by (cases "conns s c") (auto simp: stands_def)
  ultimately show ?thesis using ok(2) by blast
qed

text \<open>
  C5: No step of a running server fails. Whatever the interleaving, the functor a loop takes from its queue runs without an error (no null
  connection, no refused change of the interest list), a peer's close is handled without an error, every call of \<^verbatim>\<open>epoll_ctl\<close> in every loop was
  legal, and every descriptor the kernel watches belongs to a channel that is still alive.
\<close>

theorem system_never_fails:
  assumes "reach (\<lambda>s. start_system ret hf startLoop n l addr nm sfd bind_rc listen_rc q rs = Inr s) (sys_step ret hf wcc) s"
    and "loops_ready rs q sfd" and "epoll_accepts ret"
  shows "(\<forall>m f fs. queues (ctl s) m = f # fs \<longrightarrow>
       (\<exists>s'. sys_exec ret listen_rc' f (s\<lparr>ctl := (ctl s)\<lparr>queues := (queues (ctl s))(m := fs)\<rparr>\<rparr>) = Inr s')) \<and>
    (\<forall>c. phases (ctl s) c = Established \<and> conns s c \<noteq> None \<longrightarrow> (\<exists>s'. sys_close ret c s = Inr s')) \<and>
    (\<forall>m. \<exists>p. poll_ptr (reactors s m) = Some p \<and> legal_calls (ctl_calls p) \<and>
       (\<forall>f e d. interest (ctl_calls p) f = Some (e, d) \<longrightarrow> (\<exists>ch. chans (reactors s m) d = Some ch \<and> fd ch = f \<and> events ch = e)))"
proof -
  have ok: "sys_ok s" "no_listen (ctl s)" using system_reach_ok [OF assms] by simp_all
  have c: "waiting_ok (ctl s) None" "map_ok (ctl s)" "world s" using ok(1) by (simp_all add: sys_ok_def)
  have "\<exists>s'. sys_exec ret listen_rc' f (s\<lparr>ctl := (ctl s)\<lparr>queues := (queues (ctl s))(m := fs)\<rparr>\<rparr>) = Inr s'" if q: "queues (ctl s) m = f # fs" for m f fs
  proof -
    let ?x = "(ctl s)\<lparr>queues := (queues (ctl s))(m := fs)\<rparr>"
    have f: "f \<noteq> Listen" using ok(2) q by (auto simp: no_listen_def) (metis list.set_intros(1))
    note x = popped_ok [OF c(1,2) q refl]
    have "waiting_ok (ctl (s\<lparr>ctl := ?x\<rparr>)) (Some (m, f))" "map_ok (ctl (s\<lparr>ctl := ?x\<rparr>))" using x(1) [OF f] x(3) by simp_all
    moreover have "world (s\<lparr>ctl := ?x\<rparr>)" "\<forall>d. stands (s\<lparr>ctl := ?x\<rparr>) d (phases (ctl (s\<lparr>ctl := ?x\<rparr>)) d)" using ok(1) by (simp_all add: sys_ok_def stands_ctl)
    ultimately show ?thesis using sys_exec_ok [OF _ _ f _ _ assms(3), of "s\<lparr>ctl := ?x\<rparr>" m listen_rc'] by blast
  qed
  moreover have "\<exists>s'. sys_close ret c s = Inr s'" if "phases (ctl s) c = Established" "conns s c \<noteq> None" for c
    using sys_close_ok [OF ok(1) assms(3) that] by blast
  moreover have "\<exists>p. poll_ptr (reactors s m) = Some p \<and> legal_calls (ctl_calls p) \<and>
       (\<forall>f e d. interest (ctl_calls p) f = Some (e, d) \<longrightarrow> (\<exists>ch. chans (reactors s m) d = Some ch \<and> fd ch = f \<and> events ch = e))" for m
  proof -
    have "reactor_ok (reactors s m)" using c(3) by (simp add: world_def)
    then obtain p where p: "poll_ptr (reactors s m) = Some p" "poller_ok (chans (reactors s m)) p" by (auto simp: reactor_ok_def split: option.splits)
    then show ?thesis unfolding poller_ok_def by (intro exI [of _ p]) blast
  qed
  ultimately show ?thesis by blast
qed

theorem system_refines_server_witness:
  "\<exists>s s'. sample_system = Inr s \<and> sys_step (\<lambda>n. 0) (\<lambda>x. 1) True s s' \<and> objects (ctl s') 0 \<noteq> None \<and>
     reach (started_server (\<lambda>x. 1) id 3 ''main'' sample_addr ''Echo'') (server_step (\<lambda>x. 1)) (ctl s')"
proof -
  obtain s s' where s: "sample_system = Inr s" "sys_step (\<lambda>n. 0) (\<lambda>x. 1) True s s'" "objects (ctl s') 0 \<noteq> None" using sample_accepts_one .
  from system_refines_server [OF sample_reach [OF s(1,2)] sample_ready sample_accepts(1)] s show ?thesis by blast
qed

theorem system_never_fails_witness:
  "\<exists>s s'. sample_system = Inr s \<and> sys_step (\<lambda>n. 0) (\<lambda>x. 1) True s s' \<and> objects (ctl s') 0 \<noteq> None \<and>
     (\<forall>m. \<exists>p. poll_ptr (reactors s' m) = Some p \<and> legal_calls (ctl_calls p))"
proof -
  obtain s s' where s: "sample_system = Inr s" "sys_step (\<lambda>n. 0) (\<lambda>x. 1) True s s'" "objects (ctl s') 0 \<noteq> None" using sample_accepts_one .
  from system_never_fails [OF sample_reach [OF s(1,2)] sample_ready sample_accepts(1)] s show ?thesis by blast
qed

end
