(* ===== verification/ReactorRounds.thy ===== *)
theory ReactorRounds
  imports ServerSystem
begin

text \<open>
  The rounds of all event loops over the whole server: \<^verbatim>\<open>EventLoop::loop\<close> polls, hands each returned channel its events through
  \<^verbatim>\<open>Channel::handleEvent\<close> and the member functions bound to it, and runs the functors that wait. Between any two of these steps of one loop the other
  loops make theirs. The list of active channels holds bare pointers; the theory shows that none of them dangles when its turn comes.
\<close>

section \<open>Dispatch\<close>

text \<open>
  The member function of a connection behind each callback of its channel; \<open>rd\<close> is what \<^verbatim>\<open>readv\<close> returns, \<open>wr ev\<close> what a \<^verbatim>\<open>write\<close> returns that is made
  in the callback \<open>ev\<close>.
\<close>

fun conn_member ::
    "(nat \<Rightarrow> int) \<Rightarrow> (nat list \<Rightarrow> int + string) \<Rightarrow> (conn_event \<Rightarrow> string \<Rightarrow> int + nat) \<Rightarrow> int \<Rightarrow> conn_event \<Rightarrow> tcp_conn \<Rightarrow> tcp_conn result" where
  "conn_member ret rd wr t OnRead k = handleRead ret rd (EchoServer_onMessage ret (wr OnRead)) EchoServer_onConnection t k"
| "conn_member ret rd wr t OnWrite k = handleWrite ret (wr OnWrite) k"
| "conn_member ret rd wr t OnClose k = handleClose ret EchoServer_onConnection k"
| "conn_member ret rd wr t OnError k = Inr (handleError k)"

text \<open>
  A callback of the connection \<open>c\<close>. When it has closed the connection, the last thing it did was to call the close callback the server gave it.
\<close>

definition close_calls :: "tcp_conn \<Rightarrow> nat" where
  "close_calls k = count_list (user_calls k) CloseCall"

definition conn_callback ::
    "(nat \<Rightarrow> int) \<Rightarrow> (nat list \<Rightarrow> int + string) \<Rightarrow> (conn_event \<Rightarrow> string \<Rightarrow> int + nat) \<Rightarrow> nat \<Rightarrow> conn_event \<Rightarrow> int \<Rightarrow> 'l system \<Rightarrow> 'l system result" where
  "conn_callback ret rd wr c ev t s =
     bind_result (in_conn (conn_member ret rd wr t ev) c s) (\<lambda>s'.
       case (conns s c, conns s' c) of
         (Some k, Some k') \<Rightarrow> if close_calls k < close_calls k' then sys_removeConnection ret c s' else Inr s'
       | _ \<Rightarrow> Inl Use_after_free)"

text \<open>
  The read callback of the acceptor, with what \<^verbatim>\<open>accept4\<close> returns, the address of the channel that is allocated and what \<^verbatim>\<open>getsockname\<close>
  returns for the new connection.
\<close>

type_synonym accept_env = "int \<times> sockaddr_in \<times> ptr \<times> sockaddr_in"

definition acceptor_callback ::
    "(nat \<Rightarrow> int) \<Rightarrow> (string \<Rightarrow> nat) \<Rightarrow> bool \<Rightarrow> accept_env \<Rightarrow> conn_event \<Rightarrow> int \<Rightarrow> 'l system \<Rightarrow> 'l system result" where
  "acceptor_callback ret hf wcc = (\<lambda>(rc, addr, q, la) ev t s.
     case Acceptor_handleRead rc addr (server_acceptor s) of
       Handed_over sfd peer \<Rightarrow> sys_newConnection ret hf wcc q la sfd peer s
     | Closed_again sfd \<Rightarrow> Inr s
     | Accept_failed \<Rightarrow> Inr s)"

text \<open>
  \<^verbatim>\<open>handleEvent\<close> of the channel at \<open>q\<close> in the loop \<open>l\<close>. The callbacks of the acceptor's channel are bound to the acceptor, those of a tied channel to
  the connection it is tied to; the channels that a loop makes for itself (its wake-up channel) do nothing to the server. A pointer to
  a channel that has been destroyed is an error.
\<close>

definition sys_handle ::
    "(nat \<Rightarrow> int) \<Rightarrow> (string \<Rightarrow> nat) \<Rightarrow> bool \<Rightarrow> (nat list \<Rightarrow> int + string) \<Rightarrow> (conn_event \<Rightarrow> string \<Rightarrow> int + nat) \<Rightarrow> accept_env \<Rightarrow> int \<Rightarrow>
     'l \<Rightarrow> ptr \<Rightarrow> 'l system \<Rightarrow> 'l system result" where
  "sys_handle ret hf wcc rd wr env t l q s =
     (case chans (reactors s l) q of None \<Rightarrow> Inl Use_after_free
      | Some ch \<Rightarrow>
          handleEvent
            (if l = base_loop (ctl s) \<and> q = acceptChannel (server_acceptor s) then acceptor_callback ret hf wcc env
             else if tied ch then conn_callback ret rd wr (tie ch)
             else (\<lambda>ev t. Inr))
            (\<lambda>obj s. conns s obj \<noteq> None) t ch s)"

section \<open>Rounds\<close>

text \<open>
  Where a loop is: in \<^verbatim>\<open>epoll_wait\<close>, handling the active channels that are left, running the functors it has swapped out of its queue. Other
  threads only append to the queue, so the functors swapped out are its first ones; the loop counts those it has left to run.
\<close>

datatype round_pc = InPoll | InDispatch "ptr list" | InFunctors nat

text \<open>
  \<open>closed_twice\<close> is a history variable. With an event mask that has \<open>EPOLLHUP\<close> and \<open>EPOLLPRI\<close> and not \<open>EPOLLIN\<close> a channel's close callback and its read callback
  both run; when the read then finds the end of the stream, \<^verbatim>\<open>handleClose\<close> runs a second time and registers the channel again. The variable says
  whether a connection has been closed twice in this way.
\<close>

record 'l rounds =
  whole :: "'l system"
  round_at :: "'l \<Rightarrow> round_pc"
  closed_twice :: bool

definition closed_again :: "'l \<Rightarrow> ptr \<Rightarrow> 'l system \<Rightarrow> 'l system \<Rightarrow> bool" where
  "closed_again l q s s' =
     (case chans (reactors s l) q of None \<Rightarrow> False
      | Some ch \<Rightarrow> tied ch \<and> (case (conns s (tie ch), conns s' (tie ch)) of (Some k, Some k') \<Rightarrow> close_calls k + 2 \<le> close_calls k' | _ \<Rightarrow> False))"

text \<open>The masks with which no channel is closed twice.\<close>

definition mask_ok :: "ev \<Rightarrow> bool" where
  "mask_ok e \<longleftrightarrow> \<not> (bit e 4 \<and> \<not> bit e 0 \<and> bit e 1)"

definition outcome_ok :: "conn_event reactor \<Rightarrow> int + (ev \<times> ptr) list \<Rightarrow> bool" where
  "outcome_ok r res = (case res of Inl errno \<Rightarrow> True | Inr es \<Rightarrow> wait_contract r es)"

text \<open>
  The results of the system calls made while a channel is handled are ones the kernel can give, what is read fits the buffers, an accepted descriptor and
  the memory of a new channel are not in use, and the counter of connections has not reached its maximum.
\<close>

definition conn_fits :: "(nat list \<Rightarrow> int + string) \<Rightarrow> tcp_conn \<Rightarrow> bool" where
  "conn_fits rd k \<longleftrightarrow> length (storage (inputBuffer k)) + extrabuf_size \<le> vec_max_size \<and>
     (\<forall>data. rd (read_iov (inputBuffer k)) = Inr data \<longrightarrow> length (content (inputBuffer k) @ data) \<le> vec_max_size - writerIndex (outputBuffer k))"

definition event_fits ::
    "(nat list \<Rightarrow> int + string) \<Rightarrow> (conn_event \<Rightarrow> string \<Rightarrow> int + nat) \<Rightarrow> accept_env \<Rightarrow> ptr \<Rightarrow> 'l system \<Rightarrow> bool" where
  "event_fits rd wr env q s \<longleftrightarrow> readv_contract rd \<and> (\<forall>ev. write_contract (wr ev)) \<and>
     (\<forall>c k. conns s c = Some k \<and> chan k = q \<longrightarrow> conn_fits rd k) \<and>
     (case env of (rc, addr, q', la) \<Rightarrow> 0 \<le> rc \<longrightarrow> fresh_for s q' rc) \<and> nextConnId (ctl s) < 2 ^ 31 - 1"

inductive round_step :: "(nat \<Rightarrow> int) \<Rightarrow> (string \<Rightarrow> nat) \<Rightarrow> bool \<Rightarrow> 'l rounds \<Rightarrow> 'l rounds \<Rightarrow> bool" for ret hf wcc where
  polled: "round_at w l = InPoll \<Longrightarrow> outcome_ok (reactors (whole w) l) res \<Longrightarrow> poll res (reactors (whole w) l) = Inr (active, r) \<Longrightarrow>
    round_step ret hf wcc w (w\<lparr>whole := (whole w)\<lparr>reactors := (reactors (whole w))(l := r)\<rparr>, round_at := (round_at w)(l := InDispatch active)\<rparr>)"
| handled: "round_at w l = InDispatch (q # qs) \<Longrightarrow> event_fits rd wr env q (whole w) \<Longrightarrow> sys_handle ret hf wcc rd wr env t l q (whole w) = Inr s' \<Longrightarrow>
    round_step ret hf wcc w (w\<lparr>whole := s', round_at := (round_at w)(l := InDispatch qs), closed_twice := (closed_twice w \<or> closed_again l q (whole w) s')\<rparr>)"
| swapped: "round_at w l = InDispatch [] \<Longrightarrow>
    round_step ret hf wcc w (w\<lparr>round_at := (round_at w)(l := InFunctors (length (queues (ctl (whole w)) l)))\<rparr>)"
| ran: "round_at w l = InFunctors (Suc n) \<Longrightarrow> queues (ctl (whole w)) l = f # fs \<Longrightarrow>
    sys_exec ret listen_rc f ((whole w)\<lparr>ctl := (ctl (whole w))\<lparr>queues := (queues (ctl (whole w)))(l := fs)\<rparr>\<rparr>) = Inr s' \<Longrightarrow>
    round_step ret hf wcc w (w\<lparr>whole := s', round_at := (round_at w)(l := InFunctors n)\<rparr>)"
| finished: "round_at w l = InFunctors 0 \<Longrightarrow> round_step ret hf wcc w (w\<lparr>round_at := (round_at w)(l := InPoll)\<rparr>)"

inductive_cases round_stepE: "round_step ret hf wcc w w'"

text \<open>The server has been started and all loops are about to poll.\<close>

definition rounds_start ::
    "(nat \<Rightarrow> int) \<Rightarrow> (string \<Rightarrow> nat) \<Rightarrow> (string \<Rightarrow> 'l) \<Rightarrow> int \<Rightarrow> 'l \<Rightarrow> sockaddr_in \<Rightarrow> string \<Rightarrow> int \<Rightarrow> int \<Rightarrow> int \<Rightarrow> ptr \<Rightarrow>
     ('l \<Rightarrow> conn_event reactor) \<Rightarrow> 'l rounds \<Rightarrow> bool" where
  "rounds_start ret hf startLoop n l addr nm sfd bind_rc listen_rc q rs w \<longleftrightarrow>
     start_system ret hf startLoop n l addr nm sfd bind_rc listen_rc q rs = Inr (whole w) \<and> round_at w = (\<lambda>m. InPoll) \<and> \<not> closed_twice w"

section \<open>What a step leaves alone\<close>

text \<open>
  A step on the connection \<open>c\<close> and the channel \<open>q\<close> of the loop \<open>l\<close> leaves all other channels and connections as they are; queues
  only grow.
\<close>

definition others_kept :: "nat \<Rightarrow> 'l \<Rightarrow> ptr \<Rightarrow> 'l system \<Rightarrow> 'l system \<Rightarrow> bool" where
  "others_kept c l q s s' \<longleftrightarrow> base_loop (ctl s') = base_loop (ctl s) \<and> thread_pool (ctl s') = thread_pool (ctl s) \<and> server_acceptor s' = server_acceptor s \<and>
     (\<forall>m d ch. (m, d) \<noteq> (l, q) \<longrightarrow> chans (reactors s m) d = Some ch \<longrightarrow> chans (reactors s' m) d = Some ch) \<and>
     (\<forall>d i. d \<noteq> c \<longrightarrow> objects (ctl s) d = Some i \<longrightarrow> objects (ctl s') d = Some i \<and> phases (ctl s') d = phases (ctl s) d \<and> conns s' d = conns s d) \<and>
     (\<forall>m. \<exists>fs. queues (ctl s') m = queues (ctl s) m @ fs)"

lemma others_kept_refl [simp]: "others_kept c l q s s"
  by (simp add: others_kept_def)

lemma others_kept_trans: 
  assumes "others_kept c l q s t" and "others_kept c l q t u"
  shows "others_kept c l q s u"
proof -
  have "\<exists>fs. queues (ctl u) m = queues (ctl s) m @ fs" for m using assms unfolding others_kept_def by (metis append_assoc)
  then show ?thesis using assms unfolding others_kept_def by simp
qed

lemma in_conn_kept:
  assumes step: "in_conn op c s = Inr s'" and i: "objects (ctl s) c = Some i" and k: "conns s c = Some k"
    and own: "\<And>k'. op (k\<lparr>rx := reactors s (conn_loop i)\<rparr>) = Inr k' \<Longrightarrow> own_effect (k\<lparr>rx := reactors s (conn_loop i)\<rparr>) k'"
  shows "others_kept c (conn_loop i) (chan k) s s'" and "ctl s' = ctl s"
proof -
  obtain k' where k': "op (k\<lparr>rx := reactors s (conn_loop i)\<rparr>) = Inr k'"
    "s' = s\<lparr>conns := (conns s)(c \<mapsto> k'), reactors := (reactors s)(conn_loop i := rx k')\<rparr>" using step i k by (auto simp: in_conn_def)
  have "chans (rx k') d = chans (reactors s (conn_loop i)) d" if "d \<noteq> chan k" for d
    using own [OF k'(1)] that by (simp add: own_by_def only_channel_def)
  then show "others_kept c (conn_loop i) (chan k) s s'" by (auto simp: others_kept_def k'(2))
  show "ctl s' = ctl s" by (simp add: k'(2))
qed

fun subject :: "server_functor \<Rightarrow> nat" where
  "subject Listen = 0"
| "subject (Establish c) = c"
| "subject (RemoveInLoop c) = c"
| "subject (Destroy c) = c"

lemma exec_functor_kept:
  "base_loop (exec_functor f x) = base_loop x" "thread_pool (exec_functor f x) = thread_pool x"
  "f \<noteq> Listen \<Longrightarrow> d \<noteq> subject f \<Longrightarrow> phases (exec_functor f x) d = phases x d" "\<exists>fs. queues (exec_functor f x) m = queues x m @ fs"
  by (cases f; auto simp: removeConnectionInLoop_def post_def split: option.split)+

lemma ctl_kept:
  assumes "base_loop x = base_loop (ctl s)" and "thread_pool x = thread_pool (ctl s)" and "\<And>d i. objects (ctl s) d = Some i \<Longrightarrow> d \<noteq> c \<Longrightarrow> objects x d = Some i"
    and "\<And>d i. objects (ctl s) d = Some i \<Longrightarrow> d \<noteq> c \<Longrightarrow> phases x d = phases (ctl s) d" and "\<And>m. \<exists>fs. queues x m = queues (ctl s) m @ fs"
  shows "others_kept c l q s (s\<lparr>ctl := x\<rparr>)"
  using assms by (simp add: others_kept_def)

lemma exec_ctl_kept: "f \<noteq> Listen \<Longrightarrow> others_kept (subject f) l q s (s\<lparr>ctl := exec_functor f (ctl s)\<rparr>)"
  by (rule ctl_kept) (simp_all add: exec_functor_kept)

lemma connectDestroyed_own: "connectDestroyed ret EchoServer_onConnection s = Inr s' \<Longrightarrow> own_effect s s'"
proof -
  assume a: "connectDestroyed ret EchoServer_onConnection s = Inr s'"
  obtain t where t: "(if cstate s = kConnected
        then bind_result (on_channel (disableAll ret) (s\<lparr>cstate := kDisconnected\<rparr>)) (connection_call EchoServer_onConnection) else Inr s) = Inr t"
    "on_channel (removeChannel ret) t = Inr s'" using a by (auto simp: connectDestroyed_def)
  have r: "own_effect u u'" if "on_channel (removeChannel ret) u = Inr u'" for u u'
    using that only_effect [OF removeChannel_only] by (auto simp: on_channel_def own_by_def)
  have "own_effect s t"
  proof (cases "cstate s = kConnected")
    case True
    then obtain u where u: "on_channel (disableAll ret) (s\<lparr>cstate := kDisconnected\<rparr>) = Inr u" "chan t = chan u" "rx t = rx u"
      using t(1) by (auto simp: connection_call_def EchoServer_onConnection_def)
    have "own_effect s (s\<lparr>cstate := kDisconnected\<rparr>)" by (simp add: own_refl)
    also have "own_effect \<dots> u" using u(1) on_channel_own unfolding disableAll_def by blast
    also have "own_effect u t" using u by (simp add: own_refl)
    finally show ?thesis .
  qed (use t(1) in \<open>simp add: own_refl\<close>)
  also have "own_effect t s'" using r t(2) by blast
  finally show ?thesis .
qed

text \<open>A functor works on one connection, whose channel lies in the loop that runs it and is not the acceptor's.\<close>

definition acceptor_bound :: "'l system \<Rightarrow> bool" where
  "acceptor_bound s \<longleftrightarrow> (\<exists>ch. chans (reactors s (base_loop (ctl s))) (acceptChannel (server_acceptor s)) = Some ch \<and>
     \<not> tied ch \<and> readCallback ch = Some OnRead \<and> writeCallback ch = None \<and> closeCallback ch = None \<and> errorCallback ch = None)"

lemma acceptor_apart:
  assumes "acceptor_bound s" and "bound_channel (chans (reactors s l) q) c f p"
  shows "(base_loop (ctl s), acceptChannel (server_acceptor s)) \<noteq> (l, q)"
  using assms by (auto simp: acceptor_bound_def bound_channel_def wired_def)

lemma acceptor_bound_kept:
  assumes "acceptor_bound s" and "others_kept c l q s s'" and "(base_loop (ctl s), acceptChannel (server_acceptor s)) \<noteq> (l, q)"
  shows "acceptor_bound s'"
  using assms unfolding acceptor_bound_def others_kept_def by metis

lemma stands_object:
  assumes "stands s c p" and "objects (ctl s) c = Some i" and "p \<noteq> Destroyed"
  obtains k where "conns s c = Some k" and "conn_stage p (k\<lparr>rx := reactors s (conn_loop i)\<rparr>)"
    and "bound_channel (chans (reactors s (conn_loop i)) (chan k)) c (conn_fd i) p"
  using standsD [OF assms] by blast

lemma in_conn_then_free:
  assumes "in_conn op c s = Inr t" and "objects (ctl s) c = Some i" and "conns s c = Some k" and own: "\<And>k k'. op k = Inr k' \<Longrightarrow> own_effect k k'"
  shows "others_kept c (conn_loop i) (chan k) s (free_conn c t)"
proof -
  have kept: "others_kept c (conn_loop i) (chan k) s t" "ctl t = ctl s" using in_conn_kept [OF assms(1-3)] own by blast+
  obtain k' where k': "conns t c = Some k'" "chan k' = chan k" using assms by (auto simp: in_conn_def own_by_def)
  have "others_kept c (conn_loop i) (chan k) t (free_conn c t)"
    using k' assms(2) kept(2) by (auto simp: others_kept_def free_conn_def Let_def)
  from others_kept_trans [OF kept(1) this] show ?thesis .
qed

lemma functor_kept:
  assumes w: "waiting_ok (ctl s) (Some (l, f))" and f: "f \<noteq> Listen" and st: "\<forall>d. stands s d (phases (ctl s) d)" and a: "acceptor_bound s"
    and step: "sys_exec ret listen_rc f s = Inr s'"
  shows "\<exists>q. others_kept (subject f) l q s s' \<and> (base_loop (ctl s), acceptChannel (server_acceptor s)) \<noteq> (l, q) \<and> phases (ctl s) (subject f) \<noteq> Established"
proof -
  have d: "due (ctl s) l f" using hand_due [OF w f] .
  let ?t = "s\<lparr>ctl := exec_functor f (ctl s)\<rparr>"
  have sts: "stands s c (phases (ctl s) c)" for c using st by blast
  show ?thesis
  proof (cases f)
    case (Establish c)
    then obtain i where i: "objects (ctl s) c = Some i" "conn_loop i = l" "phases (ctl s) c = Connecting" using d by (auto simp: loop_of_def)
    obtain k where k: "conns s c = Some k" "bound_channel (chans (reactors s (conn_loop i)) (chan k)) c (conn_fd i) Connecting"
      using stands_object [OF sts [of c, unfolded i(3)] i(1)] by blast
    have step': "in_conn (connectEstablished ret EchoServer_onConnection c) c ?t = Inr s'" using step Establish by simp
    have "others_kept c (conn_loop i) (chan k) ?t s'"
      by (rule in_conn_kept(1) [OF step' _ _ connectEstablished_own(1)]) (use i k Establish in simp_all)
    moreover have "others_kept c (conn_loop i) (chan k) s ?t" using exec_ctl_kept [OF f] Establish by (metis subject.simps(2))
    ultimately have "others_kept c l (chan k) s s'" using others_kept_trans i(2) by metis
    then show ?thesis using acceptor_apart [OF a k(2)] i(2,3) Establish by auto
  next
    case (RemoveInLoop c)
    have "others_kept c l (Suc (acceptChannel (server_acceptor s))) s s'" using exec_ctl_kept [OF f] RemoveInLoop step by (metis Inr_inject subject.simps(3) sys_exec.simps(3))
    then show ?thesis using RemoveInLoop d by fastforce
  next
    case (Destroy c)
    then obtain i where i: "objects (ctl s) c = Some i" "conn_loop i = l" "phases (ctl s) c = Removed" using d by (auto simp: loop_of_def)
    obtain k where k: "conns s c = Some k" "bound_channel (chans (reactors s (conn_loop i)) (chan k)) c (conn_fd i) Removed"
      using stands_object [OF sts [of c, unfolded i(3)] i(1)] by blast
    obtain u where u: "in_conn (connectDestroyed ret EchoServer_onConnection) c ?t = Inr u" "s' = free_conn c u" using step Destroy by auto
    have "others_kept c (conn_loop i) (chan k) ?t s'"
      unfolding u(2) by (rule in_conn_then_free [OF u(1) _ _ connectDestroyed_own]) (use i k Destroy in simp_all)
    moreover have "others_kept c (conn_loop i) (chan k) s ?t" using exec_ctl_kept [OF f] Destroy by (metis subject.simps(4))
    ultimately have "others_kept c l (chan k) s s'" using others_kept_trans i(2) by metis
    then show ?thesis using acceptor_apart [OF a k(2)] i(2,3) Destroy by auto
  qed (use f in simp)
qed

section \<open>Active channels\<close>

text \<open>The connection \<open>c\<close> is up and \<open>q\<close> is its channel in the loop \<open>l\<close>.\<close>

definition up_conn :: "'l system \<Rightarrow> 'l \<Rightarrow> ptr \<Rightarrow> nat \<Rightarrow> bool" where
  "up_conn s l q c \<longleftrightarrow> phases (ctl s) c = Established \<and>
     (case (objects (ctl s) c, conns s c) of (Some i, Some k) \<Rightarrow> conn_loop i = l \<and> chan k = q | _ \<Rightarrow> False)"

text \<open>A channel in the list of active channels is alive, and when it is tied its connection is up.\<close>

definition active_ok :: "'l system \<Rightarrow> 'l \<Rightarrow> ptr \<Rightarrow> bool" where
  "active_ok s l q \<longleftrightarrow> (case chans (reactors s l) q of None \<Rightarrow> False | Some ch \<Rightarrow> tied ch \<longrightarrow> up_conn s l q (tie ch))"

lemma active_ok_queues: "active_ok (s\<lparr>ctl := (ctl s)\<lparr>queues := qs\<rparr>\<rparr>) m d = active_ok s m d"
proof -
  have "up_conn (s\<lparr>ctl := (ctl s)\<lparr>queues := qs\<rparr>\<rparr>) m d = up_conn s m d" by (intro ext) (simp add: up_conn_def)
  then show ?thesis by (simp add: active_ok_def cong: option.case_cong)
qed

lemma active_ok_elsewhere:
  assumes "m \<noteq> l"
  shows "active_ok (s\<lparr>reactors := (reactors s)(l := r)\<rparr>) m d = active_ok s m d"
proof -
  have "up_conn (s\<lparr>reactors := (reactors s)(l := r)\<rparr>) m d = up_conn s m d" by (intro ext) (simp add: up_conn_def)
  then show ?thesis using assms by (simp add: active_ok_def cong: option.case_cong)
qed

lemma up_connE:
  assumes "up_conn s l q c"
  obtains i k where "objects (ctl s) c = Some i" and "conns s c = Some k" and "conn_loop i = l" and "chan k = q" and "phases (ctl s) c = Established"
  using assms by (auto simp: up_conn_def split: option.splits)

lemma active_kept:
  assumes act: "active_ok s m d" and kept: "others_kept c l q s s'" and ne: "(m, d) \<noteq> (l, q)" and other: "\<not> up_conn s m d c"
  shows "active_ok s' m d"
proof -
  obtain ch where ch: "chans (reactors s m) d = Some ch" "tied ch \<Longrightarrow> up_conn s m d (tie ch)"
    using act by (auto simp: active_ok_def split: option.splits)
  have "chans (reactors s' m) d = Some ch" using kept ne ch(1) unfolding others_kept_def by blast
  moreover have "up_conn s' m d (tie ch)" if t: "tied ch"
  proof (rule up_connE [OF ch(2) [OF t]])
    fix i k assume k: "objects (ctl s) (tie ch) = Some i" "conns s (tie ch) = Some k" "conn_loop i = m" "chan k = d" "phases (ctl s) (tie ch) = Established"
    have "tie ch \<noteq> c" using ch(2) [OF t] other by auto
    then have "objects (ctl s') (tie ch) = Some i" "phases (ctl s') (tie ch) = Established" "conns s' (tie ch) = Some k"
      using kept k unfolding others_kept_def by metis+
    then show ?thesis using k by (simp add: up_conn_def)
  qed
  ultimately show ?thesis by (simp add: active_ok_def)
qed

section \<open>Callbacks of a connection\<close>

lemma on_channel_user_calls: "on_channel f s = Inr s' \<Longrightarrow> user_calls s' = user_calls s"
  by (auto simp: on_channel_def)

lemma high_water_user_calls [simp]: "user_calls (high_water n s) = user_calls s"
  by (simp add: high_water_def Let_def)

lemma sendInLoop_user_calls: "sendInLoop ret wr d s = Inr s' \<Longrightarrow> user_calls s' = user_calls s"
  by (auto simp: sendInLoop_def first_write_def store_remaining_def Let_def split: option.splits if_splits sum.splits dest!: on_channel_user_calls)

lemma send_user_calls: "TcpConnection_send ret wr d s = Inr s' \<Longrightarrow> user_calls s' = user_calls s"
  by (auto simp: TcpConnection_send_def split: if_splits dest: sendInLoop_user_calls)

lemma shutdownInLoop_user_calls: "shutdownInLoop s = Inr s' \<Longrightarrow> user_calls s' = user_calls s"
  by (auto simp: shutdownInLoop_def split: option.splits)

lemma handleWrite_user_calls: "handleWrite ret wr s = Inr s' \<Longrightarrow> user_calls s' = user_calls s"
  by (auto simp: handleWrite_def Let_def split: option.splits if_splits sum.splits dest!: on_channel_user_calls shutdownInLoop_user_calls)

text \<open>A read that does not find the end of the stream leaves the connection up, whatever becomes of the echo.\<close>

lemma read_stays:
  assumes ok: "conn_ok k" and up: "cstate k = kConnected \<or> cstate k = kDisconnecting" and acc: "epoll_accepts ret" and wr: "write_returns wr"
    and rd: "readv_contract rd" and fits: "conn_fits rd k" and data: "rd (read_iov (inputBuffer k)) \<noteq> Inr []"
  shows "\<exists>k'. handleRead ret rd (EchoServer_onMessage ret wr) EchoServer_onConnection t k = Inr k' \<and> conn_ok k' \<and> cstate k' = cstate k \<and>
    own_traffic k k' \<and> close_calls k' = close_calls k"
proof (cases "rd (read_iov (inputBuffer k))")
  case (Inl e)
  have "k\<lparr>inputBuffer := inputBuffer k\<rparr> = k" by simp
  then have "handleRead ret rd (EchoServer_onMessage ret wr) EchoServer_onConnection t k = Inr k"
    using readFd_error [where readv = rd and b = "inputBuffer k" and e = e] Inl by (simp add: handleRead_def handleError_def)
  then show ?thesis using ok own_refl(2) by blast
next
  case (Inr d)
  have bok: "buffer_ok (inputBuffer k)" using ok by (simp add: conn_ok_def)
  let ?d = "content (inputBuffer k) @ d"
  obtain b where b: "readFd rd (inputBuffer k) = Inr (Inr (length d), b)" "buffer_ok b" "content b = ?d"
    by (rule readFd_ok [OF bok rd _ Inr]) (use fits in \<open>simp add: conn_fits_def\<close>)
  obtain b' where b': "retrieveAllAsString b = Inr (?d, b')" "buffer_ok b'" using take_all [OF b(2)] b(3) by auto
  let ?k = "k\<lparr>inputBuffer := b'\<rparr>"
  have ok': "conn_ok ?k" using conn_ok_input [OF ok b'(2)] .
  have read: "handleRead ret rd (EchoServer_onMessage ret wr) EchoServer_onConnection t k = TcpConnection_send ret wr ?d ?k"
    using b(1) b'(1) data Inr by (simp add: handleRead_def EchoServer_onMessage_def)
  have "\<exists>k'. TcpConnection_send ret wr ?d ?k = Inr k' \<and> conn_ok k' \<and> cstate k' = cstate k"
  proof (cases "cstate k = kConnected")
    case True
    have "\<not> write_shut ?k" "length ?d \<le> vec_max_size - writerIndex (outputBuffer ?k)" using ok True fits Inr by (auto simp: conn_ok_def conn_fits_def)
    moreover have "write_contract wr" "wr ?d \<noteq> Inl EPIPE" using wr by (simp_all add: write_returns_def)
    ultimately show ?thesis using sendInLoop_ok [OF ok' acc, of wr ?d] True by (auto simp: TcpConnection_send_def)
  qed (use ok' in \<open>simp add: TcpConnection_send_def\<close>)
  then obtain k' where k': "TcpConnection_send ret wr ?d ?k = Inr k'" "conn_ok k'" "cstate k' = cstate k" by blast
  have "own_traffic k ?k" by (simp add: own_refl)
  also have "own_traffic ?k k'" by (rule TcpConnection_send_own [OF k'(1)])
  finally show ?thesis using read k' send_user_calls [OF k'(1)] by (simp add: close_calls_def)
qed

text \<open>A read that finds the end of the stream closes the connection.\<close>

lemma read_closes:
  assumes ok: "conn_ok k" and rd: "readv_contract rd" and fits: "conn_fits rd k" and data: "rd (read_iov (inputBuffer k)) = Inr []"
  obtains b where "handleRead ret rd onMessage onConnection t k = handleClose ret onConnection (k\<lparr>inputBuffer := b\<rparr>)" and "conn_ok (k\<lparr>inputBuffer := b\<rparr>)"
proof -
  have bok: "buffer_ok (inputBuffer k)" using ok by (simp add: conn_ok_def)
  obtain b where b: "readFd rd (inputBuffer k) = Inr (Inr 0, b)" "buffer_ok b"
    by (rule readFd_ok [OF bok rd _ data]) (use fits in \<open>simp_all add: conn_fits_def\<close>)
  have "handleRead ret rd onMessage onConnection t k = handleClose ret onConnection (k\<lparr>inputBuffer := b\<rparr>)"
    using b(1) by (simp add: handleRead_def)
  then show thesis using that conn_ok_input [OF ok b(2)] by blast
qed

text \<open>What a member function does to a connection that is up: it stays up, or closes.\<close>

definition stays_up :: "tcp_conn \<Rightarrow> tcp_conn \<Rightarrow> bool" where
  "stays_up k k' \<longleftrightarrow> conn_stage Established k' \<and> own_traffic k k' \<and> close_calls k' = close_calls k"

definition closes :: "tcp_conn \<Rightarrow> tcp_conn \<Rightarrow> bool" where
  "closes k k' \<longleftrightarrow> conn_stage Closing k' \<and> own_effect k k' \<and> close_calls k < close_calls k' \<and>
     (\<forall>ch. chans (rx k) (chan k) = Some ch \<longrightarrow> index ch = kAdded \<longrightarrow> (\<exists>ch'. chans (rx k') (chan k') = Some ch' \<and> same_tie ch ch' \<and> index ch' = kDeleted))"

lemma handleClose_closes:
  assumes ok: "conn_ok (k\<lparr>inputBuffer := b\<rparr>)" and acc: "epoll_accepts ret"
  shows "\<exists>k'. handleClose ret EchoServer_onConnection (k\<lparr>inputBuffer := b\<rparr>) = Inr k' \<and> closes k k'"
proof -
  let ?k = "k\<lparr>inputBuffer := b\<rparr>"
  obtain k' where k': "handleClose ret EchoServer_onConnection ?k = Inr k'" "conn_stage Closing k'"
    "user_calls k' = user_calls k @ [ConnectionCall kDisconnected, CloseCall]"
    using handleClose_ok [OF ok acc quiet_echo] by auto
  have "own_effect k ?k" by (simp add: own_refl)
  also have "own_effect ?k k'" by (rule handleClose_own(1) [OF k'(1)])
  finally show ?thesis using k' handleClose_own(2) [OF k'(1)] by (simp add: closes_def close_calls_def)
qed

lemma member_up:
  assumes ok: "conn_stage Established k" and acc: "epoll_accepts ret" and rd: "readv_contract rd" and wr: "\<forall>ev. write_returns (wr ev)"
    and fits: "ev = OnRead \<Longrightarrow> conn_fits rd k"
  shows "\<exists>k'. conn_member ret rd wr t ev k = Inr k' \<and> (stays_up k k' \<or> closes k k')"
proof (cases ev)
  case OnRead
  have c: "conn_ok k" "cstate k = kConnected \<or> cstate k = kDisconnecting" "write_returns (wr OnRead)" "conn_fits rd k" using ok wr fits OnRead by simp_all
  show ?thesis
  proof (cases "rd (read_iov (inputBuffer k)) = Inr []")
    case True
    obtain b where b: "handleRead ret rd (EchoServer_onMessage ret (wr OnRead)) EchoServer_onConnection t k = handleClose ret EchoServer_onConnection (k\<lparr>inputBuffer := b\<rparr>)"
      "conn_ok (k\<lparr>inputBuffer := b\<rparr>)" by (rule read_closes [OF c(1) rd c(4) True])
    show ?thesis using handleClose_closes [OF b(2) acc] b(1) OnRead by auto
  next
    case False
    show ?thesis using read_stays [OF c(1,2) acc c(3) rd c(4) False, of t] c(2) OnRead by (auto simp: stays_up_def)
  qed
next
  case OnWrite
  have "conn_ok k" "write_returns (wr OnWrite)" using ok wr by simp_all
  then obtain k' where "handleWrite ret (wr OnWrite) k = Inr k'" "conn_ok k'" "cstate k' = cstate k"
    using handleWrite_ok [of k ret "wr OnWrite"] acc by (auto simp: write_returns_def)
  then show ?thesis using ok OnWrite handleWrite_own handleWrite_user_calls by (auto simp: stays_up_def close_calls_def)
next
  case OnClose
  have "k\<lparr>inputBuffer := inputBuffer k\<rparr> = k" by simp
  with handleClose_closes [where k = k and b = "inputBuffer k", OF _ acc] show ?thesis using ok OnClose by auto
next
  case OnError
  then show ?thesis using ok by (auto simp: stays_up_def handleError_def own_refl)
qed

text \<open>
  A connection that has closed takes an error or a write event without any effect, and drops what a read delivers; only a read that finds the end of
  the stream is different.
\<close>

definition ends :: "conn_event \<Rightarrow> (nat list \<Rightarrow> int + string) \<Rightarrow> tcp_conn \<Rightarrow> bool" where
  "ends ev rd k \<longleftrightarrow> ev = OnClose \<or> ev = OnRead \<and> rd (read_iov (inputBuffer k)) = Inr []"

lemma handleWrite_closed:
  assumes "chans (rx k) (chan k) = Some ch" and "events ch = 0"
  shows "handleWrite ret wr k = Inr k"
  using assms by (simp add: handleWrite_def isWriting_def)

lemma member_down:
  assumes ok: "conn_stage Closing k" and rd: "readv_contract rd" and fits: "ev = OnRead \<Longrightarrow> conn_fits rd k" and ev: "\<not> ends ev rd k"
  shows "\<exists>b. conn_member ret rd wr t ev k = Inr (k\<lparr>inputBuffer := b\<rparr>) \<and> buffer_ok b"
proof (cases "ev = OnRead \<and> (\<exists>d. rd (read_iov (inputBuffer k)) = Inr d)")
  case False
  obtain ch where "chans (rx k) (chan k) = Some ch" "events ch = 0" using ok by (auto simp: mask_of_def)
  then have "handleWrite ret (wr OnWrite) k = Inr k" by (rule handleWrite_closed)
  moreover have "handleRead ret rd (EchoServer_onMessage ret (wr OnRead)) EchoServer_onConnection t k = Inr k"
    if e: "rd (read_iov (inputBuffer k)) = Inl e" for e
    using readFd_error [where readv = rd and b = "inputBuffer k" and e = e] e by (simp add: handleRead_def handleError_def)
  ultimately have "conn_member ret rd wr t ev k = Inr k"
    using ev False by (cases ev; cases "rd (read_iov (inputBuffer k))") (simp_all add: handleError_def ends_def)
  moreover have "k\<lparr>inputBuffer := inputBuffer k\<rparr> = k" "buffer_ok (inputBuffer k)" using ok by (simp_all add: conn_ok_def)
  ultimately show ?thesis by metis
next
  case True
  then obtain d where d: "rd (read_iov (inputBuffer k)) = Inr d" and read: "ev = OnRead" by blast
  have bok: "buffer_ok (inputBuffer k)" using ok by (simp add: conn_ok_def)
  obtain b where b: "readFd rd (inputBuffer k) = Inr (Inr (length d), b)" "buffer_ok b" "content b = content (inputBuffer k) @ d"
    by (rule readFd_ok [OF bok rd _ d]) (use fits [OF read] in \<open>simp add: conn_fits_def\<close>)
  obtain b' where b': "retrieveAllAsString b = Inr (content b, b')" "buffer_ok b'" using take_all [OF b(2)] by blast
  have "d \<noteq> []" using ev d read by (auto simp: ends_def)
  moreover have "cstate k = kDisconnected" using ok by simp
  ultimately show ?thesis using b b' read by (auto simp: handleRead_def EchoServer_onMessage_def TcpConnection_send_def)
qed

lemma removeConnection_kept:
  assumes "sys_removeConnection ret c s = Inr s'" and "objects (ctl s) c \<noteq> None"
  shows "others_kept c l q s s'" and "conns s' = conns s" and "phases (ctl s') c = Closing \<or> phases (ctl s') c = Removed" and "objects (ctl s') = objects (ctl s)"
proof -
  obtain i where i: "objects (ctl s) c = Some i" using assms(2) by blast
  let ?x = "(ctl s)\<lparr>phases := (phases (ctl s))(c := Closing)\<rparr>"
  have x: "others_kept c l q s (s\<lparr>ctl := ?x\<rparr>)" by (rule ctl_kept) simp_all
  have s': "s' = s\<lparr>ctl := (if conn_loop i = base_loop (ctl s) then exec_functor (RemoveInLoop c) ?x else post (base_loop (ctl s)) (RemoveInLoop c) ?x)\<rparr>"
    using assms(1) i by (auto simp: sys_removeConnection_def sys_run_in_loop_def split: if_splits)
  have y: "others_kept c l q (s\<lparr>ctl := ?x\<rparr>) s'"
    unfolding s' using exec_ctl_kept [of "RemoveInLoop c" l q "s\<lparr>ctl := ?x\<rparr>"] ctl_kept [of "post (base_loop (ctl s)) (RemoveInLoop c) ?x" "s\<lparr>ctl := ?x\<rparr>" c l q]
    by (simp add: post_def)
  show "others_kept c l q s s'" by (rule others_kept_trans [OF x y])
  show "conns s' = conns s" by (simp add: s')
  have "objects (exec_functor (RemoveInLoop c) ?x) = objects (ctl s)" by (simp only: exec_functor_objects) simp
  then show "objects (ctl s') = objects (ctl s)" by (simp add: s')
  show "phases (ctl s') c = Closing \<or> phases (ctl s') c = Removed" using i by (simp add: s' removeConnectionInLoop_def post_def)
qed

definition down_conn :: "'l system \<Rightarrow> 'l \<Rightarrow> ptr \<Rightarrow> nat \<Rightarrow> bool" where
  "down_conn s l q c \<longleftrightarrow> (phases (ctl s) c = Closing \<or> phases (ctl s) c = Removed) \<and>
     (case (objects (ctl s) c, conns s c) of (Some i, Some k) \<Rightarrow> conn_loop i = l \<and> chan k = q | _ \<Rightarrow> False)"

lemma callback_up:
  assumes ok: "sys_ok s" and acc: "epoll_accepts ret" and up: "up_conn s l q c" and rd: "readv_contract rd" and wr: "\<forall>ev. write_returns (wr ev)"
    and fits: "\<And>k. ev = OnRead \<Longrightarrow> conns s c = Some k \<Longrightarrow> conn_fits rd k"
  obtains (stays) s' where "conn_callback ret rd wr c ev t s = Inr s'" and "sys_ok s'" and "others_kept c l q s s'" and "ctl s' = ctl s" and "up_conn s' l q c"
  | (closes) s' where "conn_callback ret rd wr c ev t s = Inr s'" and "sys_ok s'" and "others_kept c l q s s'" and "ctl s' = connection_closed c (ctl s)"
      and "down_conn s' l q c"
proof -
  obtain i k where i: "objects (ctl s) c = Some i" "conns s c = Some k" and l: "conn_loop i = l" "chan k = q" and e: "phases (ctl s) c = Established"
    using up_connE [OF up] by metis
  have st: "stands s d (phases (ctl s) d)" for d using ok by (simp add: sys_ok_def)
  have w: "world s" "waiting_ok (ctl s) None" "map_ok (ctl s)" using ok by (simp_all add: sys_ok_def)
  let ?k = "k\<lparr>rx := reactors s (conn_loop i)\<rparr>" and ?op = "conn_member ret rd wr t ev"
  have stage: "conn_stage Established ?k" and b: "bound_channel (chans (reactors s (conn_loop i)) (chan k)) c (conn_fd i) Established"
    using st [of c] i e by (simp_all add: stands_def)
  have f: "ev = OnRead \<Longrightarrow> conn_fits rd ?k" using fits i(2) by (simp add: conn_fits_def)
  obtain k' where k': "?op ?k = Inr k'" "stays_up ?k k' \<or> closes ?k k'" using member_up [OF stage acc rd wr f] by blast
  have own: "own_effect ?k k'" using k'(2) own_traffic_effect by (auto simp: stays_up_def closes_def)
  note in_conn = in_conn_Inr [where op = ?op and s = s, OF i k'(1)]
  have kept: "others_kept c l q s t" if "in_conn ?op c s = Inr t" for t
    using in_conn_kept(1) [OF that i] k'(1) own l by auto
  have ch': "chan k' = q" using own l by (simp add: own_by_def)
  show thesis
  proof (cases "stays_up ?k k'")
    case True
    then have s1: "conn_stage Established k'" "own_traffic ?k k'" "close_calls k' = close_calls k" by (simp_all add: stays_up_def close_calls_def)
    obtain ch' where c': "chans (rx k') (chan k') = Some ch'" by (rule conn_stage_channel [OF s1(1)])
    have "only_channel still_reading (chan k) (reactors s (conn_loop i)) (rx k')" "chan k' = chan k" using s1(2) by (simp_all add: own_by_def)
    then have b': "bound_channel (chans (rx k') (chan k')) c (conn_fd i) Established" using traffic_bound [OF b] c' by simp
    obtain u where u: "in_conn ?op c s = Inr u" "world u" "\<And>d. stands u d (((phases (ctl s))(c := Established)) d)" "ctl u = ctl s"
      using in_conn_ok [where ph = "phases (ctl s)" and op = ?op, OF w(1) st i k'(1) own s1(1) b'] by blast
    have ph: "(phases (ctl s))(c := Established) = phases (ctl s)" using e by auto
    have cu: "conns u c = Some k'" using u(1) in_conn by auto
    have "conn_callback ret rd wr c ev t s = Inr u" using u(1) cu i(2) s1(3) by (simp add: conn_callback_def)
    moreover have "sys_ok u" using u(2,3) w by (simp add: sys_ok_def u(4) ph)
    moreover have "up_conn u l q c" using u(4) cu ch' i(1) l(1) e by (simp add: up_conn_def)
    ultimately show thesis using stays [OF _ _ kept [OF u(1)] u(4)] by blast
  next
    case False
    then have c1: "conn_stage Closing k'" "close_calls k < close_calls k'"
      and c2: "\<And>ch. chans (reactors s (conn_loop i)) (chan k) = Some ch \<Longrightarrow> index ch = kAdded \<Longrightarrow>
        \<exists>ch'. chans (rx k') (chan k') = Some ch' \<and> same_tie ch ch' \<and> index ch' = kDeleted"
      using k'(2) by (auto simp: closes_def close_calls_def)
    obtain ch where ch: "chans (reactors s (conn_loop i)) (chan k) = Some ch" "wired ch" "fd ch = conn_fd i" "tied ch" "tie ch = c" "index ch = kAdded"
      using b by (auto simp: bound_channel_def registered_reading_def split: option.splits)
    have b': "bound_channel (chans (rx k') (chan k')) c (conn_fd i) Closing" by (rule closed_bound [OF c2]) (use ch in simp_all)
    obtain u where u: "in_conn ?op c s = Inr u" "world u" "\<And>d. stands u d (((phases (ctl s))(c := Closing)) d)" "ctl u = ctl s"
      using in_conn_ok [where ph = "phases (ctl s)" and op = ?op, OF w(1) st i k'(1) own c1(1) b'] by blast
    have cu: "conns u c = Some k'" using u(1) in_conn by auto
    have iu: "objects (ctl u) c = Some i" using i u(4) by simp
    obtain s' where s': "sys_removeConnection ret c u = Inr s'" "sys_ok s'" "ctl s' = connection_closed c (ctl s)"
      using sys_removeConnection_ok [of u ret c i] u(2-4) w(2,3) acc i e by auto
    have rem: "others_kept c l q u s'" "conns s' = conns u" "phases (ctl s') c = Closing \<or> phases (ctl s') c = Removed" "objects (ctl s') = objects (ctl u)"
      using removeConnection_kept [OF s'(1)] iu by simp_all
    have "conn_callback ret rd wr c ev t s = Inr s'" using u(1) cu i(2) c1(2) s'(1) by (simp add: conn_callback_def)
    moreover have "down_conn s' l q c" using rem(2-4) iu cu ch' l(1) by (simp add: down_conn_def)
    moreover have "others_kept c l q s s'" by (rule others_kept_trans [OF kept [OF u(1)] rem(1)])
    ultimately show thesis using closes s'(2,3) by blast
  qed
qed

lemma callback_down:
  assumes ok: "sys_ok s" and down: "down_conn s l q c" and rd: "readv_contract rd" and fits: "\<And>k. ev = OnRead \<Longrightarrow> conns s c = Some k \<Longrightarrow> conn_fits rd k"
    and ev: "\<And>k. conns s c = Some k \<Longrightarrow> \<not> ends ev rd k"
  obtains s' where "conn_callback ret rd wr c ev t s = Inr s'" and "sys_ok s'" and "others_kept c l q s s'" and "ctl s' = ctl s" and "down_conn s' l q c"
proof -
  obtain i k where i: "objects (ctl s) c = Some i" "conns s c = Some k" and l: "conn_loop i = l" "chan k = q"
    and p: "phases (ctl s) c = Closing \<or> phases (ctl s) c = Removed"
    using down by (auto simp: down_conn_def split: option.splits)
  have st: "stands s d (phases (ctl s) d)" for d using ok by (simp add: sys_ok_def)
  have w: "world s" "waiting_ok (ctl s) None" "map_ok (ctl s)" using ok by (simp_all add: sys_ok_def)
  let ?k = "k\<lparr>rx := reactors s (conn_loop i)\<rparr>" and ?op = "conn_member ret rd wr t ev" and ?p = "phases (ctl s) c"
  have stage: "conn_stage ?p ?k" and b: "bound_channel (chans (rx ?k) (chan ?k)) c (conn_fd i) ?p"
    using st [of c] i by (simp_all add: stands_def)
  have closing: "conn_stage Closing ?k" using stage p by auto
  have "\<not> ends ev rd ?k" "ev = OnRead \<Longrightarrow> conn_fits rd ?k" using ev [OF i(2)] fits [OF _ i(2)] by (simp_all add: ends_def conn_fits_def)
  from member_down [OF closing rd this(2,1)] obtain b0 where k': "?op ?k = Inr (?k\<lparr>inputBuffer := b0\<rparr>)" and b0: "buffer_ok b0" by blast
  let ?k' = "?k\<lparr>inputBuffer := b0\<rparr>"
  have own: "own_effect ?k ?k'" by (simp add: own_refl)
  have "conn_ok ?k'" using conn_ok_input [OF _ b0, of ?k] closing by simp
  then have stage': "conn_stage ?p ?k'" using closing p by auto
  have b': "bound_channel (chans (rx ?k') (chan ?k')) c (conn_fd i) ?p" using b by simp
  have np: "?p \<noteq> Connecting" using p by auto
  obtain u where u: "in_conn ?op c s = Inr u" "world u" "\<And>d. stands u d (((phases (ctl s))(c := ?p)) d)" "ctl u = ctl s"
    using in_conn_ok [where ph = "phases (ctl s)" and op = ?op, OF w(1) st i k' own stage' b' np] by blast
  have cu: "conns u c = Some ?k'" using u(1) in_conn_Inr [where op = ?op, OF i k'] by auto
  have "conn_callback ret rd wr c ev t s = Inr u" using u(1) cu i(2) by (simp add: conn_callback_def close_calls_def)
  moreover have "sys_ok u" using u(2,3) w by (simp add: sys_ok_def u(4))
  moreover have "others_kept c l q s u" using in_conn_kept(1) [OF u(1) i] k' own l by auto
  moreover have "down_conn u l q c" using cu u(4) i l p by (simp add: down_conn_def)
  ultimately show thesis using that u(4) by blast
qed

text \<open>The callbacks that a mask calls on a channel with all four of them, in order.\<close>

definition due_events :: "ev \<Rightarrow> conn_event list" where
  "due_events e = (if bit e 4 \<and> \<not> bit e 0 then [OnClose] else []) @ (if bit e 3 then [OnError] else []) @ (if bit e 0 \<or> bit e 1 then [OnRead] else []) @
     (if bit e 2 then [OnWrite] else [])"

fun run_events :: "('cb \<Rightarrow> int \<Rightarrow> 's \<Rightarrow> 's result) \<Rightarrow> int \<Rightarrow> 'cb list \<Rightarrow> 's \<Rightarrow> 's result" where
  "run_events run t [] s = Inr s"
| "run_events run t (e # es) s = bind_result (run e t s) (run_events run t es)"

lemma bind_Inr_id: "bind_result r Inr = r"
  by (cases r) simp_all

lemma bind_result_assoc: "bind_result (bind_result r f) g = bind_result r (\<lambda>x. bind_result (f x) g)"
  by (cases r) simp_all

lemma run_events_fun: "run_events run t [] = Inr" "run_events run t (e # es) = (\<lambda>s. bind_result (run e t s) (run_events run t es))"
  by (intro ext, simp)+

lemma run_events_append: "run_events run t (es @ fs) s = bind_result (run_events run t es s) (run_events run t fs)"
  by (induction es arbitrary: s) (simp_all add: bind_result_assoc [symmetric] bind_result_def split: sum.splits)

lemma call_cb_fun: "call_cb run (Some f) t = run f t"
  by (intro ext) (simp add: call_cb_def)

lemma wired_dispatch: "wired ch \<Longrightarrow> handleEventWithGuard run t ch s = run_events run t (due_events (revents ch)) s"
  unfolding handleEventWithGuard_def bit_tests read_test wired_def due_events_def
  by (simp add: call_cb_fun run_events_fun bind_Inr_id bind_result_assoc)

lemma due_events_shape:
  assumes "mask_ok e"
  shows "(\<exists>evs. due_events e = OnClose # evs \<and> set evs \<subseteq> {OnError, OnWrite}) \<or>
    due_events e = OnError # OnRead # (if bit e 2 then [OnWrite] else []) \<or> due_events e = OnRead # (if bit e 2 then [OnWrite] else []) \<or>
    set (due_events e) \<subseteq> {OnError, OnWrite}"
  using assms by (cases "bit e 4"; cases "bit e 0"; cases "bit e 1"; cases "bit e 2"; cases "bit e 3") (simp_all add: due_events_def mask_ok_def)

lemma due_events_bad:
  "\<not> mask_ok e \<Longrightarrow> due_events e = OnClose # (if bit e 3 then [OnError] else []) @ OnRead # (if bit e 2 then [OnWrite] else [])"
  by (simp add: due_events_def mask_ok_def)

text \<open>A connection that was up when its channel's turn came, while its callbacks run.\<close>

definition in_service :: "'l system \<Rightarrow> 'l \<Rightarrow> ptr \<Rightarrow> nat \<Rightarrow> 'l system \<Rightarrow> bool" where
  "in_service s0 l q c s \<longleftrightarrow> sys_ok s \<and> others_kept c l q s0 s \<and>
     (up_conn s l q c \<and> ctl s = ctl s0 \<or> down_conn s l q c \<and> ctl s = connection_closed c (ctl s0))"

lemma service_event:
  assumes s: "in_service s0 l q c s" and acc: "epoll_accepts ret" and rd: "readv_contract rd" and wr: "\<forall>ev. write_returns (wr ev)"
    and fits: "\<And>k. ev = OnRead \<Longrightarrow> conns s c = Some k \<Longrightarrow> conn_fits rd k"
    and ev: "\<And>k. \<not> up_conn s l q c \<Longrightarrow> conns s c = Some k \<Longrightarrow> \<not> ends ev rd k"
  shows "\<exists>s'. conn_callback ret rd wr c ev t s = Inr s' \<and> in_service s0 l q c s'"
proof (cases "up_conn s l q c")
  case True
  have s': "sys_ok s" "others_kept c l q s0 s" "ctl s = ctl s0" using s True by (auto simp: in_service_def up_conn_def down_conn_def)
  show ?thesis
    by (rule callback_up [OF s'(1) acc True rd wr, of ev t]) (use fits s' others_kept_trans in \<open>auto simp: in_service_def\<close>)
next
  case False
  then have s': "sys_ok s" "others_kept c l q s0 s" "down_conn s l q c" "ctl s = connection_closed c (ctl s0)"
    using s by (auto simp: in_service_def)
  show ?thesis
    by (rule callback_down [OF s'(1,3) rd, of ev ret wr t]) (use fits ev False s' others_kept_trans in \<open>auto simp: in_service_def\<close>)
qed

lemma service_quiet:
  assumes "in_service s0 l q c s" and acc: "epoll_accepts ret" and rd: "readv_contract rd" and wr: "\<forall>ev. write_returns (wr ev)"
    and "set evs \<subseteq> {OnError, OnWrite}"
  shows "\<exists>s'. run_events (conn_callback ret rd wr c) t evs s = Inr s' \<and> in_service s0 l q c s'"
  using assms(1,5)
proof (induction evs arbitrary: s)
  case (Cons ev evs)
  have ev: "ev \<noteq> OnRead" "ev \<noteq> OnClose" "set evs \<subseteq> {OnError, OnWrite}" using Cons.prems(2) by auto
  obtain u where u: "conn_callback ret rd wr c ev t s = Inr u" "in_service s0 l q c u"
    using service_event [OF Cons.prems(1) acc rd wr, of ev t] ev by (auto simp: ends_def)
  from Cons.IH [OF u(2) ev(3)] u(1) show ?case by simp
qed simp

lemma service_once:
  assumes s: "in_service s0 l q c s" "up_conn s l q c" and acc: "epoll_accepts ret" and rd: "readv_contract rd" and wr: "\<forall>ev. write_returns (wr ev)"
    and fits: "\<And>k. conns s c = Some k \<Longrightarrow> conn_fits rd k"
  shows "\<exists>s'. conn_callback ret rd wr c ev t s = Inr s' \<and> in_service s0 l q c s'"
  by (rule service_event [OF s(1) acc rd wr]) (use fits s(2) in auto)

text \<open>An error event and a close event leave the buffers alone; the one does not count as a close, the other does.\<close>

lemma error_step:
  assumes "conn_callback ret rd wr c OnError t s = Inr s'" and "conns s c = Some k"
  shows "\<exists>k'. conns s' c = Some k' \<and> inputBuffer k' = inputBuffer k \<and> outputBuffer k' = outputBuffer k \<and> close_calls k' = close_calls k"
  using assms by (auto simp: conn_callback_def in_conn_def handleError_def close_calls_def split: option.splits if_splits)

lemma removeConnection_conns: "sys_removeConnection ret c s = Inr s' \<Longrightarrow> conns s' = conns s"
  by (auto simp: sys_removeConnection_def sys_run_in_loop_def split: option.splits if_splits)

lemma removeConnection_total:
  assumes "objects (ctl s) c = Some i"
  obtains v where "sys_removeConnection ret c s = Inr v" and "conns v = conns s" and "reactors v = reactors s" and "objects (ctl v) = objects (ctl s)"
proof (cases "conn_loop i = base_loop (ctl s)")
  case True
  then show thesis using assms that
    by (simp add: sys_removeConnection_def sys_run_in_loop_def removeConnectionInLoop_def post_def split: option.split)
next
  case False
  then show thesis using assms that by (simp add: sys_removeConnection_def sys_run_in_loop_def post_def)
qed

lemma handleClose_buffers:
  assumes "handleClose ret EchoServer_onConnection k = Inr k'"
  shows "inputBuffer k' = inputBuffer k" "outputBuffer k' = outputBuffer k" "close_calls k' = Suc (close_calls k)"
  using assms by (auto simp: handleClose_def on_channel_def connection_call_def EchoServer_onConnection_def close_calls_def)

lemma close_step:
  assumes "conn_callback ret rd wr c OnClose t s = Inr s'" and "conns s c = Some k"
  shows "\<exists>k'. conns s' c = Some k' \<and> inputBuffer k' = inputBuffer k \<and> outputBuffer k' = outputBuffer k \<and> close_calls k' = Suc (close_calls k)"
proof -
  obtain i k' u where u: "objects (ctl s) c = Some i" "handleClose ret EchoServer_onConnection (k\<lparr>rx := reactors s (conn_loop i)\<rparr>) = Inr k'"
    "u = s\<lparr>conns := (conns s)(c \<mapsto> k'), reactors := (reactors s)(conn_loop i := rx k')\<rparr>" "in_conn (conn_member ret rd wr t OnClose) c s = Inr u"
    using assms by (auto simp: conn_callback_def in_conn_def split: option.splits)
  note b = handleClose_buffers [OF u(2)]
  have "close_calls k' = Suc (close_calls k)" using b(3) by (simp add: close_calls_def)
  moreover have "sys_removeConnection ret c u = Inr s'" using assms u(3,4) \<open>close_calls k' = Suc (close_calls k)\<close> by (simp add: conn_callback_def)
  then have "conns s' c = Some k'" using removeConnection_conns [of ret c u s'] u(3) by simp
  ultimately show ?thesis using b(1,2) by simp
qed

lemma error_fits:
  assumes "conn_callback ret rd wr c OnError t s = Inr s'" and "\<And>k. conns s c = Some k \<Longrightarrow> conn_fits rd k" and "conns s' c = Some k"
  shows "conn_fits rd k"
proof (cases "conns s c")
  case (Some k0)
  then show ?thesis using error_step [OF assms(1) Some] assms(2,3) by (auto simp: conn_fits_def)
qed (use assms(1) in \<open>simp add: conn_callback_def in_conn_def\<close>)

lemma service_all:
  assumes s: "in_service s0 l q c s" "up_conn s l q c" and acc: "epoll_accepts ret" and rd: "readv_contract rd" and wr: "\<forall>ev. write_returns (wr ev)"
    and fits: "\<And>k. conns s c = Some k \<Longrightarrow> conn_fits rd k" and mask: "mask_ok e"
  shows "\<exists>s'. run_events (conn_callback ret rd wr c) t (due_events e) s = Inr s' \<and> in_service s0 l q c s'"
proof -
  have first: "\<exists>s'. run_events (conn_callback ret rd wr c) t (ev # evs) u = Inr s' \<and> in_service s0 l q c s'"
    if u: "in_service s0 l q c u" "up_conn u l q c" "\<And>k. conns u c = Some k \<Longrightarrow> conn_fits rd k" and evs: "set evs \<subseteq> {OnError, OnWrite}" for ev evs u
  proof -
    obtain v where "conn_callback ret rd wr c ev t u = Inr v" "in_service s0 l q c v" using service_once [OF u(1,2) acc rd wr u(3)] by blast
    with service_quiet [OF this(2) acc rd wr evs, of t] show ?thesis by simp
  qed
  let ?w = "if bit e 2 then [OnWrite] else []"
  consider (close) evs where "due_events e = OnClose # evs" "set evs \<subseteq> {OnError, OnWrite}" | (error) "due_events e = OnError # OnRead # ?w"
    | (read) "due_events e = OnRead # ?w" | (quiet) "set (due_events e) \<subseteq> {OnError, OnWrite}"
    using due_events_shape [OF mask] by blast
  then show ?thesis
  proof cases
    case close
    then show ?thesis using first [OF s fits] by simp
  next
    case read
    have "set ?w \<subseteq> {OnError, OnWrite}" by auto
    then show ?thesis using first [OF s fits] read by simp
  next
    case quiet
    then show ?thesis using service_quiet [OF s(1) acc rd wr] by blast
  next
    case error
    have s': "sys_ok s" "others_kept c l q s0 s" "ctl s = ctl s0" using s by (auto simp: in_service_def up_conn_def down_conn_def)
    obtain v where v: "conn_callback ret rd wr c OnError t s = Inr v" "in_service s0 l q c v" using service_once [OF s acc rd wr fits] by blast
    have w: "set ?w \<subseteq> {OnError, OnWrite}" by auto
    show ?thesis
    proof (cases "up_conn v l q c")
      case True
      have "conn_fits rd k" if "conns v c = Some k" for k using error_fits [OF v(1) fits that] .
      from first [OF v(2) True this w, of OnRead] show ?thesis using error v(1) by simp
    next
      case False
      have "ctl v = ctl s"
        using v(1) by (auto simp: conn_callback_def in_conn_def handleError_def close_calls_def split: option.splits if_splits)
      then have "phases (ctl v) c = Established" using s(2) by (simp add: up_conn_def)
      then show ?thesis using v(2) False by (auto simp: in_service_def down_conn_def)
    qed
  qed
qed

text \<open>
  The end of the stream, read by a connection that has closed already: it closes a second time, and its channel is in the poller again, with an empty
  mask. A write event after that has no effect.
\<close>

lemma closed_reads_end:
  assumes ok: "sys_ok s" and down: "down_conn s l q c" and acc: "epoll_accepts ret" and rd: "readv_contract rd"
    and k: "conns s c = Some k" "conn_fits rd k" "rd (read_iov (inputBuffer k)) = Inr []"
  shows "\<exists>s' k' ch. run_events (conn_callback ret rd wr c) t (OnRead # (if out then [OnWrite] else [])) s = Inr s' \<and> conns s' c = Some k' \<and>
    close_calls k' = Suc (close_calls k) \<and> cstate k' = kDisconnected \<and> chans (reactors s' l) q = Some ch \<and> index ch = kAdded \<and> events ch = 0"
proof -
  obtain i where i: "objects (ctl s) c = Some i" and l: "conn_loop i = l" "chan k = q" and p: "phases (ctl s) c = Closing \<or> phases (ctl s) c = Removed"
    using down k(1) by (auto simp: down_conn_def split: option.splits)
  let ?k = "k\<lparr>rx := reactors s l\<rparr>" and ?op = "conn_member ret rd wr t OnRead"
  have "stands s c (phases (ctl s) c)" using ok by (simp add: sys_ok_def)
  then have stage: "conn_stage Closing ?k" and b: "bound_channel (chans (reactors s l) q) c (conn_fd i) Closing"
    using i k(1) l p by (auto simp: stands_def bound_channel_def split: option.splits)
  obtain c0 where c0: "chans (reactors s l) q = Some c0" "index c0 = kDeleted" using b by (auto simp: bound_channel_def split: option.splits)
  have cok: "conn_ok ?k" and f: "conn_fits rd ?k" "rd (read_iov (inputBuffer ?k)) = Inr []" using stage k(2,3) by (simp_all add: conn_fits_def)
  obtain b0 where "handleRead ret rd (EchoServer_onMessage ret (wr OnRead)) EchoServer_onConnection t ?k =
      handleClose ret EchoServer_onConnection (?k\<lparr>inputBuffer := b0\<rparr>)" and ok0: "conn_ok (?k\<lparr>inputBuffer := b0\<rparr>)"
    by (rule read_closes [OF cok rd f])
  then have b0: "?op ?k = handleClose ret EchoServer_onConnection (?k\<lparr>inputBuffer := b0\<rparr>)" "conn_ok (?k\<lparr>inputBuffer := b0\<rparr>)" by simp_all
  let ?k0 = "?k\<lparr>inputBuffer := b0\<rparr>"
  obtain k1 where k1: "handleClose ret EchoServer_onConnection ?k0 = Inr k1" "cstate k1 = kDisconnected" using handleClose_ok [OF b0(2) acc quiet_echo] by blast
  then obtain k2 where k2: "on_channel (disableAll ret) (?k0\<lparr>cstate := kDisconnected\<rparr>) = Inr k2" "rx k1 = rx k2"
    by (auto simp: handleClose_def connection_call_def EchoServer_onConnection_def)
  then obtain r where r: "change_events ret (\<lambda>e. kNoneEvent) q (reactors s l) = Inr r" "rx k1 = r"
    using l(2) by (auto simp: on_channel_def disableAll_def)
  have re: "reactor_ok (reactors s l)" "usable (reactors s l) q" using cok l by (simp_all add: conn_ok_def)
  have ch: "chans r q = Some (c0\<lparr>events := 0, index := kAdded\<rparr>)"
    by (rule change_events_Inr [OF re r(1)]) (use c0 in \<open>simp add: next_index_def index_defs kNoneEvent_def\<close>)
  let ?u = "s\<lparr>conns := (conns s)(c \<mapsto> k1), reactors := (reactors s)(l := r)\<rparr>"
  have u: "in_conn ?op c s = Inr ?u" using i k(1) l b0(1) k1(1) r(2) by (simp add: in_conn_def)
  have cc: "close_calls k1 = Suc (close_calls k)" using handleClose_buffers(3) [OF k1(1)] by (simp add: close_calls_def)
  have iu: "objects (ctl ?u) c = Some i" using i by simp
  obtain v where v: "sys_removeConnection ret c ?u = Inr v" "conns v = conns ?u" "reactors v = reactors ?u" "objects (ctl v) = objects (ctl ?u)"
    by (rule removeConnection_total [OF iu])
  have v': "conns v = conns ?u" "reactors v = reactors ?u" "objects (ctl v) c = Some i" using v iu by simp_all
  have read: "conn_callback ret rd wr c OnRead t s = Inr v" using u v(1) cc k(1) by (simp add: conn_callback_def)
  have w: "conn_callback ret rd wr c OnWrite t v = Inr (v\<lparr>conns := (conns v)(c \<mapsto> k1\<lparr>rx := r\<rparr>), reactors := (reactors v)(l := r)\<rparr>)"
  proof -
    have "chan k1 = q" using handleClose_own(1) [OF k1(1)] l by (simp add: own_by_def)
    then have "handleWrite ret (wr OnWrite) (k1\<lparr>rx := r\<rparr>) = Inr (k1\<lparr>rx := r\<rparr>)" using handleWrite_closed [of "k1\<lparr>rx := r\<rparr>"] ch by simp
    then show ?thesis using v' l by (simp add: conn_callback_def in_conn_def close_calls_def)
  qed
  show ?thesis
  proof (cases out)
    case True
    then show ?thesis using read w k1(2) cc ch by (simp add: close_calls_def)
  next
    case False
    then show ?thesis using read v' k1(2) cc ch by simp
  qed
qed

text \<open>With the other masks the connection is closed twice, or served like any other.\<close>

definition twice_closed :: "nat \<Rightarrow> 'l system \<Rightarrow> 'l system \<Rightarrow> bool" where
  "twice_closed c s s' \<longleftrightarrow> (case (conns s c, conns s' c) of (Some k, Some k') \<Rightarrow> close_calls k + 2 \<le> close_calls k' | _ \<Rightarrow> False)"

lemma service_bad:
  assumes s: "in_service s0 l q c s" "up_conn s l q c" and acc: "epoll_accepts ret" and rd: "readv_contract rd" and wr: "\<forall>ev. write_returns (wr ev)"
    and k: "conns s c = Some k" "conn_fits rd k" and mask: "\<not> mask_ok e"
  shows "\<exists>s'. run_events (conn_callback ret rd wr c) t (due_events e) s = Inr s' \<and> (in_service s0 l q c s' \<or> twice_closed c s s')"
proof -
  let ?run = "run_events (conn_callback ret rd wr c) t" and ?w = "if bit e 2 then [OnWrite] else []" and ?e = "if bit e 3 then [OnError] else []"
  have fits: "conn_fits rd k'" if "inputBuffer k' = inputBuffer k" "outputBuffer k' = outputBuffer k" for k' using k(2) that by (simp add: conn_fits_def)
  obtain v where v: "conn_callback ret rd wr c OnClose t s = Inr v" "in_service s0 l q c v"
    using service_once [OF s acc rd wr, of OnClose t] k by auto
  obtain k1 where k1: "conns v c = Some k1" "inputBuffer k1 = inputBuffer k" "outputBuffer k1 = outputBuffer k" "close_calls k1 = Suc (close_calls k)"
    using close_step [OF v(1) k(1)] by blast
  obtain u k2 where u: "?run ?e v = Inr u" "in_service s0 l q c u" and k2: "conns u c = Some k2" "inputBuffer k2 = inputBuffer k"
    "outputBuffer k2 = outputBuffer k" "close_calls k2 = Suc (close_calls k)"
  proof (cases "bit e 3")
    case True
    obtain u where u: "conn_callback ret rd wr c OnError t v = Inr u" "in_service s0 l q c u"
      using service_event [OF v(2) acc rd wr, of OnError t] by (auto simp: ends_def)
    then show thesis using that error_step [OF u(1) k1(1)] k1 True by auto
  qed (use that v k1 in auto)
  have app: "?run (due_events e) s = ?run (OnRead # ?w) u"
    unfolding due_events_bad [OF mask] run_events.simps(2) [of _ _ OnClose] v(1) bind_result_simps run_events_append u(1) by (rule refl)
  have quiet: "set ?w \<subseteq> {OnError, OnWrite}" by auto
  show ?thesis
  proof (cases "up_conn u l q c \<or> rd (read_iov (inputBuffer k2)) \<noteq> Inr []")
    case True
    obtain x where x: "conn_callback ret rd wr c OnRead t u = Inr x" "in_service s0 l q c x"
      using service_event [OF u(2) acc rd wr, of OnRead t] k2(1) fits [OF k2(2,3)] True by (auto simp: ends_def)
    from service_quiet [OF x(2) acc rd wr quiet, of t] show ?thesis using app x(1) by auto
  next
    case False
    then have d: "sys_ok u" "down_conn u l q c" using u(2) by (auto simp: in_service_def)
    have eof: "rd (read_iov (inputBuffer k2)) = Inr []" using False by simp
    obtain s' k' where "?run (OnRead # ?w) u = Inr s'" "conns s' c = Some k'" "close_calls k' = Suc (close_calls k2)"
      using closed_reads_end [OF d acc rd k2(1) fits [OF k2(2,3)] eof, of wr t "bit e 2"] by blast
    then show ?thesis using app k(1) k2(4) by (auto simp: twice_closed_def)
  qed
qed

text \<open>With the masks of \<open>mask_ok\<close>, which call either the close callback or the read callback and not both, no connection is closed twice.\<close>

lemma member_closes:
  assumes "conn_member ret rd wr t ev k = Inr k'"
  shows "close_calls k' \<le> close_calls k + (if ev = OnRead \<or> ev = OnClose then 1 else 0)"
proof (cases ev)
  case OnRead
  obtain r b where rb: "readFd rd (inputBuffer k) = Inr (r, b)" using assms OnRead by (cases "readFd rd (inputBuffer k)") (auto simp: handleRead_def)
  have s: "close_calls k' = close_calls k" if send: "EchoServer_onMessage ret (wr OnRead) t (k\<lparr>inputBuffer := b\<rparr>) = Inr k'"
    using send by (auto simp: EchoServer_onMessage_def close_calls_def dest!: send_user_calls)
  have c: "close_calls k' = Suc (close_calls k)" if "handleClose ret EchoServer_onConnection (k\<lparr>inputBuffer := b\<rparr>) = Inr k'"
    using handleClose_buffers(3) [OF that] by (simp add: close_calls_def)
  show ?thesis using assms OnRead rb s c by (auto simp: handleRead_def handleError_def close_calls_def Let_def split: sum.splits if_splits)
qed (use assms handleClose_buffers(3) handleWrite_user_calls in \<open>auto simp: handleError_def close_calls_def\<close>)

lemma callback_closes:
  assumes "conn_callback ret rd wr c ev t s = Inr s'" and "conns s c = Some k"
  shows "\<exists>k'. conns s' c = Some k' \<and> close_calls k' \<le> close_calls k + (if ev = OnRead \<or> ev = OnClose then 1 else 0)"
proof -
  obtain i k' where i: "objects (ctl s) c = Some i" and u: "conn_member ret rd wr t ev (k\<lparr>rx := reactors s (conn_loop i)\<rparr>) = Inr k'"
    using assms by (auto simp: conn_callback_def in_conn_def split: option.splits)
  note v = in_conn_Inr [where op = "conn_member ret rd wr t ev", OF i assms(2) u]
  have "close_calls k' \<le> close_calls k + (if ev = OnRead \<or> ev = OnClose then 1 else 0)"
    using member_closes [OF u] by (simp add: close_calls_def)
  moreover have "conns s' c = Some k'"
    using assms v by (auto simp: conn_callback_def dest!: removeConnection_conns split: if_splits)
  ultimately show ?thesis by simp
qed

lemma service_closes:
  assumes "run_events (conn_callback ret rd wr c) t evs s = Inr s'" and "conns s c = Some k"
  shows "\<exists>k'. conns s' c = Some k' \<and> close_calls k' \<le> close_calls k + length (filter (\<lambda>ev. ev = OnRead \<or> ev = OnClose) evs)"
  using assms
proof (induction evs arbitrary: s k)
  case (Cons ev evs)
  obtain u where u: "conn_callback ret rd wr c ev t s = Inr u" "run_events (conn_callback ret rd wr c) t evs u = Inr s'" using Cons.prems(1) by auto
  obtain k1 where k1: "conns u c = Some k1" "close_calls k1 \<le> close_calls k + (if ev = OnRead \<or> ev = OnClose then 1 else 0)"
    using callback_closes [OF u(1) Cons.prems(2)] by blast
  from Cons.IH [OF u(2) k1(1)] k1(2) show ?case by auto
qed simp

lemma mask_closes_once:
  assumes ab: "acceptor_bound s" and ch: "chans (reactors s l) q = Some ch" "tied ch \<Longrightarrow> wired ch \<and> mask_ok (revents ch)"
    and step: "sys_handle ret hf wcc rd wr env t l q s = Inr s'"
  shows "\<not> closed_again l q s s'"
proof (cases "tied ch \<and> conns s (tie ch) \<noteq> None")
  case True
  then obtain k where k: "conns s (tie ch) = Some k" by blast
  have "\<not> (l = base_loop (ctl s) \<and> q = acceptChannel (server_acceptor s))" using ab True ch(1) by (auto simp: acceptor_bound_def)
  then have run: "run_events (conn_callback ret rd wr (tie ch)) t (due_events (revents ch)) s = Inr s'"
    using step ch True k by (auto simp: sys_handle_def handleEvent_def wired_dispatch)
  have "length (filter (\<lambda>ev. ev = OnRead \<or> ev = OnClose) (due_events (revents ch))) \<le> 1"
    using ch(2) True by (auto simp: due_events_def mask_ok_def event_bits)
  with service_closes [OF run k] show ?thesis using ch(1) k by (auto simp: closed_again_def)
qed (use ch(1) in \<open>auto simp: closed_again_def\<close>)

section \<open>Broken pipes\<close>

text \<open>
  The signal only ends the process: as long as it goes on, it does what it would do if each \<open>write\<close> that finds the pipe broken reported a reset
  connection.
\<close>

definition spared :: "(string \<Rightarrow> int + nat) \<Rightarrow> string \<Rightarrow> int + nat" where
  "spared wr d = (if wr d = Inl EPIPE then Inl ECONNRESET else wr d)"

lemma spared_returns: "write_contract wr \<Longrightarrow> write_returns (spared wr)"
  by (auto simp: write_returns_def write_contract_def spared_def errno_defs split: if_splits)

lemma spared_id: "\<forall>d. wr d \<noteq> Inl EPIPE \<Longrightarrow> spared wr = wr"
  by (auto simp: spared_def)

lemma spared_broken [simp]: "broken (spared wr d) = broken (wr d)"
  by (simp add: spared_def broken_def)

definition piped :: "'a result \<Rightarrow> 'a result \<Rightarrow> bool" where
  "piped x y \<longleftrightarrow> x = Inl Sigpipe \<or> x = y"

lemma piped_refl [simp]: "piped x x"
  by (simp add: piped_def)

lemma piped_bind:
  assumes "piped x y" and fg: "\<And>a. piped (f a) (g a)"
  shows "piped (bind_result x f) (bind_result y g)"
proof (cases y)
  case (Inr a)
  then show ?thesis using assms(1) fg [of a] by (auto simp: piped_def)
qed (use assms(1) in \<open>auto simp: piped_def\<close>)

lemma signalled_spared: "piped (signalled (wr d)) (signalled (spared wr d))"
  by (simp add: piped_def signalled_def spared_def errno_defs)

lemma first_write_spared: "piped (first_write wr ch d s) (first_write (spared wr) ch d s)"
  unfolding first_write_def Let_def by (simp add: piped_bind [OF signalled_spared])

lemma sendInLoop_spared: "piped (sendInLoop ret wr d s) (sendInLoop ret (spared wr) d s)"
  unfolding sendInLoop_def by (auto intro!: piped_bind first_write_spared split: option.split)

lemma send_spared: "piped (TcpConnection_send ret wr d s) (TcpConnection_send ret (spared wr) d s)"
  using sendInLoop_spared by (simp add: TcpConnection_send_def)

lemma writeFd_spared: "writeFd (spared wr) b = (case writeFd wr b of Inl e \<Rightarrow> Inl e | Inr r \<Rightarrow> Inr (if r = Inl EPIPE then Inl ECONNRESET else r))"
  by (cases "read_range (storage b) (readerIndex b) (readableBytes b)") (simp_all add: writeFd_def spared_def)

lemma handleWrite_spared: "piped (handleWrite ret wr s) (handleWrite ret (spared wr) s)"
proof (cases "writeFd wr (outputBuffer s)")
  case (Inr r)
  then show ?thesis
    by (cases "r = Inl EPIPE") (auto simp: handleWrite_def writeFd_spared piped_def split: option.split)
qed (simp add: handleWrite_def writeFd_spared split: option.split)

lemma member_spared: "piped (conn_member ret rd wr t ev k) (conn_member ret rd (\<lambda>ev. spared (wr ev)) t ev k)"
proof (cases ev)
  case OnRead
  have "piped (EchoServer_onMessage ret (wr OnRead) t k) (EchoServer_onMessage ret (spared (wr OnRead)) t k)" for k
    unfolding EchoServer_onMessage_def by (auto intro!: piped_bind send_spared simp: case_prod_beta)
  then show ?thesis unfolding OnRead conn_member.simps handleRead_def Let_def
    by (intro piped_bind) (auto simp: case_prod_beta split: sum.split)
qed (simp_all add: handleWrite_spared)

lemma callback_spared: "piped (conn_callback ret rd wr c ev t s) (conn_callback ret rd (\<lambda>ev. spared (wr ev)) c ev t s)"
  unfolding conn_callback_def in_conn_def
  by (intro piped_bind) (auto intro!: piped_bind member_spared split: option.split)

lemma handleEvent_piped:
  assumes "\<And>cb t s. piped (run cb t s) (run' cb t s)"
  shows "piped (handleEvent run lock t ch s) (handleEvent run' lock t ch s)"
proof -
  have c: "piped (call_cb run cb t s) (call_cb run' cb t s)" for cb t s using assms by (simp add: call_cb_def split: option.split)
  have "piped (handleEventWithGuard run t ch s) (handleEventWithGuard run' t ch s)"
    unfolding handleEventWithGuard_def by (auto intro!: piped_bind c)
  then show ?thesis by (simp add: handleEvent_def)
qed

lemma handle_spared:
  "piped (sys_handle ret hf wcc rd wr env t l q s) (sys_handle ret hf wcc rd (\<lambda>ev. spared (wr ev)) env t l q s)"
  unfolding sys_handle_def by (auto intro!: handleEvent_piped callback_spared split: option.split)

section \<open>Handling a channel\<close>

lemma newConnection_kept:
  assumes new: "sys_newConnection ret hf wcc q la sfd peer s = Inr s'" and fresh: "fresh_for s q sfd" and none: "conns s (next_object (ctl s)) = None"
  shows "\<exists>l. others_kept (next_object (ctl s)) l q s s'"
proof -
  let ?c = "next_object (ctl s)"
  obtain l k where k: "TcpConnection (Some (reactors s l, loop_fresh)) q (connName (ctl s) (nextConnId (ctl s))) sfd la peer = Inr k"
    and run: "sys_run_in_loop ret (base_loop (ctl s)) l (Establish ?c) (s\<lparr>ctl := register_connection l sfd (ctl s),
      conns := (conns s)(?c \<mapsto> setWriteCompleteCallback wcc k), reactors := (reactors s)(l := rx k)\<rparr>) = Inr s'"
    using new by (auto simp: sys_newConnection_def Let_def split: if_splits)
  let ?t = "s\<lparr>ctl := register_connection l sfd (ctl s), conns := (conns s)(?c \<mapsto> setWriteCompleteCallback wcc k), reactors := (reactors s)(l := rx k)\<rparr>"
  have k1: "chan k = q" "\<And>d. d \<noteq> q \<Longrightarrow> chans (rx k) d = chans (reactors s l) d"
    using k by (auto simp: TcpConnection_def CheckLoopNotNull_def Let_def)
  have t: "others_kept ?c l q s ?t" using k1 by (auto simp: others_kept_def register_connection_def Let_def)
  have "others_kept ?c l q ?t s'"
  proof (cases "base_loop (ctl s) = l")
    case False
    then have "s' = ?t\<lparr>ctl := post l (Establish ?c) (ctl ?t)\<rparr>" using run by (simp add: sys_run_in_loop_def)
    then show ?thesis by (simp add: others_kept_def post_def)
  next
    case True
    let ?u = "?t\<lparr>ctl := exec_functor (Establish ?c) (ctl ?t)\<rparr>"
    have step: "in_conn (connectEstablished ret EchoServer_onConnection ?c) ?c ?u = Inr s'" using run True by (simp add: sys_run_in_loop_def)
    have u: "others_kept ?c l q ?u s'"
      using in_conn_kept(1) [OF step _ _ connectEstablished_own(1), of "\<lparr>conn_name = connName (ctl s) (nextConnId (ctl s)), conn_loop = l, conn_fd = sfd\<rparr>"
          "setWriteCompleteCallback wcc k"] k1(1)
      by (simp add: register_connection_def Let_def setWriteCompleteCallback_def)
    have "others_kept ?c l q ?t ?u" using exec_ctl_kept [of "Establish ?c" l q ?t] by simp
    from others_kept_trans [OF this u] show ?thesis .
  qed
  from others_kept_trans [OF t this] show ?thesis by blast
qed

text \<open>The pool has a loop for every connection.\<close>

definition pool_ready :: "(string \<Rightarrow> nat) \<Rightarrow> 'l server \<Rightarrow> bool" where
  "pool_ready hf x \<longleftrightarrow> (\<forall>key. \<exists>l. getNextLoop hf key (thread_pool x) = Inr l)"

text \<open>
  Handling a channel whose turn has come: it ends without an error, the server makes at most one step, and every other active channel of
  every loop stays one.
\<close>

definition handled_well :: "(string \<Rightarrow> nat) \<Rightarrow> 'l \<Rightarrow> ptr \<Rightarrow> 'l system \<Rightarrow> 'l system \<Rightarrow> bool" where
  "handled_well hf l q s s' \<longleftrightarrow> sys_ok s' \<and> (ctl s' = ctl s \<or> server_step hf (ctl s) (ctl s')) \<and> acceptor_bound s' \<and>
     (\<forall>m d. (m, d) \<noteq> (l, q) \<longrightarrow> active_ok s m d \<longrightarrow> active_ok s' m d) \<and> (\<exists>c l' q'. others_kept c l' q' s s')"

lemma handled_nothing: "sys_ok s \<Longrightarrow> acceptor_bound s \<Longrightarrow> handled_well hf l q s s"
  using others_kept_refl by (auto simp: handled_well_def)

lemma accept_handled:
  assumes ok: "sys_ok s" and acc: "epoll_accepts ret" and ab: "acceptor_bound s" and pool: "pool_ready hf (ctl s)" and fits: "event_fits rd wr (rc, addr, q', la) q s"
  shows "\<exists>s'. acceptor_callback ret hf wcc (rc, addr, q', la) ev t s = Inr s' \<and> handled_well hf l q s s'"
proof (cases "Acceptor_handleRead rc addr (server_acceptor s)")
  case (Handed_over sfd peer)
  have sfd: "sfd = rc" "0 \<le> rc" using Handed_over by (auto simp: Acceptor_handleRead_def Socket_accept_def Let_def split: if_splits)
  have fresh: "fresh_for s q' sfd" "nextConnId (ctl s) \<noteq> 2 ^ 31 - 1" using fits sfd by (auto simp: event_fits_def)
  obtain m where m: "getNextLoop hf (toIp peer) (thread_pool (ctl s)) = Inr m" using pool unfolding pool_ready_def by blast
  obtain s' where s': "sys_newConnection ret hf wcc q' la sfd peer s = Inr s'" "sys_ok s'" "newConnection hf sfd peer (ctl s) = Inr (ctl s')"
    using sys_newConnection_ok [OF ok acc fresh(1) m fresh(2)] by blast
  let ?c = "next_object (ctl s)"
  have mo: "map_ok (ctl s)" and st: "stands s ?c (phases (ctl s) ?c)" using ok by (simp_all add: sys_ok_def)
  have obj: "objects (ctl s) ?c = None" using map_okD(1) [OF mo, of ?c] by (cases "objects (ctl s) ?c") auto
  then have none: "conns s ?c = None" using st by (simp add: stands_def split: option.splits)
  obtain l' where kept: "others_kept ?c l' q' s s'" using newConnection_kept [OF s'(1) fresh(1) none] by blast
  have apart: "(m, d) \<noteq> (l', q')" if "chans (reactors s m) d = Some ch" for m d ch using that fresh(1) by (auto simp: fresh_for_def)
  have "server_step hf (ctl s) (ctl s')" by (rule server_step.accept [OF Handed_over s'(3)])
  moreover have "acceptor_bound s'" using acceptor_bound_kept [OF ab kept] apart ab by (auto simp: acceptor_bound_def)
  moreover have "active_ok s' m d" if a: "active_ok s m d" for m d
  proof (rule active_kept [OF a kept])
    show "(m, d) \<noteq> (l', q')" using a apart by (auto simp: active_ok_def split: option.splits)
    show "\<not> up_conn s m d ?c" using obj by (simp add: up_conn_def)
  qed
  ultimately show ?thesis using Handed_over s'(1,2) kept by (auto simp: acceptor_callback_def handled_well_def)
qed (use ok ab handled_nothing in \<open>auto simp: acceptor_callback_def\<close>)

lemma sys_handle_returns:
  assumes ok: "sys_ok s" and acc: "epoll_accepts ret" and ab: "acceptor_bound s" and pool: "pool_ready hf (ctl s)"
    and act: "active_ok s l q" and fits: "event_fits rd wr env q s" and wr: "\<forall>ev. write_returns (wr ev)"
  shows "\<exists>s'. sys_handle ret hf wcc rd wr env t l q s = Inr s' \<and> (closed_again l q s s' \<or> handled_well hf l q s s')"
proof -
  obtain ch where ch: "chans (reactors s l) q = Some ch" "tied ch \<Longrightarrow> up_conn s l q (tie ch)"
    using act by (auto simp: active_ok_def split: option.splits)
  obtain rc addr q' la where env: "env = (rc, addr, q', la)" by (cases env)
  show ?thesis
  proof (cases "l = base_loop (ctl s) \<and> q = acceptChannel (server_acceptor s)")
    case True
    then have cb: "\<not> tied ch" "readCallback ch = Some OnRead" "writeCallback ch = None" "closeCallback ch = None" "errorCallback ch = None"
      using ab ch(1) by (auto simp: acceptor_bound_def)
    have "sys_handle ret hf wcc rd wr env t l q s =
        (if revents ch AND (EPOLLIN OR EPOLLPRI) \<noteq> 0 then acceptor_callback ret hf wcc env OnRead t s else Inr s)"
      using ch(1) True cb by (simp add: sys_handle_def handleEvent_def handleEventWithGuard_def call_cb_def bind_Inr_id)
    then show ?thesis using accept_handled [OF ok acc ab pool fits [unfolded env], where ev = OnRead and t = t and wcc = wcc and l = l] handled_nothing [OF ok ab] env by auto
  next
    case False
    show ?thesis
    proof (cases "tied ch")
      case untied: False
      have "call_cb (\<lambda>ev t. Inr) cb t u = Inr u" for cb :: "conn_event option" and u :: "'a system" by (simp add: call_cb_def split: option.split)
      then have "handleEventWithGuard (\<lambda>ev t. Inr) t ch s = Inr s" by (simp add: handleEventWithGuard_def)
      then have "sys_handle ret hf wcc rd wr env t l q s = Inr s"
        using ch(1) untied False by (auto simp: sys_handle_def handleEvent_def)
      then show ?thesis using handled_nothing [OF ok ab] by blast
    next
      case tied: True
      let ?c = "tie ch"
      have up: "up_conn s l q ?c" using ch(2) tied by simp
      obtain i k where i: "objects (ctl s) ?c = Some i" "conns s ?c = Some k" "conn_loop i = l" "chan k = q" "phases (ctl s) ?c = Established"
        using up_connE [OF up] by metis
      have "stands s ?c Established" using ok i(5) by (metis sys_ok_def)
      then have b: "bound_channel (chans (reactors s l) q) ?c (conn_fd i) Established" using i by (simp add: stands_def)
      then have "wired ch" using ch(1) by (simp add: bound_channel_def)
      then have run: "sys_handle ret hf wcc rd wr env t l q s = run_events (conn_callback ret rd wr ?c) t (due_events (revents ch)) s"
        using ch(1) tied False i(2) by (auto simp: sys_handle_def handleEvent_def wired_dispatch)
      have e: "readv_contract rd" "\<And>k. conns s ?c = Some k \<Longrightarrow> conn_fits rd k"
        using fits i(2,4) by (auto simp: event_fits_def)
      have serv: "in_service s l q ?c s" using ok up by (simp add: in_service_def)
      have "\<exists>s'. run_events (conn_callback ret rd wr ?c) t (due_events (revents ch)) s = Inr s' \<and> (in_service s l q ?c s' \<or> twice_closed ?c s s')"
      proof (cases "mask_ok (revents ch)")
        case True
        from service_all [OF serv up acc e(1) wr e(2) True, of t] show ?thesis by blast
      next
        case False
        from service_bad [OF serv up acc e(1) wr i(2) e(2) [OF i(2)] False, of t] show ?thesis by blast
      qed
      then obtain s' where s': "run_events (conn_callback ret rd wr ?c) t (due_events (revents ch)) s = Inr s'"
        "in_service s l q ?c s' \<or> closed_again l q s s'" using ch(1) tied by (auto simp: twice_closed_def closed_again_def)
      show ?thesis
      proof (cases "closed_again l q s s'")
        case True
        then show ?thesis using run s'(1) by auto
      next
        case False
        then have s'': "in_service s l q ?c s'" using s'(2) by simp
        have kept: "others_kept ?c l q s s'" using s'' by (simp add: in_service_def)
        have "active_ok s' m d" if a: "active_ok s m d" "(m, d) \<noteq> (l, q)" for m d
          by (rule active_kept [OF a(1) kept a(2)]) (use a(2) i in \<open>auto simp: up_conn_def\<close>)
        moreover have "acceptor_bound s'" by (rule acceptor_bound_kept [OF ab kept acceptor_apart [OF ab b]])
        moreover have "ctl s' = ctl s \<or> server_step hf (ctl s) (ctl s')"
          using s'' server_step.close [OF i(1,5)] by (auto simp: in_service_def)
        ultimately show ?thesis using run s'(1) s'' kept by (auto simp: handled_well_def in_service_def)
      qed
    qed
  qed
qed

text \<open>Whatever the writes do, the channel is handled like that or the process ends.\<close>

lemma sys_handle_ok:
  assumes ok: "sys_ok s" and acc: "epoll_accepts ret" and ab: "acceptor_bound s" and pool: "pool_ready hf (ctl s)"
    and act: "active_ok s l q" and fits: "event_fits rd wr env q s"
  shows "(\<exists>s'. sys_handle ret hf wcc rd wr env t l q s = Inr s' \<and> (closed_again l q s s' \<or> handled_well hf l q s s')) \<or>
    sys_handle ret hf wcc rd wr env t l q s = Inl Sigpipe \<and> (\<exists>ev d. wr ev d = Inl EPIPE)"
proof -
  let ?wr = "\<lambda>ev. spared (wr ev)"
  have wr: "\<forall>ev. write_returns (?wr ev)" using fits spared_returns by (auto simp: event_fits_def)
  have fits': "event_fits rd ?wr env q s" using fits wr unfolding event_fits_def write_returns_def by blast
  obtain s' where s': "sys_handle ret hf wcc rd ?wr env t l q s = Inr s'" "closed_again l q s s' \<or> handled_well hf l q s s'"
    using sys_handle_returns [OF ok acc ab pool act fits' wr] by blast
  show ?thesis
  proof (cases "\<exists>ev d. wr ev d = Inl EPIPE")
    case True
    then show ?thesis using handle_spared [of ret hf wcc rd wr env t l q s] s' by (auto simp: piped_def)
  next
    case False
    then have "?wr = wr" by (intro ext) (simp add: spared_def)
    then show ?thesis using s' by auto
  qed
qed

section \<open>Polling\<close>

lemma revents_related:
  assumes "rel_fun (=) (rel_option same_but_revents) cs cs'"
  shows "cs c = Some ch \<Longrightarrow> \<exists>e. cs' c = Some (ch\<lparr>revents := e\<rparr>)" and "cs' c = Some ch' \<Longrightarrow> \<exists>ch e. cs c = Some ch \<and> ch' = ch\<lparr>revents := e\<rparr>"
proof -
  have r: "rel_option same_but_revents (cs c) (cs' c)" using assms by (simp add: rel_fun_def)
  show "cs c = Some ch \<Longrightarrow> \<exists>e. cs' c = Some (ch\<lparr>revents := e\<rparr>)" using r by (cases "cs' c") (auto simp: same_but_revents_def)
  show "cs' c = Some ch' \<Longrightarrow> \<exists>ch e. cs c = Some ch \<and> ch' = ch\<lparr>revents := e\<rparr>" using r by (cases "cs c") (auto simp: same_but_revents_def)
qed

lemma conn_stage_revents:
  assumes st: "conn_stage p (k\<lparr>rx := r\<rparr>)" and ok: "reactor_ok r'" "private_fds r'" and rel: "rel_fun (=) (rel_option same_but_revents) (chans r) (chans r')"
  shows "conn_stage p (k\<lparr>rx := r'\<rparr>)"
proof -
  obtain ch where ch: "chans r (chan k) = Some ch" using conn_stage_channel [OF st] by auto
  obtain e where e: "chans r' (chan k) = Some (ch\<lparr>revents := e\<rparr>)" using revents_related(1) [OF rel ch] by blast
  have use: "usable r' (chan k)" using private_usable [OF ok e] .
  have m: "mask_of r' (chan k) = mask_of r (chan k)" using ch e by (simp add: mask_of_def)
  have w: "writing (k\<lparr>rx := r'\<rparr>) = writing (k\<lparr>rx := r\<rparr>)" using m by (simp add: writing_def)
  have "conn_new (k\<lparr>rx := r'\<rparr>)" if "conn_new (k\<lparr>rx := r\<rparr>)" using that ok(1) use m by (simp add: conn_new_def)
  moreover have "conn_ok (k\<lparr>rx := r'\<rparr>)" if "conn_ok (k\<lparr>rx := r\<rparr>)" using that ok(1) use w by (simp add: conn_ok_def)
  ultimately show ?thesis using st m by (cases p) simp_all
qed

lemma bound_channel_revents:
  assumes "rel_fun (=) (rel_option same_but_revents) cs cs'" and "bound_channel (cs q) c f p"
  shows "bound_channel (cs' q) c f p"
proof -
  obtain ch where ch: "cs q = Some ch" "wired ch" "fd ch = f" "channel_stage p c ch" using assms(2) by (auto simp: bound_channel_def split: option.splits)
  obtain e where "cs' q = Some (ch\<lparr>revents := e\<rparr>)" using revents_related(1) [OF assms(1) ch(1)] by blast
  moreover have "channel_stage p c (ch\<lparr>revents := e\<rparr>)" using ch(4) by (cases p) (simp_all add: registered_reading_def)
  ultimately show ?thesis using ch by (simp add: bound_channel_def wired_def)
qed

text \<open>A reactor that has polled, put back into the system.\<close>

lemma polled_ok:
  assumes ok: "sys_ok s" and r: "reactor_ok r" and rel: "rel_fun (=) (rel_option same_but_revents) (chans (reactors s l)) (chans r)"
    and s': "s' = s\<lparr>reactors := (reactors s)(l := r)\<rparr>"
  shows "sys_ok s'"
proof -
  have w: "world s" "waiting_ok (ctl s) None" "map_ok (ctl s)" and st: "\<And>d. stands s d (phases (ctl s) d)" using ok by (simp_all add: sys_ok_def)
  have priv: "private_fds r"
  proof -
    have "private_fds (reactors s l)" using w(1) by (simp add: world_def)
    then show ?thesis unfolding private_fds_def using revents_related(2) [OF rel] by (metis channel.ext_inject channel.surjective channel.update_convs(3))
  qed
  have "owned s'"
    unfolding owned_def
  proof (intro allI impI)
    fix m q ch assume ch: "chans (reactors s' m) q = Some ch" "tied ch"
    have "\<exists>c0. chans (reactors s m) q = Some c0 \<and> tied c0 \<and> tie c0 = tie ch"
    proof (cases "m = l")
      case True
      then obtain c0 e where "chans (reactors s l) q = Some c0" "ch = c0\<lparr>revents := e\<rparr>" using revents_related(2) [OF rel, of q ch] ch(1) s' by auto
      then show ?thesis using ch(2) True by simp
    qed (use ch s' in simp)
    then show "\<exists>i k. objects (ctl s') (tie ch) = Some i \<and> conn_loop i = m \<and> conns s' (tie ch) = Some k \<and> chan k = q"
      using w(1) unfolding world_def owned_def s' by simp metis
  qed
  then have world: "world s'" using w(1) r priv by (simp add: world_def s')
  have "stands s' d (phases (ctl s) d)" for d
  proof (cases "objects (ctl s) d")
    case i: (Some i)
    show ?thesis
    proof (cases "conns s d")
      case (Some k)
      have "conn_stage (phases (ctl s) d) (k\<lparr>rx := reactors s (conn_loop i)\<rparr>)" "bound_channel (chans (reactors s (conn_loop i)) (chan k)) d (conn_fd i) (phases (ctl s) d)"
        using st [of d] i Some by (simp_all add: stands_def)
      then show ?thesis using i Some s' conn_stage_revents [OF _ r priv rel] bound_channel_revents [OF rel] by (cases "conn_loop i = l") (simp_all add: stands_def)
    qed (use st [of d] i s' in \<open>simp add: stands_def\<close>)
  qed (use st [of d] s' in \<open>simp add: stands_def\<close>)
  then show ?thesis using w world by (simp add: sys_ok_def s')
qed

text \<open>A poll that the kernel answers by its contract ends, and what it reports are channels in use.\<close>

lemma poll_active:
  assumes ok: "sys_ok s" and res: "outcome_ok (reactors s l) res" and ab: "acceptor_bound s"
  obtains active r where "poll res (reactors s l) = Inr (active, r)" and "distinct active" and "sys_ok (s\<lparr>reactors := (reactors s)(l := r)\<rparr>)"
    and "\<forall>q\<in>set active. active_ok (s\<lparr>reactors := (reactors s)(l := r)\<rparr>) l q" and "acceptor_bound (s\<lparr>reactors := (reactors s)(l := r)\<rparr>)"
proof -
  let ?r0 = "reactors s l"
  have r0: "reactor_ok ?r0" using ok by (simp add: sys_ok_def world_def)
  then obtain p where p: "poll_ptr ?r0 = Some p" "poller_ok (chans ?r0) p" by (auto simp: reactor_ok_def split: option.splits)
  show thesis
  proof (cases res)
    case (Inl e)
    then have "poll res ?r0 = Inr ([], ?r0)" using p(1) by (simp add: poll_def)
    then show thesis using that [of "[]" ?r0] ok ab by simp
  next
    case (Inr es)
    have wc: "wait_contract ?r0 es" using res Inr by (simp add: outcome_ok_def)
    obtain r where r: "poll (Inr es) ?r0 = Inr (map snd es, r)" "reactor_ok r" "rel_fun (=) (rel_option same_but_revents) (chans ?r0) (chans r)"
      "\<forall>(e, c)\<in>set es. \<exists>ch. chans r c = Some ch \<and> revents ch = e" using poll_ok [OF r0 wc] by blast
    let ?s = "s\<lparr>reactors := (reactors s)(l := r)\<rparr>"
    have oks: "sys_ok ?s" by (rule polled_ok [OF ok r(2,3) refl])
    have "active_ok ?s l q" if q: "q \<in> set (map snd es)" for q
    proof -
      obtain e where e: "(e, q) \<in> set es" using q by auto
      obtain ch where ch: "chans r q = Some ch" "revents ch = e" using r(4) e by fastforce
      obtain c0 x where c0: "chans ?r0 q = Some c0" "ch = c0\<lparr>revents := x\<rparr>" using revents_related(2) [OF r(3) ch(1)] by blast
      have "up_conn ?s l q (tie ch)" if t: "tied ch"
      proof -
        have t0: "tied c0" "tie c0 = tie ch" using t c0(2) by simp_all
        obtain f m where "interest (ctl_calls p) f = Some (m, q)" using wc e p(1) by (fastforce simp: wait_contract_def)
        then have added: "index c0 = kAdded" using p(2) c0(1) unfolding poller_ok_def by (metis option.inject)
        obtain i k where i: "objects (ctl s) (tie ch) = Some i" "conn_loop i = l" "conns s (tie ch) = Some k" "chan k = q"
          using ok c0(1) t0 unfolding sys_ok_def world_def owned_def by metis
        have "stands s (tie ch) (phases (ctl s) (tie ch))" using ok by (simp add: sys_ok_def)
        then have "channel_stage (phases (ctl s) (tie ch)) (tie ch) c0" using i c0(1) by (simp add: stands_def bound_channel_def)
        then have "phases (ctl s) (tie ch) = Established" using t0 added by (cases "phases (ctl s) (tie ch)") (simp_all add: index_defs)
        then show ?thesis using i by (simp add: up_conn_def)
      qed
      then show ?thesis using ch by (simp add: active_ok_def)
    qed
    moreover have "acceptor_bound ?s"
    proof (cases "base_loop (ctl s) = l")
      case True
      obtain ch where ch: "chans ?r0 (acceptChannel (server_acceptor s)) = Some ch"
        "\<not> tied ch \<and> readCallback ch = Some OnRead \<and> writeCallback ch = None \<and> closeCallback ch = None \<and> errorCallback ch = None"
        using ab True by (auto simp: acceptor_bound_def)
      obtain e where "chans r (acceptChannel (server_acceptor s)) = Some (ch\<lparr>revents := e\<rparr>)" using revents_related(1) [OF r(3) ch(1)] by blast
      then show ?thesis using ch(2) True by (simp add: acceptor_bound_def)
    qed (use ab in \<open>simp add: acceptor_bound_def\<close>)
    moreover have "distinct (map snd es)" using wc p(1) by (simp add: wait_contract_def)
    ultimately show thesis using that r(1) oks Inr by blast
  qed
qed

section \<open>The invariant of the rounds\<close>

definition loop_ok :: "'l system \<Rightarrow> 'l \<Rightarrow> round_pc \<Rightarrow> bool" where
  "loop_ok s l pc \<longleftrightarrow>
     (case pc of InPoll \<Rightarrow> True
      | InDispatch qs \<Rightarrow> distinct qs \<and> (\<forall>q\<in>set qs. active_ok s l q)
      | InFunctors n \<Rightarrow> n \<le> length (queues (ctl s) l))"

definition rounds_ok :: "(string \<Rightarrow> nat) \<Rightarrow> 'l rounds \<Rightarrow> bool" where
  "rounds_ok hf w \<longleftrightarrow> sys_ok (whole w) \<and> no_listen (ctl (whole w)) \<and> acceptor_bound (whole w) \<and> pool_ready hf (ctl (whole w)) \<and>
     (\<forall>l. loop_ok (whole w) l (round_at w l))"

lemma loop_ok_kept:
  assumes "loop_ok s m pc" and "\<And>d. active_ok s m d \<Longrightarrow> active_ok s' m d" and "\<exists>fs. queues (ctl s') m = queues (ctl s) m @ fs"
  shows "loop_ok s' m pc"
  using assms by (cases pc) (auto simp: loop_ok_def)

lemma queues_kept: "others_kept c l q s s' \<Longrightarrow> \<exists>fs. queues (ctl s') m = queues (ctl s) m @ fs"
  by (simp add: others_kept_def)

lemma pool_kept: "others_kept c l q s s' \<Longrightarrow> pool_ready hf (ctl s') = pool_ready hf (ctl s)"
  by (simp add: others_kept_def pool_ready_def)

text \<open>The turn of a channel.\<close>

lemma handled_keeps:
  assumes ok: "rounds_ok hf w" and pc: "round_at w l = InDispatch (q # qs)" and well: "handled_well hf l q (whole w) s'"
  shows "rounds_ok hf (w\<lparr>whole := s', round_at := (round_at w)(l := InDispatch qs), closed_twice := b\<rparr>)"
proof -
  obtain c l' q' where kept: "others_kept c l' q' (whole w) s'" using well by (auto simp: handled_well_def)
  have act: "\<And>m d. (m, d) \<noteq> (l, q) \<Longrightarrow> active_ok (whole w) m d \<Longrightarrow> active_ok s' m d" using well by (auto simp: handled_well_def)
  have "loop_ok (whole w) l (round_at w l)" using ok by (simp add: rounds_ok_def)
  then have l: "distinct (q # qs)" "\<forall>d\<in>set (q # qs). active_ok (whole w) l d" using pc by (simp_all add: loop_ok_def)
  have "loop_ok s' m (((round_at w)(l := InDispatch qs)) m)" for m
  proof (cases "m = l")
    case True
    have "active_ok s' l d" if "d \<in> set qs" for d using act [of l d] l that by auto
    then show ?thesis using True l(1) by (simp add: loop_ok_def)
  next
    case False
    have "loop_ok (whole w) m (round_at w m)" using ok by (simp add: rounds_ok_def)
    then have "loop_ok s' m (round_at w m)" by (rule loop_ok_kept) (use act False queues_kept [OF kept] in auto)
    then show ?thesis using False by simp
  qed
  moreover have "no_listen (ctl s')"
  proof -
    have "no_listen (ctl (whole w))" "ctl s' = ctl (whole w) \<or> server_step hf (ctl (whole w)) (ctl s')" using ok well by (simp_all add: rounds_ok_def handled_well_def)
    then show ?thesis using no_listen_step by auto
  qed
  ultimately show ?thesis using ok well pool_kept [OF kept] by (simp add: rounds_ok_def handled_well_def)
qed

text \<open>The turn of a functor.\<close>

lemma functor_turn:
  assumes ok: "rounds_ok hf w" and acc: "epoll_accepts ret" and pc: "round_at w l = InFunctors (Suc n)" and q: "queues (ctl (whole w)) l = f # fs"
  shows "\<exists>s'. sys_exec ret listen_rc f ((whole w)\<lparr>ctl := (ctl (whole w))\<lparr>queues := (queues (ctl (whole w)))(l := fs)\<rparr>\<rparr>) = Inr s' \<and>
    server_step hf (ctl (whole w)) (ctl s') \<and> rounds_ok hf (w\<lparr>whole := s', round_at := (round_at w)(l := InFunctors n)\<rparr>)"
proof -
  let ?s = "whole w"
  let ?x = "(ctl ?s)\<lparr>queues := (queues (ctl ?s))(l := fs)\<rparr>"
  let ?u = "?s\<lparr>ctl := ?x\<rparr>"
  have sok: "sys_ok ?s" and nl: "no_listen (ctl ?s)" and ab: "acceptor_bound ?s" and pool: "pool_ready hf (ctl ?s)" using ok by (simp_all add: rounds_ok_def)
  have f: "f \<noteq> Listen" using nl q by (auto simp: no_listen_def) (metis list.set_intros(1))
  have c: "waiting_ok (ctl ?s) None" "map_ok (ctl ?s)" and w: "world ?u" using sok by (simp_all add: sys_ok_def)
  note x = popped_ok [OF c q refl]
  have st: "\<forall>d. stands ?u d (phases (ctl ?u) d)" using sok by (simp add: sys_ok_def stands_ctl)
  have wu: "waiting_ok (ctl ?u) (Some (l, f))" "map_ok (ctl ?u)" using x(1) [OF f] x(3) by simp_all
  obtain s' where s': "sys_exec ret listen_rc f ?u = Inr s'" "sys_ok s'" "ctl s' = exec_functor f ?x" using sys_exec_ok [OF wu f w st acc] by auto
  have abu: "acceptor_bound ?u" using ab by (simp add: acceptor_bound_def)
  obtain q' where kept: "others_kept (subject f) l q' ?u s'" and apart: "(base_loop (ctl ?u), acceptChannel (server_acceptor ?u)) \<noteq> (l, q')"
    and notup: "phases (ctl ?u) (subject f) \<noteq> Established" using functor_kept [OF wu(1) f st abu s'(1)] by blast
  have "server_step hf (ctl ?s) (ctl s')" using server_step.run [OF q, of hf] s'(3) by simp
  moreover have "loop_ok s' m (((round_at w)(l := InFunctors n)) m)" for m
  proof (cases "m = l")
    case True
    have "loop_ok ?s l (round_at w l)" using ok by (simp add: rounds_ok_def)
    then have "Suc n \<le> length (queues (ctl ?s) l)" using pc by (simp add: loop_ok_def)
    moreover obtain gs where "queues (ctl s') l = fs @ gs" using queues_kept [OF kept, of l] by auto
    ultimately show ?thesis using True q by (simp add: loop_ok_def)
  next
    case False
    have "loop_ok ?s m (round_at w m)" using ok by (simp add: rounds_ok_def)
    then have "loop_ok s' m (round_at w m)"
    proof (rule loop_ok_kept)
      show "\<exists>gs. queues (ctl s') m = queues (ctl ?s) m @ gs" using queues_kept [OF kept, of m] False by simp
      fix d assume "active_ok ?s m d"
      then have "active_ok ?u m d" by (simp only: active_ok_queues)
      then show "active_ok s' m d" by (rule active_kept [OF _ kept]) (use False notup in \<open>auto simp: up_conn_def\<close>)
    qed
    then show ?thesis using False by simp
  qed
  moreover have "no_listen (ctl s')" using no_listen_step nl \<open>server_step hf (ctl ?s) (ctl s')\<close> by blast
  moreover have "acceptor_bound s'" by (rule acceptor_bound_kept [OF abu kept apart])
  moreover have "pool_ready hf (ctl s')" using pool_kept [OF kept] pool by (simp add: pool_ready_def)
  ultimately show ?thesis using s'(1,2) by (auto simp: rounds_ok_def)
qed

text \<open>Every step that closes no connection twice keeps the invariant, and the server makes at most one step with it.\<close>

lemma round_step_ok:
  assumes step: "round_step ret hf wcc w w'" and ok: "rounds_ok hf w" and acc: "epoll_accepts ret" and once: "\<not> closed_twice w'"
  shows "rounds_ok hf w' \<and> (ctl (whole w') = ctl (whole w) \<or> server_step hf (ctl (whole w)) (ctl (whole w')))"
proof -
  have sok: "sys_ok (whole w)" and ab: "acceptor_bound (whole w)" and pool: "pool_ready hf (ctl (whole w))" using ok by (simp_all add: rounds_ok_def)
  have lok: "loop_ok (whole w) m (round_at w m)" for m using ok by (simp add: rounds_ok_def)
  have same: "rounds_ok hf (w\<lparr>round_at := (round_at w)(l := pc)\<rparr>)" if "loop_ok (whole w) l pc" for l pc
    using ok that by (auto simp: rounds_ok_def)
  show ?thesis
    using step
  proof (cases rule: round_step.cases)
    case (polled l res active r)
    obtain active' r' where p: "poll res (reactors (whole w) l) = Inr (active', r')" "distinct active'" "sys_ok ((whole w)\<lparr>reactors := (reactors (whole w))(l := r')\<rparr>)"
      "\<forall>q\<in>set active'. active_ok ((whole w)\<lparr>reactors := (reactors (whole w))(l := r')\<rparr>) l q"
      "acceptor_bound ((whole w)\<lparr>reactors := (reactors (whole w))(l := r')\<rparr>)"
      by (rule poll_active [OF sok polled(3) ab])
    let ?s = "(whole w)\<lparr>reactors := (reactors (whole w))(l := r)\<rparr>"
    have eq: "active' = active" "r' = r" using p(1) polled(4) by simp_all
    have "loop_ok ?s m (((round_at w)(l := InDispatch active)) m)" for m
    proof (cases "m = l")
      case False
      have "loop_ok ?s m (round_at w m)" using lok [of m] by (rule loop_ok_kept) (use False in \<open>simp_all add: active_ok_elsewhere\<close>)
      then show ?thesis using False by simp
    qed (use p(2,4) eq in \<open>simp add: loop_ok_def\<close>)
    then show ?thesis using polled(1) p(3,5) eq ok by (simp add: rounds_ok_def)
  next
    case (handled l q qs rd wr env t s')
    have "active_ok (whole w) l q" using lok [of l] handled(2) by (simp add: loop_ok_def)
    moreover have "\<not> closed_again l q (whole w) s'" using once handled(1) by simp
    ultimately have well: "handled_well hf l q (whole w) s'"
      using sys_handle_ok [OF sok acc ab pool _ handled(3), of l wcc t] handled(4) by auto
    from handled_keeps [OF ok handled(2) well] show ?thesis using handled(1) well by (simp add: handled_well_def)
  next
    case (swapped l)
    then show ?thesis using same [of l "InFunctors (length (queues (ctl (whole w)) l))"] by (simp add: loop_ok_def)
  next
    case (ran l n f fs listen_rc s')
    from functor_turn [OF ok acc ran(2,3), of listen_rc] ran(4) have "server_step hf (ctl (whole w)) (ctl s')"
      "rounds_ok hf (w\<lparr>whole := s', round_at := (round_at w)(l := InFunctors n)\<rparr>)" by auto
    then show ?thesis using ran(1) by simp
  next
    case (finished l)
    then show ?thesis using same [of l InPoll] by (simp add: loop_ok_def)
  qed
qed

text \<open>The start.\<close>

lemma change_events_alive: "change_events ret f c r = Inr r' \<Longrightarrow> \<exists>ch. chans r' c = Some ch"
  by (auto simp: change_events_def updateChannel_def Let_def split: option.splits if_splits)

lemma started_acceptor:
  assumes start: "start_system ret hf startLoop n l addr nm sfd bind_rc listen_rc q rs = Inr s"
  shows "acceptor_bound s"
proof -
  obtain s0 a a' where s0: "TcpServer (Some l) addr nm = Inr s0" and a: "Acceptor sfd bind_rc q OnRead False (rs l) = Inr a"
    "Acceptor_listen ret listen_rc (setNewConnectionCallback a) = Inr a'"
    and s: "s = \<lparr>ctl = TcpServer_start hf startLoop False l (TcpServer_setThreadNum n s0), server_acceptor = a', conns = Map.empty, reactors = rs(l := acc_reactor a')\<rparr>"
    using start by (auto simp: start_system_def)
  let ?ch = "setReadCallback OnRead (Channel sfd)"
  have a1: "acceptChannel a = q" "acc_reactor a = (rs l)\<lparr>chans := (chans (rs l))(q \<mapsto> ?ch)\<rparr>"
    using a(1) by (auto simp: Acceptor_def createNonblocking_def bindAddress_def split: if_splits)
  have r: "acceptChannel a' = q" "change_events ret (\<lambda>e. e OR kReadEvent) q (acc_reactor a) = Inr (acc_reactor a')"
    using a(2) a1 by (auto simp: Acceptor_listen_def Socket_listen_def enableReading_def setNewConnectionCallback_def split: if_splits)
  have base: "base_loop (ctl s) = l"
    using s0 by (auto simp: s TcpServer_def CheckLoopNotNull_def TcpServer_start_def TcpServer_setThreadNum_def run_in_loop_def post_def Let_def)
  have "\<exists>ch. chans (acc_reactor a') q = Some ch"
    using r(2) by (rule change_events_alive)
  then have "\<exists>ch. chans (acc_reactor a') q = Some ch \<and> same_tie ?ch ch"
    using change_events_only [OF r(2)] a1(2) by (auto simp: only_channel_def)
  then obtain ch where ch: "chans (acc_reactor a') q = Some ch" "same_tie ?ch ch" by blast
  have "\<not> tied ch" "readCallback ch = Some OnRead" "writeCallback ch = None" "closeCallback ch = None" "errorCallback ch = None"
    using ch(2) by (simp_all add: same_tie_def same_wiring_def setReadCallback_def Channel_def)
  then show ?thesis using ch(1) r(1) base by (simp add: acceptor_bound_def s)
qed

lemma started_pool:
  assumes started: "started_server hf startLoop (int n) l addr nm x" and n: "0 < n"
  shows "pool_ready hf x"
proof -
  obtain s0 where s0: "TcpServer (Some l) addr nm = Inr s0" "x = TcpServer_start hf startLoop False l (TcpServer_setThreadNum (int n) s0)"
    using started by (auto simp: started_server_def)
  have "thread_pool x = snd (pool_start hf startLoop False (setThreadNum (int n) (EventLoopThreadPool l nm)))"
    using s0 by (auto simp: TcpServer_def CheckLoopNotNull_def TcpServer_setThreadNum_def TcpServer_start_def run_in_loop_def Let_def)
  from pool_choice [OF n this] show ?thesis unfolding pool_ready_def by blast
qed

lemma rounds_start_ok:
  assumes start: "rounds_start ret hf startLoop (int n) l addr nm sfd bind_rc listen_rc q rs w" and n: "0 < n" and ready: "loops_ready rs q sfd"
  shows "rounds_ok hf w \<and> started_server hf startLoop (int n) l addr nm (ctl (whole w))"
proof -
  have s: "start_system ret hf startLoop (int n) l addr nm sfd bind_rc listen_rc q rs = Inr (whole w)" "round_at w = (\<lambda>m. InPoll)"
    using start by (simp_all add: rounds_start_def)
  show ?thesis
    using start_system_ok [OF s(1) ready] started_acceptor [OF s(1)] started_pool [OF _ n] s(2) by (simp add: rounds_ok_def loop_ok_def)
qed

lemma closed_twice_stays: "round_step ret hf wcc w w' \<Longrightarrow> closed_twice w \<Longrightarrow> closed_twice w'"
  by (erule round_stepE) simp_all

lemma rounds_reach_ok:
  assumes reach: "reach (rounds_start ret hf startLoop (int n) l addr nm sfd bind_rc listen_rc q rs) (round_step ret hf wcc) w" and n: "0 < n"
    and ready: "loops_ready rs q sfd" and acc: "epoll_accepts ret" and once: "\<not> closed_twice w"
  shows "rounds_ok hf w \<and> reach (started_server hf startLoop (int n) l addr nm) (server_step hf) (ctl (whole w))"
proof -
  let ?I = "\<lambda>w. closed_twice w \<or> rounds_ok hf w \<and> reach (started_server hf startLoop (int n) l addr nm) (server_step hf) (ctl (whole w))"
  have "?I w"
    using reach
  proof (rule reach_invariant)
    fix w assume "rounds_start ret hf startLoop (int n) l addr nm sfd bind_rc listen_rc q rs w"
    from rounds_start_ok [OF this n ready] show "?I w" by (simp add: reach_init)
  next
    fix w w' assume w: "?I w" and st: "round_step ret hf wcc w w'"
    show "?I w'"
    proof (cases "closed_twice w'")
      case False
      then have "rounds_ok hf w" "reach (started_server hf startLoop (int n) l addr nm) (server_step hf) (ctl (whole w))"
        using w closed_twice_stays [OF st] by auto
      moreover from round_step_ok [OF st this(1) acc False]
      have "rounds_ok hf w'" "ctl (whole w') = ctl (whole w) \<or> server_step hf (ctl (whole w)) (ctl (whole w'))" by simp_all
      ultimately show ?thesis using reach_step by metis
    qed simp
  qed
  then show ?thesis using once by simp
qed

section \<open>Idle loops\<close>

text \<open>No loop but \<open>b\<close> has a connection or a functor, and the pool answers \<open>b\<close> for every address.\<close>

definition idle_but :: "(string \<Rightarrow> nat) \<Rightarrow> 'l \<Rightarrow> 'l server \<Rightarrow> bool" where
  "idle_but hf b x \<longleftrightarrow> base_loop x = b \<and> (\<forall>key. getNextLoop hf key (thread_pool x) = Inr b) \<and>
     (\<forall>c i. objects x c = Some i \<longrightarrow> conn_loop i = b) \<and> (\<forall>l. l \<noteq> b \<longrightarrow> queues x l = [])"

lemma idle_exec: "idle_but hf b x \<Longrightarrow> idle_but hf b (exec_functor f x)"
  by (cases f) (auto simp: idle_but_def removeConnectionInLoop_def post_def split: option.splits)

lemma idle_run_in_loop: "idle_but hf b x \<Longrightarrow> idle_but hf b (run_in_loop b b f x)"
  using idle_exec by (simp add: run_in_loop_def)

text \<open>The steps of the rounds keep that, whatever masks the kernel reports.\<close>

lemma call_cb_keeps:
  assumes "\<And>f s s'. I s \<Longrightarrow> run f t s = Inr s' \<Longrightarrow> I s'" and "I s" and "call_cb run cb t s = Inr s'"
  shows "I s'"
  using assms by (auto simp: call_cb_def split: option.splits)

lemma handleEvent_keeps:
  assumes run: "\<And>f s s'. I s \<Longrightarrow> run f t s = Inr s' \<Longrightarrow> I s'" and s: "I s" and step: "handleEvent run lock t ch s = Inr s'"
  shows "I s'"
proof (cases "s' = s")
  case False
  have opt: "I v" if "I u" "(if b then call_cb run cb t u else Inr u) = Inr v" for b cb u v
    using call_cb_keeps [of I run t u cb v] run that by (auto split: if_splits)
  obtain u1 u2 u3 where "(if revents ch AND EPOLLHUP \<noteq> 0 \<and> \<not> revents ch AND EPOLLIN \<noteq> 0 then call_cb run (closeCallback ch) t s else Inr s) = Inr u1"
    "(if revents ch AND EPOLLERR \<noteq> 0 then call_cb run (errorCallback ch) t u1 else Inr u1) = Inr u2"
    "(if revents ch AND (EPOLLIN OR EPOLLPRI) \<noteq> 0 then call_cb run (readCallback ch) t u2 else Inr u2) = Inr u3"
    "(if revents ch AND EPOLLOUT \<noteq> 0 then call_cb run (writeCallback ch) t u3 else Inr u3) = Inr s'"
    using step False unfolding handleEvent_def handleEventWithGuard_def by (auto simp: bind_result_def split: if_splits sum.splits)
  with s opt show ?thesis by metis
qed (use s in simp)

lemma in_conn_ctl: "in_conn op c s = Inr s' \<Longrightarrow> ctl s' = ctl s"
  by (auto simp: in_conn_def split: option.splits)

lemma free_conn_ctl [simp]: "ctl (free_conn c s) = ctl s"
  by (simp add: free_conn_def Let_def split: option.split)

lemma exec_ctl: "sys_exec ret rc f s = Inr s' \<Longrightarrow> ctl s' = exec_functor f (ctl s)"
  by (cases f) (auto dest!: in_conn_ctl simp del: exec_functor.simps)

lemma idle_run:
  assumes "idle_but hf b (ctl s)" and "sys_run_in_loop ret b b f s = Inr s'"
  shows "idle_but hf b (ctl s')"
  using assms idle_exec exec_ctl by (fastforce simp: sys_run_in_loop_def)

lemma idle_callback:
  assumes idle: "idle_but hf b (ctl s)" and step: "conn_callback ret rd wr c ev t s = Inr s'"
  shows "idle_but hf b (ctl s')"
proof -
  obtain u where u: "in_conn (conn_member ret rd wr t ev) c s = Inr u" "s' = u \<or> sys_removeConnection ret c u = Inr s'"
    using step by (auto simp: conn_callback_def split: option.splits if_splits)
  have i: "idle_but hf b (ctl u)" using idle in_conn_ctl [OF u(1)] by simp
  show ?thesis using u(2)
  proof
    assume r: "sys_removeConnection ret c u = Inr s'"
    let ?u = "u\<lparr>ctl := (ctl u)\<lparr>phases := (phases (ctl u))(c := Closing)\<rparr>\<rparr>"
    obtain i where "objects (ctl u) c = Some i" "sys_run_in_loop ret (conn_loop i) (base_loop (ctl u)) (RemoveInLoop c) ?u = Inr s'"
      using r by (auto simp: sys_removeConnection_def split: option.splits)
    then have "sys_run_in_loop ret b b (RemoveInLoop c) ?u = Inr s'" using i by (simp add: idle_but_def)
    moreover have "idle_but hf b (ctl ?u)" using i by (simp add: idle_but_def)
    ultimately show ?thesis by (rule idle_run [rotated])
  qed (use i in simp)
qed

lemma idle_accept:
  assumes idle: "idle_but hf b (ctl s)" and step: "acceptor_callback ret hf wcc env ev t s = Inr s'"
  shows "idle_but hf b (ctl s')"
proof -
  obtain rc addr q la where env: "env = (rc, addr, q, la)" by (cases env)
  have "s' = s \<or> (\<exists>sfd peer. sys_newConnection ret hf wcc q la sfd peer s = Inr s')"
    using step by (auto simp: acceptor_callback_def env split: accept_outcome.splits)
  then show ?thesis
  proof (elim disjE exE)
    fix sfd peer assume new: "sys_newConnection ret hf wcc q la sfd peer s = Inr s'"
    have b: "getNextLoop hf (toIp peer) (thread_pool (ctl s)) = Inr b" "base_loop (ctl s) = b" using idle by (simp_all add: idle_but_def)
    let ?u = "\<lambda>k. s\<lparr>ctl := register_connection b sfd (ctl s), conns := (conns s)(next_object (ctl s) \<mapsto> setWriteCompleteCallback wcc k),
      reactors := (reactors s)(b := rx k)\<rparr>"
    obtain k where k: "sys_run_in_loop ret b b (Establish (next_object (ctl s))) (?u k) = Inr s'"
      using new b by (auto simp: sys_newConnection_def Let_def split: if_splits)
    have "idle_but hf b (ctl (?u k))" using idle by (auto simp: idle_but_def register_connection_def Let_def)
    from idle_run [OF this k] show ?thesis .
  qed (use idle in simp)
qed

lemma idle_handle:
  assumes idle: "idle_but hf b (ctl s)" and step: "sys_handle ret hf wcc rd wr env t l q s = Inr s'"
  shows "idle_but hf b (ctl s')"
proof -
  obtain ch where "handleEvent (if l = base_loop (ctl s) \<and> q = acceptChannel (server_acceptor s) then acceptor_callback ret hf wcc env
      else if tied ch then conn_callback ret rd wr (tie ch) else (\<lambda>ev t. Inr)) (\<lambda>obj s. conns s obj \<noteq> None) t ch s = Inr s'"
    using step by (auto simp: sys_handle_def split: option.splits)
  then show ?thesis
  proof (rule handleEvent_keeps [where I = "\<lambda>s. idle_but hf b (ctl s)", rotated 2])
    fix f u v assume i: "idle_but hf b (ctl u)" and cb: "(if l = base_loop (ctl s) \<and> q = acceptChannel (server_acceptor s) then acceptor_callback ret hf wcc env
      else if tied ch then conn_callback ret rd wr (tie ch) else (\<lambda>ev t. Inr)) f t u = Inr v"
    have "acceptor_callback ret hf wcc env f t u = Inr v \<or> conn_callback ret rd wr (tie ch) f t u = Inr v \<or> v = u" using cb by (simp split: if_splits)
    then show "idle_but hf b (ctl v)" using idle_accept [OF i] idle_callback [OF i] i by blast
  qed (rule idle)
qed

lemma idle_round:
  assumes "round_step ret hf wcc w w'" and idle: "idle_but hf b (ctl (whole w))"
  shows "idle_but hf b (ctl (whole w'))"
  using assms(1)
proof (cases rule: round_step.cases)
  case (handled l q qs rd wr env t s')
  then show ?thesis using idle_handle [OF idle] by simp
next
  case (ran l n f fs listen_rc s')
  have "idle_but hf b ((ctl (whole w))\<lparr>queues := (queues (ctl (whole w)))(l := fs)\<rparr>)" using idle ran(3) by (auto simp: idle_but_def)
  then show ?thesis using ran(1) exec_ctl [OF ran(4)] idle_exec by simp
qed (use idle in simp_all)

lemma idle_start:
  assumes "started_server hf startLoop (int n) b addr nm x" and n: "0 < n" and large: "\<forall>i<n. \<forall>j<3. n \<le> hf (nm @ dec_nat i @ ''_0'' @ dec_nat j)"
  shows "idle_but hf b x"
proof -
  obtain s0 where s0: "TcpServer (Some b) addr nm = Inr s0" "x = TcpServer_start hf startLoop False b (TcpServer_setThreadNum (int n) s0)"
    using assms(1) by (auto simp: started_server_def)
  have x: "base_loop x = b" "objects x = Map.empty" "queues x = (\<lambda>l. [])"
    "thread_pool x = snd (pool_start hf startLoop False (setThreadNum (int n) (EventLoopThreadPool b nm)))"
    using s0 by (auto simp: TcpServer_def CheckLoopNotNull_def TcpServer_setThreadNum_def TcpServer_start_def run_in_loop_def Let_def)
  have "getNextLoop hf key (thread_pool x) = Inr b" for key using pool_choice [OF n x(4), of key] large by blast
  then show ?thesis using x by (simp add: idle_but_def)
qed

lemma idle_rounds:
  assumes reach: "reach (rounds_start ret hf startLoop (int n) b addr nm sfd bind_rc listen_rc q rs) (round_step ret hf wcc) w" and n: "0 < n"
    and ready: "loops_ready rs q sfd" and large: "\<forall>i<n. \<forall>j<3. n \<le> hf (nm @ dec_nat i @ ''_0'' @ dec_nat j)"
  shows "idle_but hf b (ctl (whole w))"
  using reach
proof (rule reach_invariant)
  fix w assume "rounds_start ret hf startLoop (int n) b addr nm sfd bind_rc listen_rc q rs w"
  then have "started_server hf startLoop (int n) b addr nm (ctl (whole w))" using rounds_start_ok [OF _ n ready] by blast
  then show "idle_but hf b (ctl (whole w))" by (rule idle_start [OF _ n large])
qed (rule idle_round)

section \<open>A running server\<close>

definition sample_rounds :: "(string \<Rightarrow> nat) \<Rightarrow> string rounds \<Rightarrow> bool" where
  "sample_rounds hf = rounds_start (\<lambda>n. 0) hf id (int 3) ''main'' sample_addr ''Echo'' 3 0 0 1 (\<lambda>m. sample_reactor0)"

text \<open>It starts, and the acceptor's channel is the one in the interest list of the main loop.\<close>

lemma sample_start:
  obtains s p where "(sample_rounds hf) \<lparr>whole = s, round_at = (\<lambda>m. InPoll), closed_twice = False\<rparr>" and "poll_ptr (reactors s ''main'') = Some p" and "event_slots p = 16"
    and "interest (ctl_calls p) = [3 \<mapsto> (kReadEvent, 1)]" and "conns s = Map.empty" and "nextConnId (ctl s) = 1"
    and "\<And>m d ch. chans (reactors s m) d = Some ch \<Longrightarrow> d = 1 \<and> fd ch = 3"
    and "base_loop (ctl s) = ''main''" and "acceptChannel (server_acceptor s) = 1" and "hasNewConnectionCallback (server_acceptor s)"
    and "objects (ctl s) = Map.empty" and "queues (ctl s) = (\<lambda>m. [])"
proof -
  obtain s0 where s0: "TcpServer (Some ''main'') sample_addr ''Echo'' = Inr s0"
    using toIpPort_length [of sample_addr] by (auto simp: TcpServer_def CheckLoopNotNull_def toIpPort_def)
  obtain a where a: "Acceptor 3 0 1 OnRead False sample_reactor0 = Inr a" by (simp add: Acceptor_def createNonblocking_def bindAddress_def)
  let ?ch = "(setReadCallback OnRead (Channel 3))\<lparr>events := kReadEvent, index := kAdded\<rparr>"
  let ?p = "\<lparr>channels = [3 \<mapsto> 1], event_slots = 16, ctl_calls = [(EPOLL_CTL_ADD, 3, kReadEvent, 1)]\<rparr>"
  obtain a' where a': "Acceptor_listen (\<lambda>n. 0) 0 (setNewConnectionCallback a) = Inr a'" "acc_reactor a' = \<lparr>chans = [1 \<mapsto> ?ch], poll_ptr = Some ?p\<rparr>"
    "acceptChannel a' = 1" "hasNewConnectionCallback a'"
  proof -
    have "acceptChannel a = 1" "acc_reactor a = sample_reactor0\<lparr>chans := [1 \<mapsto> setReadCallback OnRead (Channel 3)]\<rparr>"
      using a by (auto simp: Acceptor_def createNonblocking_def bindAddress_def sample_reactor0_def)
    then show thesis using that
      by (simp add: Acceptor_listen_def Socket_listen_def setNewConnectionCallback_def enableReading_def change_events_def updateChannel_def
          setReadCallback_def Channel_def kNew_def sample_reactor0_def epoll_update_def Let_def)
  qed
  define s where "s = \<lparr>ctl = TcpServer_start hf id False ''main'' (TcpServer_setThreadNum 3 s0), server_acceptor = a', conns = Map.empty,
    reactors = (\<lambda>m. sample_reactor0)(''main'' := acc_reactor a')\<rparr>"
  have "(sample_rounds hf) \<lparr>whole = s, round_at = (\<lambda>m. InPoll), closed_twice = False\<rparr>"
    using s0 a a' by (simp add: sample_rounds_def rounds_start_def start_system_def s_def)
  moreover have "poll_ptr (reactors s ''main'') = Some ?p" by (simp add: s_def a'(2))
  moreover have "interest (ctl_calls ?p) = [3 \<mapsto> (kReadEvent, 1)]" by (simp add: interest_def)
  moreover have "nextConnId (ctl s) = 1" "base_loop (ctl s) = ''main''" "objects (ctl s) = Map.empty" "queues (ctl s) = (\<lambda>m. [])"
    using s0 by (auto simp: s_def TcpServer_def CheckLoopNotNull_def toIpPort_def TcpServer_setThreadNum_def TcpServer_start_def run_in_loop_def Let_def split: if_splits)
  moreover have "d = 1 \<and> fd ch = 3" if "chans (reactors s m) d = Some ch" for m d ch
    using that by (cases "m = ''main''") (auto simp: s_def a'(2) sample_reactor0_def setReadCallback_def Channel_def split: if_splits)
  ultimately show thesis using that [of s ?p] a'(3,4) by (simp add: s_def)
qed

text \<open>The poller has room for events; it never gives that up.\<close>

definition slots :: "'cb reactor \<Rightarrow> bool" where
  "slots r \<longleftrightarrow> (case poll_ptr r of None \<Rightarrow> False | Some p \<Rightarrow> 1 \<le> event_slots p)"

lemma poll_slots: "poll res r = Inr (active, r') \<Longrightarrow> slots r \<Longrightarrow> slots r'"
  by (auto simp: poll_def slots_def split: option.splits sum.splits if_splits)

lemma change_events_slots: "change_events ret f c r = Inr r' \<Longrightarrow> slots r \<Longrightarrow> slots r'"
  by (auto simp: change_events_def updateChannel_def epoll_update_def slots_def Let_def split: option.splits if_splits)

text \<open>Its main loop polls, and finds the acceptor readable.\<close>

lemma sample_polled:
  obtains w where "reach (sample_rounds hf) (round_step (\<lambda>n. 0) hf True) w" and "round_at w ''main'' = InDispatch [1]"
    and "event_fits (\<lambda>iov. Inl 11) (\<lambda>ev d. Inl 11) (9, sample_addr, 2, sample_addr) 1 (whole w)" and "base_loop (ctl (whole w)) = ''main''"
    and "acceptChannel (server_acceptor (whole w)) = 1" and "hasNewConnectionCallback (server_acceptor (whole w))"
    and "\<exists>ch. chans (reactors (whole w) ''main'') 1 = Some ch \<and> revents ch = 1" and "slots (reactors (whole w) ''main'')"
    and "objects (ctl (whole w)) = Map.empty" and "queues (ctl (whole w)) = (\<lambda>m. [])" and "nextConnId (ctl (whole w)) = 1" and "\<not> closed_twice w"
    and "\<exists>v. (sample_rounds hf) v \<and> round_at v = (\<lambda>m. InPoll) \<and> round_step (\<lambda>n. 0) hf True v w"
proof -
  obtain s p where s: "(sample_rounds hf) \<lparr>whole = s, round_at = (\<lambda>m. InPoll), closed_twice = False\<rparr>" and p: "poll_ptr (reactors s ''main'') = Some p" "event_slots p = 16"
    "interest (ctl_calls p) = [3 \<mapsto> (kReadEvent, 1)]" and e: "conns s = Map.empty" "nextConnId (ctl s) = 1"
    and fr: "\<And>m d ch. chans (reactors s m) d = Some ch \<Longrightarrow> d = 1 \<and> fd ch = 3"
    and b: "base_loop (ctl s) = ''main''" "acceptChannel (server_acceptor s) = 1" "hasNewConnectionCallback (server_acceptor s)"
      "objects (ctl s) = Map.empty" "queues (ctl s) = (\<lambda>m. [])"
    using sample_start by metis
  let ?w = "\<lparr>whole = s, round_at = (\<lambda>m. InPoll), closed_twice = False\<rparr>"
  have ok: "rounds_ok hf ?w" using rounds_start_ok [OF s [unfolded sample_rounds_def] _ sample_ready] by simp
  have res: "outcome_ok (reactors s ''main'') (Inr [(1, 1)])"
    using p by (auto simp: outcome_ok_def wait_contract_def)
  have sok: "sys_ok s" "acceptor_bound s" using ok by (simp_all add: rounds_ok_def)
  have r0: "reactor_ok (reactors s ''main'')" using sok(1) by (simp add: sys_ok_def world_def)
  have wc: "wait_contract (reactors s ''main'') [(1, 1)]" using res by (simp add: outcome_ok_def)
  obtain r where r: "poll (Inr [(1, 1)]) (reactors s ''main'') = Inr ([1], r)" "rel_fun (=) (rel_option same_but_revents) (chans (reactors s ''main'')) (chans r)"
    "\<exists>ch. chans r 1 = Some ch \<and> revents ch = 1"
    using poll_ok [OF r0 wc] by auto
  have sl: "slots r" using poll_slots [OF r(1)] p by (simp add: slots_def)
  let ?w' = "?w\<lparr>whole := (whole ?w)\<lparr>reactors := (reactors (whole ?w))(''main'' := r)\<rparr>, round_at := (round_at ?w)(''main'' := InDispatch [1])\<rparr>"
  have first: "round_step (\<lambda>n. 0) hf True ?w ?w'" by (rule round_step.polled [of _ _ "Inr [(1, 1)]"]) (use res r(1) in simp_all)
  then have reach: "reach (sample_rounds hf) (round_step (\<lambda>n. 0) hf True) ?w'"
    by (rule reach_step [where init = "sample_rounds hf", OF reach_init [where init = "sample_rounds hf", OF s]])
  have fresh: "fresh_for (whole ?w') 2 9"
  proof -
    have "d = 1 \<and> fd ch = 3" if h: "chans (reactors (whole ?w') m) d = Some ch" for m d ch
    proof (cases "m = ''main''")
      case True
      then obtain c0 x where "chans (reactors s ''main'') d = Some c0" "ch = c0\<lparr>revents := x\<rparr>" using revents_related(2) [OF r(2), of d ch] h by auto
      then show ?thesis using fr [of "''main''" d c0] by simp
    qed (use fr [of m d ch] h in simp)
    then have a: "d = 1 \<and> fd ch = 3" if "chans (reactors (whole ?w') m) d = Some ch" for m d ch using that by blast
    have "chans (reactors (whole ?w') m) 2 = None" for m using a [of m 2] by (cases "chans (reactors (whole ?w') m) 2") auto
    then show ?thesis using a unfolding ServerSystem.fresh_for_def by fastforce
  qed
  have "readv_contract (\<lambda>iov. Inl 11)" "write_contract (\<lambda>d. Inl 11)" by (simp_all add: readv_contract_def write_contract_def)
  then have "event_fits (\<lambda>iov. Inl 11) (\<lambda>ev d. Inl 11) (9, sample_addr, 2, sample_addr) 1 (whole ?w')"
    using e fresh by (simp add: event_fits_def)
  moreover have "\<exists>v. (sample_rounds hf) v \<and> round_at v = (\<lambda>m. InPoll) \<and> round_step (\<lambda>n. 0) hf True v ?w'"
    using s first by (intro exI [of _ ?w]) simp
  ultimately show thesis by (intro that [of ?w'] reach) (use b r(3) sl e in simp_all)
qed

text \<open>It accepts, and has a connection.\<close>

lemma newConnection_conn: "sys_newConnection ret hf wcc q la sfd peer s = Inr s' \<Longrightarrow> conns s' (next_object (ctl s)) \<noteq> None"
  by (auto simp: sys_newConnection_def sys_run_in_loop_def in_conn_def Let_def split: if_splits option.splits)

lemma newConnection_objects: "sys_newConnection ret hf wcc q la sfd peer s = Inr s' \<Longrightarrow> objects (ctl s') (next_object (ctl s)) \<noteq> None"
  by (auto simp: sys_newConnection_def sys_run_in_loop_def in_conn_def register_connection_def Let_def split: if_splits option.splits)

lemma sample_connected:
  obtains w c i k where "reach (sample_rounds hf) (round_step (\<lambda>n. 0) hf True) w" and "\<not> closed_twice w" and "objects (ctl (whole w)) c = Some i" and "conns (whole w) c = Some k"
proof -
  let ?rd = "\<lambda>iov. Inl 11" and ?wr = "\<lambda>ev d. Inl 11" and ?env = "(9, sample_addr, 2, sample_addr) :: accept_env"
  obtain w ch where w: "reach (sample_rounds hf) (round_step (\<lambda>n. 0) hf True) w" "round_at w ''main'' = InDispatch [1]" "event_fits ?rd ?wr ?env 1 (whole w)"
    and b: "base_loop (ctl (whole w)) = ''main''" "acceptChannel (server_acceptor (whole w)) = 1" "hasNewConnectionCallback (server_acceptor (whole w))"
    and ch: "chans (reactors (whole w) ''main'') 1 = Some ch" "revents ch = 1" and once: "\<not> closed_twice w"
    using sample_polled by metis
  have ok: "rounds_ok hf w" using rounds_reach_ok [OF w(1) [unfolded sample_rounds_def] _ sample_ready sample_accepts(1) once] by simp
  then have s: "sys_ok (whole w)" "acceptor_bound (whole w)" "pool_ready hf (ctl (whole w))" and "loop_ok (whole w) ''main'' (round_at w ''main'')"
    by (simp_all add: rounds_ok_def)
  then have act: "active_ok (whole w) ''main'' 1" using w(2) by (simp add: loop_ok_def)
  obtain s' where s': "sys_handle (\<lambda>n. 0) hf True ?rd ?wr ?env 0 ''main'' 1 (whole w) = Inr s'"
    using sys_handle_ok [where ret = "\<lambda>n. 0" and hf = hf and rd = ?rd and wr = ?wr and env = ?env and t = 0 and wcc = True, OF s(1) sample_accepts(1) s(2,3) act w(3)]
    by (auto simp: EPIPE_def)
  have cb: "\<not> tied ch" "readCallback ch = Some OnRead" "writeCallback ch = None" "closeCallback ch = None" "errorCallback ch = None"
    using s(2) b ch(1) by (simp_all add: acceptor_bound_def)
  have "Acceptor_handleRead 9 sample_addr (server_acceptor (whole w)) = Handed_over 9 sample_addr" using b(3) by (simp add: Acceptor_handleRead_def Socket_accept_def)
  then have new: "sys_newConnection (\<lambda>n. 0) hf True 2 sample_addr 9 sample_addr (whole w) = Inr s'"
    using s' b ch cb
    by (simp add: sys_handle_def handleEvent_def handleEventWithGuard_def call_cb_def acceptor_callback_def event_bits bind_Inr_id)
  let ?w' = "w\<lparr>whole := s', round_at := (round_at w)(''main'' := InDispatch []), closed_twice := (closed_twice w \<or> closed_again ''main'' 1 (whole w) s')\<rparr>"
  have "round_step (\<lambda>n. 0) hf True w ?w'" by (rule round_step.handled [OF w(2,3) s'])
  have "\<not> closed_again ''main'' 1 (whole w) s'" using ch(1) cb(1) by (simp add: closed_again_def)
  have "reach (sample_rounds hf) (round_step (\<lambda>n. 0) hf True) ?w'"
    by (rule reach_step [where init = "sample_rounds hf" and s = w, OF w(1) \<open>round_step (\<lambda>n. 0) hf True w ?w'\<close>])
  then show thesis using that [of ?w'] newConnection_conn [OF new] newConnection_objects [OF new] once \<open>\<not> closed_again ''main'' 1 (whole w) s'\<close> by auto
qed

section \<open>Properties\<close>

text \<open>
  C7: No loop ever handles a dangling channel. Whatever the interleaving of the loops' rounds, each channel that is left in a loop's list of active channels is
  alive when its turn comes, although other callbacks of the round and functors of other loops ran since the poll; and when it is tied, its connection is up.
  This holds as long as no connection has been closed twice, which takes an event mask with \<open>EPOLLHUP\<close> and \<open>EPOLLPRI\<close> and without \<open>EPOLLIN\<close> and a read that
  finds the end of the stream: the channel is then in the poller again although its connection is down (\<open>closed_reads_end\<close>).
\<close>

theorem active_channels_alive:
  assumes "reach (rounds_start ret hf startLoop (int n) base addr nm sfd bind_rc listen_rc ap rs) (round_step ret hf wcc) w" and "0 < n"
    and "loops_ready rs ap sfd" and "epoll_accepts ret" and "\<not> closed_twice w"
  shows "\<forall>l qs q. round_at w l = InDispatch qs \<and> q \<in> set qs \<longrightarrow> distinct qs \<and>
    (\<exists>ch. chans (reactors (whole w) l) q = Some ch \<and> (tied ch \<longrightarrow>
       (\<exists>i k. objects (ctl (whole w)) (tie ch) = Some i \<and> conns (whole w) (tie ch) = Some k \<and> conn_loop i = l \<and> chan k = q \<and>
          (cstate k = kConnected \<or> cstate k = kDisconnecting))))"
proof (intro allI impI conjI)
  fix l qs q assume pc: "round_at w l = InDispatch qs \<and> q \<in> set qs"
  have ok: "rounds_ok hf w" using rounds_reach_ok [OF assms] by simp
  then have l: "loop_ok (whole w) l (InDispatch qs)" using pc by (metis rounds_ok_def)
  then show "distinct qs" by (simp add: loop_ok_def)
  obtain ch where ch: "chans (reactors (whole w) l) q = Some ch" "tied ch \<Longrightarrow> up_conn (whole w) l q (tie ch)"
    using l pc by (auto simp: loop_ok_def active_ok_def split: option.splits)
  have "\<exists>i k. objects (ctl (whole w)) (tie ch) = Some i \<and> conns (whole w) (tie ch) = Some k \<and> conn_loop i = l \<and> chan k = q \<and>
      (cstate k = kConnected \<or> cstate k = kDisconnecting)" if t: "tied ch"
  proof (rule up_connE [OF ch(2) [OF t]])
    fix i k assume k: "objects (ctl (whole w)) (tie ch) = Some i" "conns (whole w) (tie ch) = Some k" "conn_loop i = l" "chan k = q"
      "phases (ctl (whole w)) (tie ch) = Established"
    have "stands (whole w) (tie ch) Established" using ok k(5) unfolding rounds_ok_def sys_ok_def by metis
    then show ?thesis using k by (simp add: stands_def)
  qed
  then show "\<exists>ch. chans (reactors (whole w) l) q = Some ch \<and> (tied ch \<longrightarrow>
       (\<exists>i k. objects (ctl (whole w)) (tie ch) = Some i \<and> conns (whole w) (tie ch) = Some k \<and> conn_loop i = l \<and> chan k = q \<and>
          (cstate k = kConnected \<or> cstate k = kDisconnecting)))" using ch(1) by blast
qed

theorem active_channels_alive_witness:
  "\<exists>w :: string rounds. round_at w ''main'' = InDispatch [1] \<and> (\<exists>ch. chans (reactors (whole w) ''main'') 1 = Some ch)"
proof -
  obtain w where w: "reach (sample_rounds (\<lambda>x. 1)) (round_step (\<lambda>n. 0) (\<lambda>x. 1) True) w" "round_at w ''main'' = InDispatch [1]" "\<not> closed_twice w"
    using sample_polled by metis
  from active_channels_alive [OF w(1) [unfolded sample_rounds_def] _ sample_ready sample_accepts(1) w(3)] w(2) show ?thesis by (metis list.set_intros(1) zero_less_numeral)
qed

text \<open>
  C8: No loop gets stuck. In every reachable state in which no connection has been closed twice (see C7) each loop can make its next step without an error,
  whatever events the kernel returns, with any masks, and whatever its system calls return: the poll ends, the functors that were swapped out are there and run, and each
  active channel is handled, unless a write to a connection that is broken raises \<^verbatim>\<open>SIGPIPE\<close>, which nothing in the program ignores, and the process ends.
\<close>

theorem rounds_never_fail:
  assumes "reach (rounds_start ret hf startLoop (int n) base addr nm sfd bind_rc listen_rc ap rs) (round_step ret hf wcc) w" and "0 < n"
    and "loops_ready rs ap sfd" and "epoll_accepts ret" and "\<not> closed_twice w"
  shows "(\<forall>l res. round_at w l = InPoll \<and> outcome_ok (reactors (whole w) l) res \<longrightarrow> (\<exists>active r. poll res (reactors (whole w) l) = Inr (active, r))) \<and>
    (\<forall>l q qs rd wr env t. round_at w l = InDispatch (q # qs) \<and> event_fits rd wr env q (whole w) \<longrightarrow>
       (\<exists>s'. sys_handle ret hf wcc rd wr env t l q (whole w) = Inr s') \<or>
       sys_handle ret hf wcc rd wr env t l q (whole w) = Inl Sigpipe \<and> (\<exists>ev d. wr ev d = Inl EPIPE)) \<and>
    (\<forall>l m rc. round_at w l = InFunctors (Suc m) \<longrightarrow> (\<exists>f fs s'. queues (ctl (whole w)) l = f # fs \<and>
       sys_exec ret rc f ((whole w)\<lparr>ctl := (ctl (whole w))\<lparr>queues := (queues (ctl (whole w)))(l := fs)\<rparr>\<rparr>) = Inr s'))"
proof (intro conjI allI impI)
  have ok: "rounds_ok hf w" using rounds_reach_ok [OF assms] by simp
  then have s: "sys_ok (whole w)" "acceptor_bound (whole w)" "pool_ready hf (ctl (whole w))" and l: "\<And>l. loop_ok (whole w) l (round_at w l)"
    by (simp_all add: rounds_ok_def)
  show "\<exists>active r. poll res (reactors (whole w) l) = Inr (active, r)" if "round_at w l = InPoll \<and> outcome_ok (reactors (whole w) l) res" for l res
    using poll_active [OF s(1) _ s(2)] that by metis
  show "(\<exists>s'. sys_handle ret hf wcc rd wr env t l q (whole w) = Inr s') \<or>
      sys_handle ret hf wcc rd wr env t l q (whole w) = Inl Sigpipe \<and> (\<exists>ev d. wr ev d = Inl EPIPE)"
    if h: "round_at w l = InDispatch (q # qs) \<and> event_fits rd wr env q (whole w)" for l q qs rd wr env t
  proof -
    have "active_ok (whole w) l q" using l [of l] h by (simp add: loop_ok_def)
    then show ?thesis using sys_handle_ok [OF s(1) assms(4) s(2,3), of l q rd wr env wcc t] h by blast
  qed
  show "\<exists>f fs s'. queues (ctl (whole w)) l = f # fs \<and>
      sys_exec ret rc f ((whole w)\<lparr>ctl := (ctl (whole w))\<lparr>queues := (queues (ctl (whole w)))(l := fs)\<rparr>\<rparr>) = Inr s'" if h: "round_at w l = InFunctors (Suc m)" for l m rc
  proof -
    have "Suc m \<le> length (queues (ctl (whole w)) l)" using l [of l] h by (simp add: loop_ok_def)
    then obtain f fs where q: "queues (ctl (whole w)) l = f # fs" by (cases "queues (ctl (whole w)) l") auto
    from functor_turn [OF ok assms(4) h q] q show ?thesis by blast
  qed
qed

theorem rounds_never_fail_witness:
  "\<exists>(w :: string rounds) s'. round_at w ''main'' = InDispatch [1] \<and>
     sys_handle (\<lambda>n. 0) (\<lambda>x. 1) True (\<lambda>iov. Inl 11) (\<lambda>ev d. Inl 11) (9, sample_addr, 2, sample_addr) 0 ''main'' 1 (whole w) = Inr s'"
proof -
  obtain w where w: "reach (sample_rounds (\<lambda>x. 1)) (round_step (\<lambda>n. 0) (\<lambda>x. 1) True) w" "round_at w ''main'' = InDispatch [1]"
    "event_fits (\<lambda>iov. Inl 11) (\<lambda>ev d. Inl 11) (9, sample_addr, 2, sample_addr) 1 (whole w)" "\<not> closed_twice w" using sample_polled by metis
  have "\<not> (\<exists>(ev :: conn_event) (d :: string). Inl 11 = (Inl EPIPE :: int + nat))" by (simp add: EPIPE_def)
  with rounds_never_fail [OF w(1) [unfolded sample_rounds_def] _ sample_ready sample_accepts(1) w(4)] w(2,3) show ?thesis by (metis zero_less_numeral)
qed

text \<open>
  The rounds refine the server's control state: every state they reach projects to one the server reaches by its own steps, in which each
  functor that waits finds its connection at the stage it is made for.
\<close>

theorem rounds_refine_server:
  assumes "reach (rounds_start ret hf startLoop (int n) base addr nm sfd bind_rc listen_rc ap rs) (round_step ret hf wcc) w" and "0 < n"
    and "loops_ready rs ap sfd" and "epoll_accepts ret" and "\<not> closed_twice w"
  shows "reach (started_server hf startLoop (int n) base addr nm) (server_step hf) (ctl (whole w)) \<and>
    (\<forall>l f. f \<in> set (queues (ctl (whole w)) l) \<longrightarrow> due (ctl (whole w)) l f \<and> count_list (queues (ctl (whole w)) l) f = 1)"
proof (intro conjI allI impI)
  have ok: "rounds_ok hf w" and r: "reach (started_server hf startLoop (int n) base addr nm) (server_step hf) (ctl (whole w))"
    using rounds_reach_ok [OF assms] by simp_all
  show "reach (started_server hf startLoop (int n) base addr nm) (server_step hf) (ctl (whole w))" by (rule r)
  fix l f assume f: "f \<in> set (queues (ctl (whole w)) l)"
  have "sys_ok (whole w)" "no_listen (ctl (whole w))" using ok by (simp_all add: rounds_ok_def)
  then have "waiting_ok (ctl (whole w)) None" "f \<noteq> Listen" using f by (auto simp: sys_ok_def no_listen_def)
  then have "count_list (queues (ctl (whole w)) l) f = (if due (ctl (whole w)) l f then 1 else 0)" by (auto simp: waiting_ok_def)
  moreover have "count_list (queues (ctl (whole w)) l) f \<noteq> 0" using f by (simp add: count_list_0_iff)
  ultimately show "due (ctl (whole w)) l f" "count_list (queues (ctl (whole w)) l) f = 1" by (simp_all split: if_splits)
qed

theorem rounds_refine_server_witness:
  "\<exists>w :: string rounds. round_at w ''main'' = InDispatch [1] \<and>
     reach (started_server (\<lambda>x. 1) id (int 3) ''main'' sample_addr ''Echo'') (server_step (\<lambda>x. 1)) (ctl (whole w))"
proof -
  obtain w where w: "reach (sample_rounds (\<lambda>x. 1)) (round_step (\<lambda>n. 0) (\<lambda>x. 1) True) w" "round_at w ''main'' = InDispatch [1]" "\<not> closed_twice w"
    using sample_polled by metis
  from rounds_refine_server [OF w(1) [unfolded sample_rounds_def] _ sample_ready sample_accepts(1) w(3)] w(2) show ?thesis by (metis zero_less_numeral)
qed

text \<open>
  C15: Every connection object is well-formed in every reachable state: its channel lies in the reactor of its loop, has its descriptor and its four member functions as
  callbacks, is tied to it from the time it is established, is registered for reading exactly while the connection is up, and belongs to
  no other connection; and \<open>state_\<close> is the one its stage calls for: \<open>kConnecting\<close> until it is established, \<open>kConnected\<close> or \<open>kDisconnecting\<close> until it closes,
  \<open>kDisconnected\<close> from then on. This holds as long as no connection has been closed twice (see C7).
\<close>

theorem connections_well_formed:
  assumes "reach (rounds_start ret hf startLoop (int n) base addr nm sfd bind_rc listen_rc ap rs) (round_step ret hf wcc) w" and "0 < n"
    and "loops_ready rs ap sfd" and "epoll_accepts ret" and "\<not> closed_twice w"
  shows "\<forall>c i k. objects (ctl (whole w)) c = Some i \<and> conns (whole w) c = Some k \<longrightarrow>
    (\<exists>ch. chans (reactors (whole w) (conn_loop i)) (chan k) = Some ch \<and> wired ch \<and> fd ch = conn_fd i \<and>
       (tied ch \<longleftrightarrow> phases (ctl (whole w)) c \<noteq> Connecting) \<and> (tied ch \<longrightarrow> tie ch = c) \<and>
       (index ch = kAdded \<longleftrightarrow> phases (ctl (whole w)) c = Established) \<and> (index ch = kAdded \<longrightarrow> isReading ch)) \<and>
    (case phases (ctl (whole w)) c of
       Connecting \<Rightarrow> cstate k = kConnecting
     | Established \<Rightarrow> cstate k = kConnected \<or> cstate k = kDisconnecting
     | Closing \<Rightarrow> cstate k = kDisconnected
     | Removed \<Rightarrow> cstate k = kDisconnected
     | Destroyed \<Rightarrow> False) \<and>
    (\<forall>d k'. conns (whole w) d = Some k' \<and> chan k' = chan k \<longrightarrow> d = c)"
proof (intro allI impI conjI)
  fix c i k assume k: "objects (ctl (whole w)) c = Some i \<and> conns (whole w) c = Some k"
  have ok: "sys_ok (whole w)" using rounds_reach_ok [OF assms] by (simp add: rounds_ok_def)
  then have st: "stands (whole w) c (phases (ctl (whole w)) c)" by (simp add: sys_ok_def)
  then have "conn_stage (phases (ctl (whole w)) c) (k\<lparr>rx := reactors (whole w) (conn_loop i)\<rparr>)" using k by (simp add: stands_def)
  then show "case phases (ctl (whole w)) c of
       Connecting \<Rightarrow> cstate k = kConnecting
     | Established \<Rightarrow> cstate k = kConnected \<or> cstate k = kDisconnecting
     | Closing \<Rightarrow> cstate k = kDisconnected
     | Removed \<Rightarrow> cstate k = kDisconnected
     | Destroyed \<Rightarrow> False" by (cases "phases (ctl (whole w)) c") (simp_all add: conn_new_def)
  from st have b: "bound_channel (chans (reactors (whole w) (conn_loop i)) (chan k)) c (conn_fd i) (phases (ctl (whole w)) c)" using k by (simp add: stands_def)
  obtain ch where ch: "chans (reactors (whole w) (conn_loop i)) (chan k) = Some ch" "wired ch" "fd ch = conn_fd i" "channel_stage (phases (ctl (whole w)) c) c ch"
    using b by (auto simp: bound_channel_def split: option.splits)
  have "(tied ch \<longleftrightarrow> phases (ctl (whole w)) c \<noteq> Connecting) \<and> (tied ch \<longrightarrow> tie ch = c) \<and>
       (index ch = kAdded \<longleftrightarrow> phases (ctl (whole w)) c = Established) \<and> (index ch = kAdded \<longrightarrow> isReading ch)"
    using ch(4) by (cases "phases (ctl (whole w)) c") (auto simp: registered_reading_def index_defs isReading_bit)
  then show "\<exists>ch. chans (reactors (whole w) (conn_loop i)) (chan k) = Some ch \<and> wired ch \<and> fd ch = conn_fd i \<and>
       (tied ch \<longleftrightarrow> phases (ctl (whole w)) c \<noteq> Connecting) \<and> (tied ch \<longrightarrow> tie ch = c) \<and>
       (index ch = kAdded \<longleftrightarrow> phases (ctl (whole w)) c = Established) \<and> (index ch = kAdded \<longrightarrow> isReading ch)" using ch(1-3) by blast
  fix d k' assume "conns (whole w) d = Some k' \<and> chan k' = chan k"
  then show "d = c" using ok k unfolding sys_ok_def world_def by metis
qed

theorem connections_well_formed_witness:
  "\<exists>(w :: string rounds) c i k ch. objects (ctl (whole w)) c = Some i \<and> conns (whole w) c = Some k \<and>
     chans (reactors (whole w) (conn_loop i)) (chan k) = Some ch \<and> wired ch \<and> fd ch = conn_fd i \<and>
     (phases (ctl (whole w)) c = Established \<longrightarrow> cstate k = kConnected \<or> cstate k = kDisconnecting)"
proof -
  obtain w c i k where w: "reach (sample_rounds (\<lambda>x. 1)) (round_step (\<lambda>n. 0) (\<lambda>x. 1) True) w" "\<not> closed_twice w" "objects (ctl (whole w)) c = Some i" "conns (whole w) c = Some k"
    using sample_connected .
  have "objects (ctl (whole w)) c = Some i \<and> conns (whole w) c = Some k" using w(3,4) by blast
  note cw = connections_well_formed [OF w(1) [unfolded sample_rounds_def] _ sample_ready sample_accepts(1) w(2), THEN spec, THEN spec, THEN spec, THEN mp,
      OF _ this]
  obtain ch where "chans (reactors (whole w) (conn_loop i)) (chan k) = Some ch" "wired ch" "fd ch = conn_fd i" using cw by auto
  moreover have "phases (ctl (whole w)) c = Established \<longrightarrow> cstate k = kConnected \<or> cstate k = kDisconnecting"
    using cw by (cases "phases (ctl (whole w)) c") simp_all
  ultimately show ?thesis using w(3,4) by blast
qed

end
