(* ===== verification/MainProgram.thy ===== *)
theory MainProgram
  imports LogPipeline MemoryPools CachePolicies ReactorRounds
begin

text \<open>
  \<^verbatim>\<open>main\<close> of \<^verbatim>\<open>src/main.cc\<close>: it starts the logging thread, sets up the memory pools and a cache, constructs the event loops and the echo server
  and enters the loop. The theory shows that it reaches the states from which the theorems on logging, on the cache, on the pools and on the
  rounds of the loops start.
\<close>

section \<open>The machine\<close>

text \<open>
  What the operating system returns while the program starts, and the addresses of the channels and buffers it allocates. A loop is known by the
  name of its thread. \<open>log_garbage\<close> is what the memory of the uninitialised counter of the log file held.
\<close>

record machine =
  use_poll :: bool
  epoll_fd :: "string \<Rightarrow> int"
  event_fd :: "string \<Rightarrow> int"
  wake_addr :: "string \<Rightarrow> ptr"
  thread_id :: "string \<Rightarrow> int"
  listen_fd :: int
  bind_result_code :: int
  listen_result_code :: int
  accept_addr :: ptr
  start_time :: int
  log_garbage :: int
  log_memory :: "char list \<times> char list \<times> char list \<times> char list"

section \<open>Logging\<close>

definition kRollSize :: int where "kRollSize = 1 * 1024 * 1024"

text \<open>The GNU \<^verbatim>\<open>basename\<close>: what follows the last slash.\<close>

definition gnu_basename :: "string \<Rightarrow> string" where
  "gnu_basename path = rev (takeWhile (\<lambda>c. c \<noteq> CHR ''/'') (rev path))"

definition LogfilePath :: "string \<Rightarrow> string" where
  "LogfilePath exe = ''logs'' @ ''/'' @ gnu_basename exe"

text \<open>
  The constructor of \<^verbatim>\<open>log\<close> and \<^verbatim>\<open>log.start()\<close>; the new thread opens the log file, with the default intervals of its constructor, before
  its first round.
\<close>

definition start_logging :: "(string \<Rightarrow> bool) \<Rightarrow> (int \<Rightarrow> string) \<Rightarrow> string \<Rightarrow> machine \<Rightarrow> async_sys result" where
  "start_logging fopen strftime exe m = (case log_memory m of (m1, m2, m3, m4) \<Rightarrow>
     bind_result (LogFile fopen strftime (start_time m) (LogfilePath exe) kRollSize 3 1024 (log_garbage m)) (\<lambda>lf.
       Inr \<lparr>shared = AsyncLogging_start (AsyncLogging m1 m2), worker = backend_init m3 m4 lf, pc = Top, lines = []\<rparr>))"

section \<open>The loops\<close>

definition CAPACITY :: int where "CAPACITY = 5"

text \<open>The pool names its threads after the server and counts them.\<close>

definition pool_threads :: "string list" where
  "pool_threads = map (\<lambda>i. ''EchoServer'' @ dec_nat i) [0..<3]"

text \<open>A loop is constructed in a thread of its own, which has none yet.\<close>

definition make_loop :: "(nat \<Rightarrow> int) \<Rightarrow> machine \<Rightarrow> string \<Rightarrow> (server_functor, conn_event) event_loop result" where
  "make_loop ret m nm = EventLoop ret (use_poll m) (epoll_fd m nm) (event_fd m nm) (wake_addr m nm) OnRead False (thread_id m nm)"

fun make_loops :: "(nat \<Rightarrow> int) \<Rightarrow> machine \<Rightarrow> string list \<Rightarrow> (string \<times> (server_functor, conn_event) event_loop) list result" where
  "make_loops ret m [] = Inr []"
| "make_loops ret m (nm # nms) =
     bind_result (make_loop ret m nm) (\<lambda>l. bind_result (make_loops ret m nms) (\<lambda>ls. Inr ((nm, l) # ls)))"

text \<open>The reactors of the loops; under a name that no loop has there is none, represented by one without channels.\<close>

definition no_reactor :: "conn_event reactor" where
  "no_reactor = \<lparr>chans = Map.empty, poll_ptr = Some \<lparr>channels = Map.empty, event_slots = kInitEventListSize, ctl_calls = []\<rparr>\<rparr>"

definition reactors_of :: "(string \<times> (server_functor, conn_event) event_loop) list \<Rightarrow> string \<Rightarrow> conn_event reactor" where
  "reactors_of ls nm = (case map_of ls nm of None \<Rightarrow> no_reactor | Some l \<Rightarrow> loop_reactor l)"

section \<open>The program\<close>

record program =
  log_system :: async_sys
  memory_pools :: "pool list"
  lfu_cache :: "(int, string) lfu"
  event_loops :: "(string \<times> (server_functor, conn_event) event_loop) list"
  network :: "string rounds"

text \<open>
  \<^verbatim>\<open>main\<close> up to \<^verbatim>\<open>loop.loop()\<close>. The pools are the static array of \<^verbatim>\<open>HashBucket\<close>. The construction and the start of the server are those of
  \<open>start_system\<close>, its three loops are made first; what fails ends the process in either order.
\<close>

definition static_pools :: "pool list" where
  "static_pools = replicate MEMORY_POOL_NUM (MemoryPool 4096)"

definition main_setup ::
    "(nat \<Rightarrow> int) \<Rightarrow> (string \<Rightarrow> nat) \<Rightarrow> (string \<Rightarrow> in_addr) \<Rightarrow> (string \<Rightarrow> bool) \<Rightarrow> (int \<Rightarrow> string) \<Rightarrow> machine \<Rightarrow> string \<Rightarrow> program result" where
  "main_setup ret hf inet_addr fopen strftime m exe =
     bind_result (start_logging fopen strftime exe m) (\<lambda>log.
     bind_result (make_loop ret m ''main'') (\<lambda>loop.
     bind_result (make_loops ret m pool_threads) (\<lambda>ls.
     bind_result (start_system ret hf id 3 ''main'' (InetAddress inet_addr 8080 ''127.0.0.1'') ''EchoServer'' (listen_fd m)
         (bind_result_code m) (listen_result_code m) (accept_addr m) (reactors_of ((''main'', loop) # ls))) (\<lambda>s.
       Inr \<lparr>log_system = log, memory_pools = initMemoryPool static_pools, lfu_cache = RLfuCache CAPACITY 10 empty_heap,
            event_loops = (''main'', loop) # ls, network = \<lparr>whole = s, round_at = (\<lambda>nm. InPoll), closed_twice = False\<rparr>\<rparr>))))"

section \<open>Each part is ready\<close>

text \<open>The system calls succeed, and the descriptors and addresses of the acceptor are not those of a loop.\<close>

definition machine_ok :: "machine \<Rightarrow> bool" where
  "machine_ok m \<longleftrightarrow> \<not> use_poll m \<and> 0 < start_time m \<and> 0 \<le> listen_fd m \<and> bind_result_code m = 0 \<and> listen_result_code m = 0 \<and>
     list_all (\<lambda>nm. 0 \<le> epoll_fd m nm \<and> 0 \<le> event_fd m nm \<and> event_fd m nm \<noteq> listen_fd m \<and> wake_addr m nm \<noteq> accept_addr m) (''main'' # pool_threads) \<and>
     (case log_memory m of (m1, m2, m3, m4) \<Rightarrow> list_all (\<lambda>b. length b = kLargeBufferSize) [m1, m2, m3, m4])"

lemma machine_loop:
  assumes "machine_ok m" and "nm \<in> set (''main'' # pool_threads)"
  shows "\<not> use_poll m" and "0 \<le> epoll_fd m nm" and "0 \<le> event_fd m nm" and "event_fd m nm \<noteq> listen_fd m" and "wake_addr m nm \<noteq> accept_addr m"
  using assms by (auto simp: machine_ok_def list_all_iff)

text \<open>A reactor that the constructor of the server can be given.\<close>

definition reactor_ready :: "ptr \<Rightarrow> int \<Rightarrow> conn_event reactor \<Rightarrow> bool" where
  "reactor_ready q sfd r \<longleftrightarrow> reactor_ok r \<and> private_fds r \<and> free_slot r q sfd \<and> (\<forall>d ch. chans r d = Some ch \<longrightarrow> fd ch \<noteq> sfd \<and> \<not> tied ch)"

lemma loops_ready_iff: "loops_ready rs q sfd \<longleftrightarrow> (\<forall>nm. reactor_ready q sfd (rs nm))"
  by (auto simp: loops_ready_def reactor_ready_def)

lemma no_reactor_ready: "reactor_ready q sfd no_reactor"
  by (simp add: reactor_ready_def no_reactor_def reactor_ok_def poller_ok_def private_fds_def free_slot_def)

lemma loop_made:
  assumes acc: "epoll_accepts ret" and m: "machine_ok m" and nm: "nm \<in> set (''main'' # pool_threads)"
  obtains l where "make_loop ret m nm = Inr l" and "reactor_ready (accept_addr m) (listen_fd m) (loop_reactor l)"
    and "watched (loop_reactor l) (wake_addr m nm) = Some kReadEvent" and "loop_core l = loop_fresh"
proof -
  note mo = machine_loop [OF m nm]
  let ?w = "wake_addr m nm" and ?ch = "setReadCallback OnRead (Channel (event_fd m nm))"
  let ?p = "\<lparr>channels = Map.empty, event_slots = kInitEventListSize, ctl_calls = []\<rparr>"
  have "0 \<le> ret 0" using acc by (simp add: epoll_accepts_def)
  then obtain r c where r: "enableReading ret ?w \<lparr>chans = [?w \<mapsto> ?ch], poll_ptr = Some ?p\<rparr> = Inr r" and c: "chans r = [?w \<mapsto> c]"
    and slots: "fd (the (chans r ?w)) = event_fd m nm \<and> \<not> tied (the (chans r ?w))" "\<exists>p. poll_ptr r = Some p \<and> channels p = [event_fd m nm \<mapsto> ?w]"
    by (auto simp: enableReading_def change_events_def updateChannel_def setReadCallback_def Channel_def index_defs epoll_update_def Let_def)
  let ?l = "\<lparr>loop_core = loop_fresh, loop_reactor = r, timerQueue = None, threadId = thread_id m nm, wakeupFd = event_fd m nm, wakeupChannel = ?w\<rparr>"
  have l: "make_loop ret m nm = Inr ?l"
    using mo r by (simp add: make_loop_def EventLoop_def newDefaultPoller_def EPollPoller_def createEventfd_def)
  have ok: "reactor_ok r" "watched r ?w = Some kReadEvent" using loop_construction [OF l [unfolded make_loop_def]] by simp_all
  have "reactor_ready (accept_addr m) (listen_fd m) r"
    using ok(1) slots c mo by (auto simp: reactor_ready_def private_fds_def free_slot_def split: if_splits)
  then show thesis using that [OF l] ok(2) by simp
qed

lemma loops_made:
  assumes acc: "epoll_accepts ret" and m: "machine_ok m" and nms: "set nms \<subseteq> set (''main'' # pool_threads)"
  shows "\<exists>ls. make_loops ret m nms = Inr ls \<and> map fst ls = nms \<and>
    (\<forall>(nm, l)\<in>set ls. make_loop ret m nm = Inr l \<and> reactor_ready (accept_addr m) (listen_fd m) (loop_reactor l))"
  using nms
proof (induction nms)
  case (Cons nm nms)
  then obtain ls where ls: "make_loops ret m nms = Inr ls" "map fst ls = nms"
    "\<forall>(nm, l)\<in>set ls. make_loop ret m nm = Inr l \<and> reactor_ready (accept_addr m) (listen_fd m) (loop_reactor l)" by auto
  have nm: "nm \<in> set (''main'' # pool_threads)" using Cons.prems by simp
  obtain l where "make_loop ret m nm = Inr l" "reactor_ready (accept_addr m) (listen_fd m) (loop_reactor l)" by (rule loop_made [OF acc m nm])
  then show ?case using ls by auto
qed simp

lemma reactors_ready:
  assumes "\<forall>(nm, l)\<in>set ls. reactor_ready q sfd (loop_reactor l)"
  shows "loops_ready (reactors_of ls) q sfd"
  using assms no_reactor_ready by (fastforce simp: loops_ready_iff reactors_of_def dest: map_of_SomeD split: option.split)

lemma server_starts:
  assumes acc: "epoll_accepts ret" and ready: "loops_ready rs q sfd" and sfd: "0 \<le> sfd"
  obtains s where "start_system ret hf startLoop n l addr nm sfd 0 0 q rs = Inr s"
    and "thread_pool (ctl s) = snd (pool_start hf startLoop False (setThreadNum n (EventLoopThreadPool l nm)))" and "listen_count (ctl s) = 1"
proof -
  obtain s0 where s0: "TcpServer (Some l) addr nm = Inr s0"
    using toIpPort_length [of addr] by (auto simp: TcpServer_def CheckLoopNotNull_def toIpPort_def)
  obtain a where a: "Acceptor sfd 0 q OnRead False (rs l) = Inr a" using sfd by (simp add: Acceptor_def createNonblocking_def bindAddress_def)
  have slot: "free_slot (rs l) q sfd" and none: "chans (rs l) q = None" and r: "reactor_ok (rs l)"
    using ready by (auto simp: loops_ready_def free_slot_def)
  let ?ch = "setReadCallback OnRead (Channel sfd)"
  obtain p where p: "poll_ptr (rs l) = Some p" using slot by (auto simp: free_slot_def split: option.splits)
  have "0 \<le> ret (length (ctl_calls p))" using acc by (simp add: epoll_accepts_def)
  then obtain a' where a': "Acceptor_listen ret 0 (setNewConnectionCallback a) = Inr a'"
    using a sfd p by (auto simp: Acceptor_def createNonblocking_def bindAddress_def Acceptor_listen_def Socket_listen_def setNewConnectionCallback_def
        enableReading_def change_events_def updateChannel_def setReadCallback_def Channel_def kNew_def epoll_update_def Let_def)
  let ?s = "\<lparr>ctl = TcpServer_start hf startLoop False l (TcpServer_setThreadNum n s0), server_acceptor = a', conns = Map.empty,
            reactors = rs(l := acc_reactor a')\<rparr>"
  have start: "start_system ret hf startLoop n l addr nm sfd 0 0 q rs = Inr ?s" using s0 a a' by (simp add: start_system_def)
  show thesis
    using that [OF start] s0
    by (auto simp: TcpServer_def CheckLoopNotNull_def TcpServer_setThreadNum_def TcpServer_start_def run_in_loop_def Let_def)
qed

text \<open>The log: the back end stands where its invariant starts.\<close>

lemma logging_starts:
  assumes m: "machine_ok m" and files: "\<And>nm. fopen nm"
  obtains s where "start_logging fopen strftime exe m = Inr s" and "async_init s"
    and "map_option file_name (file_ptr (outfile (worker s))) = Some (LogfilePath exe @ strftime (start_time m) @ ''.log'')"
    and "rollsize (outfile (worker s)) = kRollSize"
proof -
  obtain m1 m2 m3 m4 where mem: "log_memory m = (m1, m2, m3, m4)" by (cases "log_memory m")
  obtain lf where lf: "LogFile fopen strftime (start_time m) (LogfilePath exe) kRollSize 3 1024 (log_garbage m) = Inr lf"
    and out: "map_option file_name (file_ptr lf) = Some (LogfilePath exe @ strftime (start_time m) @ ''.log'')" "all_contents lf = []" "rollsize lf = kRollSize"
    using m files by (auto simp: machine_ok_def LogFile_def rollFile_def FileUtil_def getLogFileName_def all_contents_def)
  let ?s = "\<lparr>shared = AsyncLogging_start (AsyncLogging m1 m2), worker = backend_init m3 m4 lf, pc = Top, lines = []\<rparr>"
  have "file_ptr lf \<noteq> None" using out(1) by auto
  moreover have "length m1 = kLargeBufferSize" "length m2 = kLargeBufferSize" "length m3 = kLargeBufferSize" "length m4 = kLargeBufferSize"
    using m mem by (simp_all add: machine_ok_def)
  ultimately have "async_init ?s" using out(2) unfolding async_init_def by blast
  then show thesis using that [of ?s] lf mem out by (simp add: start_logging_def backend_init_def)
qed

lemma pools_ready:
  shows "length (initMemoryPool static_pools) = 64"
    and "i < 64 \<Longrightarrow> initMemoryPool static_pools ! i = pool_init ((i + 1) * 8) (MemoryPool 4096) \<and> size_ok (initMemoryPool static_pools ! i)"
  by (auto simp: initMemoryPool_def static_pools_def MEMORY_POOL_NUM_def SLOT_BASE_SIZE_def size_ok_def pool_init_def MemoryPool_def)

section \<open>Starting\<close>

lemma main_started:
  assumes acc: "epoll_accepts ret" and m: "machine_ok m" and files: "\<And>nm. fopen nm"
  obtains p where "main_setup ret hf inet_addr fopen strftime m exe = Inr p"
    and "start_logging fopen strftime exe m = Inr (log_system p)"
    and "memory_pools p = initMemoryPool static_pools" and "lfu_cache p = RLfuCache CAPACITY 10 empty_heap"
    and "map fst (event_loops p) = ''main'' # pool_threads"
    and "\<forall>(nm, l)\<in>set (event_loops p). make_loop ret m nm = Inr l"
    and "rounds_start ret hf id (int 3) ''main'' (InetAddress inet_addr 8080 ''127.0.0.1'') ''EchoServer'' (listen_fd m) 0 0 (accept_addr m)
           (reactors_of (event_loops p)) (network p)"
    and "loops_ready (reactors_of (event_loops p)) (accept_addr m) (listen_fd m)"
    and "loops (thread_pool (ctl (whole (network p)))) = pool_threads" and "listen_count (ctl (whole (network p))) = 1"
proof -
  obtain log where log: "start_logging fopen strftime exe m = Inr log" using logging_starts [OF m, of fopen strftime exe] files by blast
  obtain l where l: "make_loop ret m ''main'' = Inr l" "reactor_ready (accept_addr m) (listen_fd m) (loop_reactor l)"
    by (rule loop_made [OF acc m, of "''main''"]) simp
  obtain ls where ls: "make_loops ret m pool_threads = Inr ls" "map fst ls = pool_threads"
    "\<forall>(nm, l)\<in>set ls. make_loop ret m nm = Inr l \<and> reactor_ready (accept_addr m) (listen_fd m) (loop_reactor l)"
    using loops_made [OF acc m, of pool_threads] by auto
  let ?ls = "(''main'', l) # ls" and ?addr = "InetAddress inet_addr 8080 ''127.0.0.1''"
  have ready: "loops_ready (reactors_of ?ls) (accept_addr m) (listen_fd m)" by (rule reactors_ready) (use l(2) ls(3) in auto)
  have sys: "0 \<le> listen_fd m" "bind_result_code m = 0" "listen_result_code m = 0" using m by (simp_all add: machine_ok_def)
  obtain s where s: "start_system ret hf id 3 ''main'' ?addr ''EchoServer'' (listen_fd m) 0 0 (accept_addr m) (reactors_of ?ls) = Inr s"
    "thread_pool (ctl s) = snd (pool_start hf id False (setThreadNum 3 (EventLoopThreadPool ''main'' ''EchoServer'')))" "listen_count (ctl s) = 1"
    using server_starts [OF acc ready sys(1), of hf id 3 "''main''" ?addr "''EchoServer''"] by blast
  have "loops (thread_pool (ctl s)) = pool_threads"
    by (simp add: s(2) pool_start_def setThreadNum_def EventLoopThreadPool_def start_thread_def pool_threads_def numeral_3_eq_3 Let_def)
  then show thesis using that [of "\<lparr>log_system = log, memory_pools = initMemoryPool static_pools, lfu_cache = RLfuCache CAPACITY 10 empty_heap,
      event_loops = ?ls, network = \<lparr>whole = s, round_at = (\<lambda>nm. InPoll), closed_twice = False\<rparr>\<rparr>"] log l(1) ls s sys ready
    by (auto simp: main_setup_def rounds_start_def)
qed

text \<open>What the constructors answer when a system call fails.\<close>

lemma enableReading_errors: "enableReading ret c r = Inl e \<Longrightarrow> e = Fatal_abort \<or> e = Null_deref"
  by (auto simp: enableReading_def change_events_def updateChannel_def epoll_update_def bind_result_def Let_def split: option.splits if_splits sum.splits)

lemma make_loop_outcome:
  "(case make_loop ret m nm of Inl e \<Rightarrow> e = Fatal_abort \<or> e = Null_deref | Inr l \<Rightarrow> \<not> use_poll m \<and> 0 \<le> epoll_fd m nm \<and> 0 \<le> event_fd m nm)"
proof (cases "use_poll m")
  case True
  then show ?thesis
    by (simp add: make_loop_def EventLoop_def newDefaultPoller_def createEventfd_def enableReading_def change_events_def updateChannel_def)
next
  case False
  then show ?thesis using enableReading_errors
    by (auto simp: make_loop_def EventLoop_def newDefaultPoller_def EPollPoller_def createEventfd_def bind_result_def split: sum.splits)
qed

lemma make_loops_outcome:
  "(case make_loops ret m nms of Inl e \<Rightarrow> e = Fatal_abort \<or> e = Null_deref | Inr ls \<Rightarrow> list_all (\<lambda>nm. 0 \<le> epoll_fd m nm \<and> 0 \<le> event_fd m nm) nms)"
proof (induction nms)
  case (Cons nm nms)
  then show ?case using make_loop_outcome [where ret = ret and m = m and nm = nm] by (auto simp: bind_result_def split: sum.splits)
qed simp

lemma start_system_outcome:
  "(case start_system ret hf startLoop n l addr nm sfd brc lrc q rs of Inl e \<Rightarrow> e = Fatal_abort \<or> e = Null_deref | Inr s \<Rightarrow> 0 \<le> sfd \<and> brc = 0 \<and> lrc = 0)"
proof -
  obtain s0 where s0: "TcpServer (Some l) addr nm = Inr s0"
    using toIpPort_length [of addr] by (auto simp: TcpServer_def CheckLoopNotNull_def toIpPort_def)
  then show ?thesis using enableReading_errors
    by (auto simp: start_system_def Acceptor_def Acceptor_listen_def createNonblocking_def bindAddress_def Socket_listen_def bind_result_def
        split: sum.splits if_splits)
qed

lemma start_system_results:
  "start_system ret hf startLoop n l addr nm sfd brc lrc q rs = Inl e \<Longrightarrow> e = Fatal_abort \<or> e = Null_deref"
  "start_system ret hf startLoop n l addr nm sfd brc lrc q rs = Inr s \<Longrightarrow> 0 \<le> sfd \<and> brc = 0 \<and> lrc = 0"
  using start_system_outcome [where ret = ret and hf = hf and startLoop = startLoop and n = n and l = l and addr = addr and nm = nm and sfd = sfd and brc = brc and lrc = lrc and q = q and rs = rs] by simp_all

section \<open>Properties\<close>

definition sample_machine :: machine where
  "sample_machine = \<lparr>use_poll = False, epoll_fd = (\<lambda>nm. 3), event_fd = (\<lambda>nm. 4), wake_addr = (\<lambda>nm. 7), thread_id = (\<lambda>nm. 11), listen_fd = 5,
     bind_result_code = 0, listen_result_code = 0, accept_addr = 1, start_time = 7, log_garbage = 0,
     log_memory = (sample_mem, sample_mem, sample_mem, sample_mem)\<rparr>"

lemma sample_machine_ok: "machine_ok sample_machine"
  by (simp add: machine_ok_def sample_machine_def sample_mem_def list_all_iff)

text \<open>
  C16: When the system calls succeed, \<^verbatim>\<open>main\<close> reaches its loop with everything in place: the log's back end is in its initial state with the right file
  open, the 64 pools have slots of 8 to 512 bytes that fit their blocks, the cache is empty and ready for \<open>n\<close> accesses, the main loop and three pool loops
  exist and have disjoint descriptors from the acceptor, the server listens once on port 8080, and the loops start the rounds.
\<close>

theorem main_starts:
  assumes acc: "epoll_accepts ret" and m: "machine_ok m" and files: "\<And>nm. fopen nm" and n: "int n \<le> INT_MAX"
  shows "\<exists>p addr. main_setup ret hf inet_addr fopen strftime m exe = Inr p \<and> async_init (log_system p) \<and>
    map_option file_name (file_ptr (outfile (worker (log_system p)))) = Some (''logs/'' @ gnu_basename exe @ strftime (start_time m) @ ''.log'') \<and>
    map SlotSize (memory_pools p) = map (\<lambda>i. (i + 1) * 8) [0..<64] \<and> list_all size_ok (memory_pools p) \<and>
    lfu_ready (lfu_cache p) n \<and> contents (lfu_cache p) = Map.empty \<and>
    toPort addr = 8080 \<and> map fst (event_loops p) = ''main'' # loops (thread_pool (ctl (whole (network p)))) \<and> length (event_loops p) = 4 \<and>
    listen_count (ctl (whole (network p))) = 1 \<and> loops_ready (reactors_of (event_loops p)) (accept_addr m) (listen_fd m) \<and>
    rounds_start ret hf id (int 3) ''main'' addr ''EchoServer'' (listen_fd m) 0 0 (accept_addr m) (reactors_of (event_loops p)) (network p)"
proof -
  let ?addr = "InetAddress inet_addr 8080 ''127.0.0.1''"
  obtain p where p: "main_setup ret hf inet_addr fopen strftime m exe = Inr p" "start_logging fopen strftime exe m = Inr (log_system p)"
    "memory_pools p = initMemoryPool static_pools" "lfu_cache p = RLfuCache CAPACITY 10 empty_heap" "map fst (event_loops p) = ''main'' # pool_threads"
    "rounds_start ret hf id (int 3) ''main'' ?addr ''EchoServer'' (listen_fd m) 0 0 (accept_addr m) (reactors_of (event_loops p)) (network p)"
    "loops_ready (reactors_of (event_loops p)) (accept_addr m) (listen_fd m)" "loops (thread_pool (ctl (whole (network p)))) = pool_threads"
    "listen_count (ctl (whole (network p))) = 1"
    by (rule main_started [OF acc m files, where hf = hf and inet_addr = inet_addr and strftime = strftime and exe = exe])
  obtain s where "start_logging fopen strftime exe m = Inr s" "async_init s"
    "map_option file_name (file_ptr (outfile (worker s))) = Some (LogfilePath exe @ strftime (start_time m) @ ''.log'')"
    by (rule logging_starts [OF m files])
  then have log: "async_init (log_system p)"
    "map_option file_name (file_ptr (outfile (worker (log_system p)))) = Some (''logs/'' @ gnu_basename exe @ strftime (start_time m) @ ''.log'')"
    using p(2) by (simp_all add: LogfilePath_def)
  have cap: "0 \<le> CAPACITY" "CAPACITY \<le> INT_MAX" by (simp_all add: CAPACITY_def INT_MAX_def)
  have cache: "lfu_ready (lfu_cache p) n" "contents (lfu_cache p) = Map.empty"
    using new_lfu_ready [OF cap, of 10] new_cache_ok(2) [OF empty_heap_ok cap, of 10] n p(4) by simp_all
  have pools: "map SlotSize (memory_pools p) = map (\<lambda>i. (i + 1) * 8) [0..<64]"
    using pools_ready p(3) by (auto simp: pool_init_def intro!: nth_equalityI)
  have sizes: "list_all size_ok (memory_pools p)" unfolding p(3) list_all_length pools_ready(1) using pools_ready(2) by blast
  have port: "toPort ?addr = 8080" by (simp add: toPort_def InetAddress_def htons_htons)
  have "length (event_loops p) = length (''main'' # pool_threads)" by (metis p(5) length_map)
  then have "length (event_loops p) = 4" by (simp add: pool_threads_def)
  then show ?thesis using p(1,5-9) log cache pools sizes port by metis
qed

theorem main_starts_witness:
  "\<exists>p. main_setup (\<lambda>n. 0) length (\<lambda>ip. (127, 0, 0, 1)) (\<lambda>nm. True) (\<lambda>t. ''.t'') sample_machine ''./server'' = Inr p \<and>
     listen_count (ctl (whole (network p))) = 1"
proof -
  have "epoll_accepts (\<lambda>n. 0)" "int 5 \<le> INT_MAX" by (simp_all add: epoll_accepts_def INT_MAX_def)
  from main_starts [OF this(1) sample_machine_ok TrueI this(2), of length "\<lambda>ip. (127, 0, 0, 1)" "\<lambda>t. ''.t''" "''./server''"] show ?thesis by blast
qed

text \<open>
  C17: \<^verbatim>\<open>main\<close> never serves half constructed: it reaches its loop only if every descriptor was created and the socket was bound and listens;
  otherwise the process ends, by \<^verbatim>\<open>abort\<close> or by dereferencing a null pointer, which is what \<^verbatim>\<open>MUDUO_USE_POLL\<close> and a log file that cannot be opened lead to.
\<close>

theorem main_all_or_nothing:
  "(case main_setup ret hf inet_addr fopen strftime m exe of
      Inl e \<Rightarrow> e = Fatal_abort \<or> e = Null_deref
    | Inr p \<Rightarrow> (start_time m \<le> 0 \<or> fopen (''logs/'' @ gnu_basename exe @ strftime (start_time m) @ ''.log'')) \<and> \<not> use_poll m \<and>
        list_all (\<lambda>nm. 0 \<le> epoll_fd m nm \<and> 0 \<le> event_fd m nm) (''main'' # pool_threads) \<and>
        0 \<le> listen_fd m \<and> bind_result_code m = 0 \<and> listen_result_code m = 0)"
proof -
  have log: "(case start_logging fopen strftime exe m of Inl e \<Rightarrow> e = Null_deref
      | Inr s \<Rightarrow> start_time m \<le> 0 \<or> fopen (''logs/'' @ gnu_basename exe @ strftime (start_time m) @ ''.log''))"
    by (auto simp: start_logging_def LogFile_def rollFile_def FileUtil_def getLogFileName_def LogfilePath_def split: prod.splits)
  show ?thesis
    unfolding main_setup_def
    using log make_loop_outcome [where ret = ret and m = m and nm = "''main''"] make_loops_outcome [where ret = ret and m = m and nms = pool_threads]
    by (auto simp: bind_result_def split: sum.splits dest: start_system_results)
qed

text \<open>
  C18: What becomes of the three threads \<^verbatim>\<open>main\<close> asks for. If the hashes of the virtual nodes are not below three, which is all but certain for
  hashes of 64 bits, then in every state the program reaches all connections live in the main loop and no functor is ever queued for a loop of the pool.
\<close>

theorem pool_threads_idle:
  assumes acc: "epoll_accepts ret" and m: "machine_ok m" and files: "\<And>nm. fopen nm"
    and p: "main_setup ret hf inet_addr fopen strftime m exe = Inr p"
    and reach: "reach (\<lambda>v. v = network p) (round_step ret hf wcc) w"
    and large: "\<forall>i<3. \<forall>j<3. 3 \<le> hf (''EchoServer'' @ dec_nat i @ ''_0'' @ dec_nat j)"
  shows "(\<forall>c i. objects (ctl (whole w)) c = Some i \<longrightarrow> conn_loop i = ''main'') \<and>
    (\<forall>nm\<in>set (loops (thread_pool (ctl (whole (network p))))). queues (ctl (whole w)) nm = [])"
proof -
  let ?addr = "InetAddress inet_addr 8080 ''127.0.0.1''"
  obtain p' where "main_setup ret hf inet_addr fopen strftime m exe = Inr p'"
    "rounds_start ret hf id (int 3) ''main'' ?addr ''EchoServer'' (listen_fd m) 0 0 (accept_addr m) (reactors_of (event_loops p')) (network p')"
    "loops_ready (reactors_of (event_loops p')) (accept_addr m) (listen_fd m)" "loops (thread_pool (ctl (whole (network p')))) = pool_threads"
    by (rule main_started [OF acc m files, where hf = hf and inet_addr = inet_addr and strftime = strftime and exe = exe])
  then have start: "rounds_start ret hf id (int 3) ''main'' ?addr ''EchoServer'' (listen_fd m) 0 0 (accept_addr m) (reactors_of (event_loops p)) (network p)"
    and ready: "loops_ready (reactors_of (event_loops p)) (accept_addr m) (listen_fd m)" and pool: "loops (thread_pool (ctl (whole (network p)))) = pool_threads"
    using p by simp_all
  let ?init = "rounds_start ret hf id (int 3) ''main'' ?addr ''EchoServer'' (listen_fd m) 0 0 (accept_addr m) (reactors_of (event_loops p))"
  have w: "reach ?init (round_step ret hf wcc) w"
  proof (rule reach_invariant [where I = "reach ?init (round_step ret hf wcc)", OF reach])
    show "reach ?init (round_step ret hf wcc) v" if "v = network p" for v using start that by (simp add: reach_init)
    show "reach ?init (round_step ret hf wcc) v'" if "reach ?init (round_step ret hf wcc) v" "round_step ret hf wcc v v'" for v v'
      using that by (rule reach_step)
  qed
  have "idle_but hf ''main'' (ctl (whole w))" by (rule idle_rounds [OF w _ ready large]) simp
  moreover have "''main'' \<notin> set pool_threads" by (auto simp: pool_threads_def)
  ultimately show ?thesis unfolding idle_but_def pool by metis
qed

theorem pool_threads_idle_witness:
  "\<exists>p w. main_setup (\<lambda>n. 0) length (\<lambda>ip. (127, 0, 0, 1)) (\<lambda>nm. True) (\<lambda>t. ''.t'') sample_machine ''./server'' = Inr p \<and>
     round_step (\<lambda>n. 0) length True (network p) w \<and> queues (ctl (whole w)) ''EchoServer0'' = []"
proof -
  have acc: "epoll_accepts (\<lambda>n. 0)" by (simp add: epoll_accepts_def)
  obtain p where p: "main_setup (\<lambda>n. 0) length (\<lambda>ip. (127, 0, 0, 1)) (\<lambda>nm. True) (\<lambda>t. ''.t'') sample_machine ''./server'' = Inr p"
    "rounds_start (\<lambda>n. 0) length id (int 3) ''main'' (InetAddress (\<lambda>ip. (127, 0, 0, 1)) 8080 ''127.0.0.1'') ''EchoServer'' (listen_fd sample_machine) 0 0
       (accept_addr sample_machine) (reactors_of (event_loops p)) (network p)"
    "loops_ready (reactors_of (event_loops p)) (accept_addr sample_machine) (listen_fd sample_machine)"
    "loops (thread_pool (ctl (whole (network p)))) = pool_threads"
    by (rule main_started [OF acc sample_machine_ok TrueI, where hf = length and inet_addr = "\<lambda>ip. (127, 0, 0, 1)" and strftime = "\<lambda>t. ''.t''" and exe = "''./server''"])
  let ?r = "reactors (whole (network p)) ''main''"
  have pc: "round_at (network p) ''main'' = InPoll" using p(2) by (simp add: rounds_start_def)
  have res: "outcome_ok ?r (Inl 4)" by (simp add: outcome_ok_def)
  have "rounds_ok length (network p)" using rounds_start_ok [OF p(2) _ p(3)] by simp
  then have ok: "sys_ok (whole (network p))" "acceptor_bound (whole (network p))" by (simp_all add: rounds_ok_def)
  obtain active r where poll: "poll (Inl 4) ?r = Inr (active, r)" using poll_active [OF ok(1) res ok(2)] by metis
  let ?w = "(network p)\<lparr>whole := (whole (network p))\<lparr>reactors := (reactors (whole (network p)))(''main'' := r)\<rparr>,
    round_at := (round_at (network p))(''main'' := InDispatch active)\<rparr>"
  have step: "round_step (\<lambda>n. 0) length True (network p) ?w" by (rule round_step.polled [OF pc res poll])
  have reach: "reach (\<lambda>v. v = network p) (round_step (\<lambda>n. 0) length True) ?w" by (rule reach_step [where s = "network p"]) (simp_all add: reach_init step)
  have "\<forall>i<3. \<forall>j<3. 3 \<le> length (''EchoServer'' @ dec_nat i @ ''_0'' @ dec_nat j)" by simp
  then have idle: "\<forall>nm\<in>set pool_threads. queues (ctl (whole ?w)) nm = []"
    using pool_threads_idle [OF acc sample_machine_ok TrueI p(1) reach] p(4) by simp
  have "dec_nat 0 = ''0''" by code_simp
  then have "''EchoServer0'' \<in> set pool_threads" by (auto simp: pool_threads_def intro: rev_image_eqI [of 0])
  with idle have "queues (ctl (whole ?w)) ''EchoServer0'' = []" by blast
  then show ?thesis using p(1) step by blast
qed

end
