(* ===== verification/EchoService.thy ===== *)
theory EchoService
  imports ReactorRounds
begin

text \<open>
  What the clients of the echo server see. A history variable beside the rounds of the loops records, for each connection, the bytes that \<^verbatim>\<open>readv\<close> has
  delivered; the theory shows that the bytes the socket has taken back are a prefix of them, and that the rest waits in the output buffer.
\<close>

section \<open>History\<close>

text \<open>
  \<open>heard\<close> holds the bytes received on each connection, \<open>resets\<close> the connections whose peer was found gone when the echo was written: that echo is dropped.
\<close>

record history =
  heard :: "nat \<Rightarrow> string"
  resets :: "nat set"

definition delivered :: "(nat list \<Rightarrow> int + string) \<Rightarrow> tcp_conn \<Rightarrow> string" where
  "delivered rd k = (case rd (read_iov (inputBuffer k)) of Inl errno \<Rightarrow> [] | Inr d \<Rightarrow> d)"

definition note_read :: "(nat list \<Rightarrow> int + string) \<Rightarrow> (string \<Rightarrow> int + nat) \<Rightarrow> nat \<Rightarrow> tcp_conn \<Rightarrow> history \<Rightarrow> history" where
  "note_read rd wr c k h =
     h\<lparr>heard := (heard h)(c := heard h c @ delivered rd k),
       resets := (if content (outputBuffer k) = [] \<and> delivered rd k \<noteq> [] \<and> broken (wr (content (inputBuffer k) @ delivered rd k))
                  then insert c (resets h) else resets h)\<rparr>"

text \<open>What is noted when the channel at \<open>q\<close> in the loop \<open>l\<close> is handled: a read, when the channel is that of a connection and was reported readable.\<close>

definition note_handled :: "(nat list \<Rightarrow> int + string) \<Rightarrow> (conn_event \<Rightarrow> string \<Rightarrow> int + nat) \<Rightarrow> 'l \<Rightarrow> ptr \<Rightarrow> 'l system \<Rightarrow> history \<Rightarrow> history" where
  "note_handled rd wr l q s h =
     (case chans (reactors s l) q of None \<Rightarrow> h
      | Some ch \<Rightarrow>
          if tied ch \<and> OnRead \<in> set (due_events (revents ch))
          then (case conns s (tie ch) of None \<Rightarrow> h | Some k \<Rightarrow> note_read rd (wr OnRead) (tie ch) k h)
          else h)"

text \<open>
  The runs with a history are those in which every channel of a connection is handled for a mask that does not close it and read from it in the same turn
  (\<open>mask_ok\<close>): what such a read delivers after the close is dropped, not echoed.
\<close>

inductive echo_step :: "(nat \<Rightarrow> int) \<Rightarrow> (string \<Rightarrow> nat) \<Rightarrow> bool \<Rightarrow> 'l rounds \<times> history \<Rightarrow> 'l rounds \<times> history \<Rightarrow> bool" for ret hf wcc where
  serve: "round_at w l = InDispatch (q # qs) \<Longrightarrow> event_fits rd wr env q (whole w) \<Longrightarrow> sys_handle ret hf wcc rd wr env t l q (whole w) = Inr s' \<Longrightarrow>
    \<forall>ch. chans (reactors (whole w) l) q = Some ch \<and> tied ch \<longrightarrow> mask_ok (revents ch) \<Longrightarrow>
    echo_step ret hf wcc (w, h) (w\<lparr>whole := s', round_at := (round_at w)(l := InDispatch qs), closed_twice := (closed_twice w \<or> closed_again l q (whole w) s')\<rparr>,
      note_handled rd wr l q (whole w) h)"
| pass: "round_step ret hf wcc w w' \<Longrightarrow> \<nexists>l q qs. round_at w l = InDispatch (q # qs) \<and> round_at w' l = InDispatch qs \<Longrightarrow>
    echo_step ret hf wcc (w, h) (w', h)"




lemma round_step_echo:
  assumes "round_step ret hf wcc w w'"
    and mask: "\<And>l q qs ch. round_at w l = InDispatch (q # qs) \<Longrightarrow> chans (reactors (whole w) l) q = Some ch \<Longrightarrow> tied ch \<Longrightarrow> mask_ok (revents ch)"
  shows "\<exists>h'. echo_step ret hf wcc (w, h) (w', h')"
proof (cases "\<exists>l q qs. round_at w l = InDispatch (q # qs) \<and> round_at w' l = InDispatch qs")
  case False
  then show ?thesis using echo_step.pass [OF assms(1)] by blast
next
  case True
  then obtain l q qs where l: "round_at w l = InDispatch (q # qs)" "round_at w' l = InDispatch qs" by blast
  show ?thesis
    using assms(1)
  proof (cases rule: round_step.cases)
    case (handled l q qs rd wr env t s')
    show ?thesis unfolding handled(1) by (intro exI, rule echo_step.serve [OF handled(2-4)]) (use mask [OF handled(2)] in blast)
  qed (use l in \<open>auto split: if_splits\<close>)
qed

section \<open>Operations that leave the bytes alone\<close>

text \<open>Nothing is read, the stream keeps its bytes, and no shutdown begins.\<close>

definition calm :: "tcp_conn \<Rightarrow> tcp_conn \<Rightarrow> bool" where
  "calm k k' \<longleftrightarrow> inputBuffer k' = inputBuffer k \<and> stream k' = stream k \<and> (cstate k' = kDisconnecting \<longrightarrow> cstate k = kDisconnecting)"


lemma calm_refl [simp]: "calm k k"
  by (simp add: calm_def)

lemma calm_rx [simp]: "calm (k\<lparr>rx := r\<rparr>) k' = calm k k'"
  by (simp add: calm_def stream_def)








section \<open>One connection\<close>

text \<open>A connection of the echo server: no input waits between two reads, and its stream is what was heard.\<close>

definition echoed :: "history \<Rightarrow> nat \<Rightarrow> tcp_conn \<Rightarrow> bool" where
  "echoed h c k \<longleftrightarrow> cstate k \<noteq> kDisconnecting \<and> content (inputBuffer k) = [] \<and> (c \<in> resets h \<or> stream k = heard h c)"




section \<open>The callbacks of a turn\<close>

definition all_echoed :: "history \<Rightarrow> 'l system \<Rightarrow> bool" where
  "all_echoed h s \<longleftrightarrow> (\<forall>c k. conns s c = Some k \<longrightarrow> echoed h c k)"










section \<open>The turn of a channel\<close>

text \<open>A connection that does not exist yet has no history.\<close>

definition echo_ok :: "history \<Rightarrow> 'l system \<Rightarrow> bool" where
  "echo_ok h s \<longleftrightarrow> all_echoed h s \<and> (\<forall>c. objects (ctl s) c = None \<longrightarrow> heard h c = [] \<and> c \<notin> resets h)"

lemma echo_okI:
  assumes "echo_ok h s" and "all_echoed h s'" and "\<And>c. objects (ctl s') c = None \<Longrightarrow> objects (ctl s) c = None"
  shows "echo_ok h s'"
  using assms by (simp add: echo_ok_def)






section \<open>Every step\<close>





section \<open>Runs\<close>






section \<open>A session\<close>






lemma high_water_rx: "rx (high_water n k) = rx k"
  by simp














section \<open>Properties\<close>





end
