(* ===== verification/CrossThread.thy ===== *)
theory CrossThread
  imports TcpConnections
begin

text \<open>
  A connection used from a thread other than its loop's: \<^verbatim>\<open>send\<close>, \<^verbatim>\<open>shutdown\<close> and \<^verbatim>\<open>sendFile\<close> then queue a functor, which the loop thread runs later. The
  functor of \<^verbatim>\<open>send\<close> holds a pointer into the string of the caller, so strings live in a store here, and what the pointer reads is what the store
  has when the functor runs.
\<close>

section \<open>The calls\<close>

type_synonym strings = "ptr \<rightharpoonup> string"

definition post_functor :: "conn_functor \<Rightarrow> tcp_conn \<Rightarrow> tcp_conn" where
  "post_functor f s = s\<lparr>io_loop := queueInLoop False f (io_loop s)\<rparr>"

text \<open>\<open>p\<close> is the address of the characters of the caller's string.\<close>

definition send_from :: "bool \<Rightarrow> strings \<Rightarrow> (nat \<Rightarrow> int) \<Rightarrow> (string \<Rightarrow> int + nat) \<Rightarrow> ptr \<Rightarrow> tcp_conn \<Rightarrow> tcp_conn result" where
  "send_from inLoopThread mem ret wr p s =
     (if cstate s = kConnected
      then case mem p of None \<Rightarrow> Inl Use_after_free
           | Some buf \<Rightarrow> if inLoopThread then sendInLoop ret wr buf s else Inr (post_functor (SendInLoop p (length buf)) s)
      else Inr s)"

definition shutdown_from :: "bool \<Rightarrow> tcp_conn \<Rightarrow> tcp_conn result" where
  "shutdown_from inLoopThread s =
     (if cstate s = kConnected
      then let s1 = s\<lparr>cstate := kDisconnecting\<rparr> in if inLoopThread then shutdownInLoop s1 else Inr (post_functor ShutdownInLoop s1)
      else Inr s)"

definition sendFile_from :: "bool \<Rightarrow> (nat \<Rightarrow> nat \<Rightarrow> int + nat) \<Rightarrow> string \<Rightarrow> int \<Rightarrow> nat \<Rightarrow> nat \<Rightarrow> tcp_conn \<Rightarrow> tcp_conn result" where
  "sendFile_from inLoopThread sf contents fileDescriptor offset cnt s =
     (if cstate s = kConnected
      then if inLoopThread then sendFileInLoop sf contents fileDescriptor offset cnt s
           else Inr (post_functor (SendFileInLoop fileDescriptor offset cnt) s)
      else Inr s)"

section \<open>The loop thread runs the functors\<close>

definition run_conn_functor ::
    "strings \<Rightarrow> (nat \<Rightarrow> int) \<Rightarrow> (string \<Rightarrow> int + nat) \<Rightarrow> (nat \<Rightarrow> nat \<Rightarrow> int + nat) \<Rightarrow> string \<Rightarrow> conn_functor \<Rightarrow> tcp_conn \<Rightarrow> tcp_conn result" where
  "run_conn_functor mem ret wr sf contents f s =
     (case f of
        WriteComplete \<Rightarrow> Inr (s\<lparr>user_calls := user_calls s @ [WriteCompleteCall]\<rparr>)
      | HighWaterMark n \<Rightarrow> Inr (s\<lparr>user_calls := user_calls s @ [HighWaterMarkCall n]\<rparr>)
      | ShutdownInLoop \<Rightarrow> shutdownInLoop s
      | SendFileInLoop fileDescriptor offset cnt \<Rightarrow> sendFileInLoop sf contents fileDescriptor offset cnt s
      | SendInLoop p n \<Rightarrow>
          (case mem p of None \<Rightarrow> if n = 0 then sendInLoop ret wr [] s else Inl Use_after_free
           | Some buf \<Rightarrow> if n \<le> length buf then sendInLoop ret wr (take n buf) s else Inl Out_of_bounds))"

text \<open>One round: the queue is swapped out, then run in order.\<close>

fun run_conn_functors ::
    "strings \<Rightarrow> (nat \<Rightarrow> int) \<Rightarrow> (string \<Rightarrow> int + nat) \<Rightarrow> (nat \<Rightarrow> nat \<Rightarrow> int + nat) \<Rightarrow> string \<Rightarrow> conn_functor list \<Rightarrow> tcp_conn \<Rightarrow> tcp_conn result" where
  "run_conn_functors mem ret wr sf contents [] s = Inr s"
| "run_conn_functors mem ret wr sf contents (f # fs) s =
     bind_result (run_conn_functor mem ret wr sf contents f s) (run_conn_functors mem ret wr sf contents fs)"

definition conn_round :: "strings \<Rightarrow> (nat \<Rightarrow> int) \<Rightarrow> (string \<Rightarrow> int + nat) \<Rightarrow> (nat \<Rightarrow> nat \<Rightarrow> int + nat) \<Rightarrow> string \<Rightarrow> tcp_conn \<Rightarrow> tcp_conn result" where
  "conn_round mem ret wr sf contents s =
     run_conn_functors mem ret wr sf contents (queued s) (s\<lparr>io_loop := (io_loop s)\<lparr>pendingFunctors := []\<rparr>\<rparr>)"

section \<open>Lemmas\<close>

lemma conn_ok_io_loop [simp]: "conn_ok (s\<lparr>io_loop := l\<rparr>) = conn_ok s" "stream (s\<lparr>io_loop := l\<rparr>) = stream s" "writing (s\<lparr>io_loop := l\<rparr>) = writing s"
  by (simp_all add: conn_ok_def writing_def stream_def)

lemma post_functor_simps [simp]:
  "queued (post_functor f s) = queued s @ [f]" "cstate (post_functor f s) = cstate s"
  "(post_functor f s)\<lparr>io_loop := l\<rparr> = s\<lparr>io_loop := l\<rparr>"
  by (simp_all add: post_functor_def)

lemma disconnecting_ok: "conn_ok s \<Longrightarrow> cstate s = kConnected \<Longrightarrow> conn_ok (s\<lparr>cstate := kDisconnecting\<rparr>)"
  by (auto simp: conn_ok_def writing_def)

section \<open>Properties\<close>

text \<open>
  C40: A send and then a shutdown from another thread, on a connection with no functor queued. When the string of the caller is unchanged at the time the
  loop runs the functors, the round succeeds, the data join the stream although the state is no longer \<open>kConnected\<close>, and the
  writing side is shut exactly when everything has gone out; a send of nothing does not depend on the string. When a string that is not empty has been
  destroyed by then, the round reads freed memory; when it has been overwritten, other data go out.
\<close>

theorem cross_thread_send_then_shutdown:
  assumes ok: "conn_ok s" and up: "cstate s = kConnected" and acc: "epoll_accepts ret" and wr: "write_contract wr"
    and q: "queued s = []" and buf: "mem p = Some buf" and fits: "length buf \<le> vec_max_size - writerIndex (outputBuffer s)"
  shows "\<exists>s1 s2. send_from False mem ret wr p s = Inr s1 \<and> shutdown_from False s1 = Inr s2 \<and> stream s2 = stream s \<and>
    (\<forall>mem'. mem' p = None \<and> buf \<noteq> [] \<longrightarrow> conn_round mem' ret wr sf contents s2 = Inl Use_after_free) \<and>
    (\<forall>mem' buf'. (mem' p = Some buf' \<and> length buf' = length buf \<or> buf = [] \<and> buf' = []) \<and> \<not> broken (wr buf') \<longrightarrow>
       (\<exists>s'. conn_round mem' ret wr sf contents s2 = Inr s' \<and> cstate s' = kDisconnecting \<and>
         sock_out s' @ content (outputBuffer s') = sock_out s @ content (outputBuffer s) @ buf' \<and>
         (write_shut s' \<longleftrightarrow> content (outputBuffer s') = [])))"
proof -
  let ?n = "length buf"
  let ?s1 = "post_functor (SendInLoop p ?n) s"
  let ?s2 = "post_functor ShutdownInLoop (?s1\<lparr>cstate := kDisconnecting\<rparr>)"
  have calls: "send_from False mem ret wr p s = Inr ?s1" "shutdown_from False ?s1 = Inr ?s2"
    using up buf by (simp_all add: send_from_def shutdown_from_def)
  have qs: "queued ?s2 = [SendInLoop p ?n, ShutdownInLoop]" using q by (simp add: post_functor_def)
  obtain l where l: "?s2\<lparr>io_loop := (io_loop ?s2)\<lparr>pendingFunctors := []\<rparr>\<rparr> = (s\<lparr>cstate := kDisconnecting\<rparr>)\<lparr>io_loop := l\<rparr>"
    by (simp add: post_functor_def)
  let ?t = "(s\<lparr>cstate := kDisconnecting\<rparr>)\<lparr>io_loop := l\<rparr>"
  have round: "conn_round mem' ret wr sf contents ?s2 =
      bind_result (run_conn_functor mem' ret wr sf contents (SendInLoop p ?n) ?t) shutdownInLoop" for mem'
    unfolding conn_round_def qs l by (simp add: run_conn_functor_def bind_result_def split: sum.split)
  have okt: "conn_ok ?t" using disconnecting_ok [OF ok up] by simp
  have shut: "\<not> write_shut ?t" using ok up by (auto simp: conn_ok_def)
  have "\<exists>s'. conn_round mem' ret wr sf contents ?s2 = Inr s' \<and> cstate s' = kDisconnecting \<and>
         sock_out s' @ content (outputBuffer s') = sock_out s @ content (outputBuffer s) @ buf' \<and>
         (write_shut s' \<longleftrightarrow> content (outputBuffer s') = [])"
    if m: "mem' p = Some buf' \<and> length buf' = ?n \<or> buf = [] \<and> buf' = []" "\<not> broken (wr buf')" for mem' buf'
  proof -
    have f: "length buf' \<le> vec_max_size - writerIndex (outputBuffer ?t)" using fits m(1) by auto
    have nb: "\<not> ((\<not> writing ?t \<and> content (outputBuffer ?t) = []) \<and> wr buf' = Inl EPIPE)" using m(2) by (auto simp: broken_def)
    obtain u where u: "sendInLoop ret wr buf' ?t = Inr u" "conn_ok u" "cstate u = cstate ?t" "write_shut u = write_shut ?t"
      "if (\<not> writing ?t \<and> content (outputBuffer ?t) = []) \<and> broken (wr buf') then stream u = stream ?t else stream u = stream ?t @ buf'"
      using sendInLoop_ok [OF okt acc wr shut f nb] by blast
    have st: "cstate u = kDisconnecting" "stream u = stream ?t @ buf'" using u(3,5) m(2) by auto
    have "run_conn_functor mem' ret wr sf contents (SendInLoop p ?n) ?t = sendInLoop ret wr buf' ?t"
      using m(1) by (auto simp: run_conn_functor_def split: option.split)
    from shutdownInLoop_ok [OF u(2) st(1)] u(4) shut obtain s' where s': "shutdownInLoop u = Inr s'" "cstate s' = kDisconnecting" "stream s' = stream u"
      "write_shut s' \<longleftrightarrow> content (outputBuffer s') = []" by (auto simp: st(1))
    with \<open>run_conn_functor mem' ret wr sf contents (SendInLoop p ?n) ?t = sendInLoop ret wr buf' ?t\<close> show ?thesis
      using round u(1) st s' by (simp add: stream_def)
  qed
  moreover have "conn_round mem' ret wr sf contents ?s2 = Inl Use_after_free" if "mem' p = None \<and> buf \<noteq> []" for mem'
    using that by (simp add: round run_conn_functor_def)
  moreover have "stream ?s2 = stream s" by (simp add: post_functor_def stream_def)
  ultimately show ?thesis using calls by blast
qed

theorem cross_thread_send_then_shutdown_witness:
  "\<exists>s1 s2. send_from False [3 \<mapsto> ''hello''] (\<lambda>n. 0) (\<lambda>d. Inr (length d)) 3 sample_conn = Inr s1 \<and> shutdown_from False s1 = Inr s2 \<and>
     conn_round Map.empty (\<lambda>n. 0) (\<lambda>d. Inr (length d)) (\<lambda>off k. Inr k) [] s2 = Inl Use_after_free"
  using cross_thread_send_then_shutdown [OF sample_conn_ok(1,2) sample_accepts(1), of "\<lambda>d. Inr (length d)" "[3 \<mapsto> ''hello'']" 3 "''hello''" "\<lambda>off k. Inr k" "[]"]
    sample_conn_ok(7) sample_conn_empty(3)
  by (auto simp: write_contract_def vec_max_size_def loop_fresh_def)

end
