(* ===== verification/FatalLog.thy ===== *)
theory FatalLog
  imports LogPipeline
begin

text \<open>
  How a fatal statement ends the process, \<^verbatim>\<open>src/Logger.cc\<close>: the output and flush functions that the logger calls are variables, \<^verbatim>\<open>stdout\<close> until
  \<^verbatim>\<open>setOutput\<close> and \<^verbatim>\<open>setFlush\<close> replace them. \<^verbatim>\<open>src/main.cc\<close> replaces the output function only. The destructor of a fatal statement gives its line to the
  output function, calls the flush function and aborts; between these the other threads go on.
\<close>

section \<open>Output and flush functions\<close>

text \<open>\<^verbatim>\<open>stdout\<close>: the bytes its stream has taken, and how many of them are certain to have left the process.\<close>

record stdio =
  accepted :: string
  passed :: nat

record log_world =
  terminal :: stdio
  g_asyncLog :: "async option"

type_synonym OutputFunc = "string \<Rightarrow> int \<Rightarrow> log_world \<Rightarrow> log_world result"
type_synonym FlushFunc = "log_world \<Rightarrow> log_world"

definition defaultOutput :: OutputFunc where
  "defaultOutput msg len w = Inr (w\<lparr>terminal := (terminal w)\<lparr>accepted := accepted (terminal w) @ take (nat len) msg\<rparr>\<rparr>)"

definition defaultFlush :: FlushFunc where
  "defaultFlush w = w\<lparr>terminal := (terminal w)\<lparr>passed := length (accepted (terminal w))\<rparr>\<rparr>"

text \<open>\<^verbatim>\<open>asyncLog\<close> as an output function; \<open>mem\<close> is the memory of a buffer that the append may allocate.\<close>

definition asyncOutput :: "char list \<Rightarrow> OutputFunc" where
  "asyncOutput mem msg len w = bind_result (asyncLog mem (g_asyncLog w) msg len) (\<lambda>a. Inr (w\<lparr>g_asyncLog := a\<rparr>))"

record log_globals =
  g_output :: OutputFunc
  g_flush :: FlushFunc

definition initial_globals :: log_globals where
  "initial_globals = \<lparr>g_output = defaultOutput, g_flush = defaultFlush\<rparr>"

definition setOutput :: "OutputFunc \<Rightarrow> log_globals \<Rightarrow> log_globals" where
  "setOutput out g = g\<lparr>g_output := out\<rparr>"

definition setFlush :: "FlushFunc \<Rightarrow> log_globals \<Rightarrow> log_globals" where
  "setFlush flush g = g\<lparr>g_flush := flush\<rparr>"

text \<open>What \<^verbatim>\<open>main\<close> leaves.\<close>

definition main_globals :: "char list \<Rightarrow> log_globals" where
  "main_globals mem = setOutput (asyncOutput mem) initial_globals"

section \<open>The destructor\<close>

text \<open>Up to the test of the level; the result says whether the thread goes on to flush and abort.\<close>

definition emit_line :: "log_globals \<Rightarrow> logger \<Rightarrow> log_world \<Rightarrow> (bool \<times> log_world) result" where
  "emit_line g l w =
     bind_result (Logger_dtor l) (\<lambda>(l_text, fatal).
     bind_result (g_output g l_text (int (length l_text)) w) (\<lambda>w'. Inr (fatal, w')))"

definition emit_statement ::
    "(int \<Rightarrow> tm) \<Rightarrow> (int \<Rightarrow> string) \<Rightarrow> thread_info \<Rightarrow> char list \<Rightarrow> log_globals \<Rightarrow> statement \<Rightarrow> log_world \<Rightarrow> (bool \<times> log_world) result" where
  "emit_statement localtime strerror_r ti memory g st w =
     bind_result (Logger localtime strerror_r (st_now st) ti memory (st_file st) (st_line st) (st_level st)) (\<lambda>(ti', l).
     bind_result (LogStream_puts (stream l) (st_args st)) (\<lambda>s. emit_line g (l\<lparr>stream := s\<rparr>) w))"

text \<open>
  The process: the logging system, \<^verbatim>\<open>stdout\<close>, the statements executed so far, and whether a thread is on its way to \<^verbatim>\<open>abort\<close>. After the abort
  nothing moves any more: what is in no file is gone.
\<close>

datatype phase = Alive | Dying | Dead

record log_process =
  log_sys :: async_sys
  log_stdout :: stdio
  executed :: "statement list"
  log_phase :: phase

definition world_of :: "log_process \<Rightarrow> log_world" where
  "world_of p = \<lparr>terminal = log_stdout p, g_asyncLog = Some (shared (log_sys p))\<rparr>"

definition after_statement :: "(int \<Rightarrow> tm) \<Rightarrow> statement \<Rightarrow> bool \<Rightarrow> log_world \<Rightarrow> log_process \<Rightarrow> log_process" where
  "after_statement localtime st fatal w p =
     p\<lparr>log_sys := (log_sys p)\<lparr>shared := (case g_asyncLog w of None \<Rightarrow> shared (log_sys p) | Some a \<Rightarrow> a),
            lines := lines (log_sys p) @ [rendered localtime st]\<rparr>,
       log_stdout := terminal w, executed := executed p @ [st], log_phase := (if fatal then Dying else log_phase p)\<rparr>"

definition flush_and_abort :: "log_globals \<Rightarrow> log_process \<Rightarrow> log_process" where
  "flush_and_abort g p =
     (let w = g_flush g (world_of p)
      in p\<lparr>log_sys := (log_sys p)\<lparr>shared := (case g_asyncLog w of None \<Rightarrow> shared (log_sys p) | Some a \<Rightarrow> a)\<rparr>,
           log_stdout := terminal w, log_phase := Dead\<rparr>)"

text \<open>A statement that a program can execute, of any level with a name.\<close>

definition line_ok :: "(int \<Rightarrow> tm) \<Rightarrow> statement \<Rightarrow> bool" where
  "line_ok localtime st \<longleftrightarrow> statement_ok localtime (st\<lparr>st_level := INFO\<rparr>) \<and> st_level st \<noteq> LEVEL_COUNT"

inductive process_step ::
    "(int \<Rightarrow> tm) \<Rightarrow> (int \<Rightarrow> string) \<Rightarrow> (nat \<Rightarrow> nat \<times> bool) \<Rightarrow> (string \<Rightarrow> bool) \<Rightarrow> (int \<Rightarrow> string) \<Rightarrow> log_process \<Rightarrow> log_process \<Rightarrow> bool"
  for localtime strerror_r fwrite fopen strftime where
  statement: "log_phase p \<noteq> Dead \<Longrightarrow> line_ok localtime st \<Longrightarrow> length (t_timer ti) = 64 \<Longrightarrow> length memory = kSmallBufferSize \<Longrightarrow>
    length mem = kLargeBufferSize \<Longrightarrow>
    emit_statement localtime strerror_r ti memory (main_globals mem) st (world_of p) = Inr (fatal, w) \<Longrightarrow>
    process_step localtime strerror_r fwrite fopen strftime p (after_statement localtime st fatal w p)"
| other: "log_phase p \<noteq> Dead \<Longrightarrow> async_step fwrite fopen strftime (log_sys p) s' \<Longrightarrow> lines s' = lines (log_sys p) \<Longrightarrow>
    process_step localtime strerror_r fwrite fopen strftime p (p\<lparr>log_sys := s'\<rparr>)"
| abort: "log_phase p = Dying \<Longrightarrow> process_step localtime strerror_r fwrite fopen strftime p (flush_and_abort (main_globals mem) p)"

definition process_init :: "log_process \<Rightarrow> bool" where
  "process_init p \<longleftrightarrow> async_init (log_sys p) \<and> executed p = [] \<and> log_phase p = Alive"

section \<open>Lemmas\<close>

text \<open>The statement hands its line to the output function, whatever that function is.\<close>

lemma emit_statement_output:
  assumes st: "line_ok localtime st" and ti: "length (t_timer ti) = 64" and m: "length memory = kSmallBufferSize"
  shows "emit_statement localtime strerror_r ti memory g st w =
    bind_result (g_output g (rendered localtime st) (int (length (rendered localtime st))) w) (\<lambda>w'. Inr (st_level st = FATAL, w'))"
proof -
  obtain name where name: "getLevelName (st_level st) = Inr name" using st by (cases "st_level st") (auto simp: line_ok_def)
  have "log_statement localtime strerror_r (st_now st) ti memory (st_file st) (st_line st) (st_level st) (st_args st) =
      Inr (rendered localtime st, st_level st = FATAL)"
    using log_statement_line [where localtime = localtime and now = "st_now st", OF m ti _ _ name] st
    by (simp add: line_ok_def statement_ok_def rendered_def name)
  then show ?thesis
    by (auto simp: emit_statement_def emit_line_def log_statement_def bind_result_def split: sum.splits)
qed

lemma rendered_line_short:
  assumes "line_ok localtime st"
  shows "length (rendered localtime st) < kLargeBufferSize"
proof -
  obtain name where "getLevelName (st_level st) = Inr name" "length name = 6"
    using assms getLevelName_length by (cases "st_level st") (auto simp: line_ok_def)
  moreover obtain info where "getLevelName INFO = Inr info" "length info = 6" by simp
  ultimately have "length (rendered localtime st) = length (rendered localtime (st\<lparr>st_level := INFO\<rparr>))"
    by (simp add: rendered_def)
  then show ?thesis using rendered_short [of localtime "st\<lparr>st_level := INFO\<rparr>"] assms by (simp add: line_ok_def)
qed

text \<open>In the running program that is one append to the asynchronous log.\<close>

lemma statement_appends:
  assumes st: "line_ok localtime st" and ti: "length (t_timer ti) = 64" and m: "length memory = kSmallBufferSize"
    and mem: "length mem = kLargeBufferSize" and inv: "async_inv (log_sys p)"
  obtains w where "emit_statement localtime strerror_r ti memory (main_globals mem) st (world_of p) = Inr (st_level st = FATAL, w)"
    and "after_statement localtime st (st_level st = FATAL) w p =
      p\<lparr>log_sys := sys_append mem (rendered localtime st) (log_sys p), executed := executed p @ [st],
        log_phase := (if st_level st = FATAL then Dying else log_phase p)\<rparr>"
proof -
  have "front_inv (shared (log_sys p))" using inv by (simp add: async_inv_def)
  from append_front [OF this rendered_line_short [OF st] mem]
  obtain n a where a: "AsyncLogging_append mem (shared (log_sys p)) (rendered localtime st) (int (length (rendered localtime st))) = Inr (n, a)"
    by metis
  show thesis
  proof
    show "emit_statement localtime strerror_r ti memory (main_globals mem) st (world_of p) =
        Inr (st_level st = FATAL, (world_of p)\<lparr>g_asyncLog := Some a\<rparr>)"
      using a by (simp add: emit_statement_output [OF st ti m] main_globals_def setOutput_def asyncOutput_def asyncLog_def world_of_def)
    show "after_statement localtime st (st_level st = FATAL) ((world_of p)\<lparr>g_asyncLog := Some a\<rparr>) p =
        p\<lparr>log_sys := sys_append mem (rendered localtime st) (log_sys p), executed := executed p @ [st],
          log_phase := (if st_level st = FATAL then Dying else log_phase p)\<rparr>"
      using a by (simp add: after_statement_def sys_append_def world_of_def)
  qed
qed

text \<open>The flush function of the running program is still the one of \<^verbatim>\<open>stdout\<close>, which does nothing to the asynchronous log.\<close>

lemma main_flush:
  "flush_and_abort (main_globals mem) p =
     p\<lparr>log_stdout := (log_stdout p)\<lparr>passed := length (accepted (log_stdout p))\<rparr>, log_phase := Dead\<rparr>"
proof -
  have "(log_sys p)\<lparr>shared := shared (log_sys p)\<rparr> = log_sys p" by (cases "log_sys p") simp
  then have "p\<lparr>log_sys := (log_sys p)\<lparr>shared := shared (log_sys p)\<rparr>\<rparr> = p" by (cases p) simp
  then show ?thesis
    by (simp add: flush_and_abort_def main_globals_def setOutput_def initial_globals_def defaultFlush_def world_of_def Let_def)
qed

definition process_ok :: "(int \<Rightarrow> tm) \<Rightarrow> log_process \<Rightarrow> bool" where
  "process_ok localtime p \<longleftrightarrow> async_inv (log_sys p) \<and> lines (log_sys p) = map (rendered localtime) (executed p) \<and>
     (log_phase p \<noteq> Alive \<longrightarrow> (\<exists>st\<in>set (executed p). st_level st = FATAL))"

lemma process_step_ok:
  assumes files: "fwrite_all fwrite" "\<forall>n. fopen n" and ok: "process_ok localtime p"
    and step: "process_step localtime strerror_r fwrite fopen strftime p q"
  shows "process_ok localtime q"
  using step
proof cases
  case (statement st ti memory mem fatal w)
  have inv: "async_inv (log_sys p)" using ok by (simp add: process_ok_def)
  obtain v where v: "emit_statement localtime strerror_r ti memory (main_globals mem) st (world_of p) = Inr (st_level st = FATAL, v)"
      "after_statement localtime st (st_level st = FATAL) v p =
        p\<lparr>log_sys := sys_append mem (rendered localtime st) (log_sys p), executed := executed p @ [st],
          log_phase := (if st_level st = FATAL then Dying else log_phase p)\<rparr>"
    by (rule statement_appends [OF statement(3-6) inv])
  have "q = p\<lparr>log_sys := sys_append mem (rendered localtime st) (log_sys p), executed := executed p @ [st],
      log_phase := (if st_level st = FATAL then Dying else log_phase p)\<rparr>"
    using statement(1,7) v by simp
  then show ?thesis
    using ok sys_append_inv [OF inv rendered_line_short [OF statement(3)] statement(6)] by (auto simp: process_ok_def)
next
  case (other s')
  then show ?thesis using ok async_step_inv [OF other(3) files] by (simp add: process_ok_def)
next
  case (abort mem)
  then show ?thesis using ok by (simp add: process_ok_def main_flush)
qed

lemma process_reach_ok:
  assumes "fwrite_all fwrite" and "\<forall>n. fopen n" and "reach process_init (process_step localtime strerror_r fwrite fopen strftime) p"
  shows "process_ok localtime p"
  using assms(3)
proof (rule reach_invariant)
  fix p assume "process_init p"
  then show "process_ok localtime p"
    using async_init_inv [of "log_sys p"] by (auto simp: process_init_def process_ok_def async_init_def)
qed (rule process_step_ok [OF assms(1,2)])

text \<open>The shortest way from a fatal statement to the end of the process: nothing comes between its two halves.\<close>

lemma fatal_run:
  assumes alive: "log_phase p \<noteq> Dead" and ok: "process_ok localtime p" and st: "line_ok localtime st" "st_level st = FATAL"
  obtains p1 p2 lost where "process_step localtime strerror_r fwrite fopen strftime p p1"
    and "process_step localtime strerror_r fwrite fopen strftime p1 p2" and "log_phase p2 = Dead" and "executed p2 = executed p @ [st]"
    and "accepted (log_stdout p2) = accepted (log_stdout p)" and "outfile (worker (log_sys p2)) = outfile (worker (log_sys p))"
    and "all_contents (outfile (worker (log_sys p2))) @ lost @ rendered localtime st = concat (map (rendered localtime) (executed p2))"
proof -
  let ?ti = "\<lparr>t_timer = replicate 64 (CHR 0x00), t_lastSecond = 0\<rparr>" and ?m = "replicate kSmallBufferSize (CHR 0x00)"
  let ?mem = "replicate kLargeBufferSize (CHR 0x00)"
  let ?p1 = "p\<lparr>log_sys := sys_append ?mem (rendered localtime st) (log_sys p), executed := executed p @ [st], log_phase := Dying\<rparr>"
  have inv: "async_inv (log_sys p)" using ok by (simp add: process_ok_def)
  have sizes: "length (t_timer ?ti) = 64" "length ?m = kSmallBufferSize" "length ?mem = kLargeBufferSize" by simp_all
  obtain v where v: "emit_statement localtime strerror_r ?ti ?m (main_globals ?mem) st (world_of p) = Inr (st_level st = FATAL, v)"
      "after_statement localtime st (st_level st = FATAL) v p =
        p\<lparr>log_sys := sys_append ?mem (rendered localtime st) (log_sys p), executed := executed p @ [st],
          log_phase := (if st_level st = FATAL then Dying else log_phase p)\<rparr>"
    by (rule statement_appends [OF st(1) sizes inv])
  have first: "process_step localtime strerror_r fwrite fopen strftime p ?p1"
    using process_step.statement [OF alive st(1) sizes v(1)] v(2) st(2) by simp
  have inv': "async_inv (sys_append ?mem (rendered localtime st) (log_sys p))"
    and l: "lines (sys_append ?mem (rendered localtime st) (log_sys p)) = lines (log_sys p) @ [rendered localtime st]"
    using sys_append_inv [OF inv rendered_line_short [OF st(1)] sizes(3)] by simp_all
  have w: "worker (sys_append ?mem (rendered localtime st) (log_sys p)) = worker (log_sys p)" by (simp add: sys_append_def split: sum.splits)
  let ?p2 = "flush_and_abort (main_globals ?mem) ?p1"
  show thesis
  proof
    show "process_step localtime strerror_r fwrite fopen strftime p ?p1" by (rule first)
    show "process_step localtime strerror_r fwrite fopen strftime ?p1 ?p2" by (rule process_step.abort) simp
    show "accepted (log_stdout ?p2) = accepted (log_stdout p)"
      by (simp add: main_flush)
    show "all_contents (outfile (worker (log_sys ?p2))) @ (unwritten (pc (log_sys p)) (worker (log_sys p)) @ front_text (shared (log_sys p))) @
        rendered localtime st = concat (map (rendered localtime) (executed ?p2))"
      using ok by (simp add: main_flush w process_ok_def async_inv_def)
  qed (simp_all add: main_flush w)
qed

section \<open>Property\<close>

text \<open>
  C12: What a fatal statement leaves behind. In the running program, in every interleaving over a working file system, only a fatal statement ends
  the process. From every state, once such a statement has been executed the process can end with no further byte in the log files:
  the flush function is still the one of \<^verbatim>\<open>stdout\<close>, nobody waits for the back end, and the fatal line is among the lines that
  are in no file. With the functions the logger starts with, the same statement leaves its line on \<^verbatim>\<open>stdout\<close>, flushed.
\<close>

theorem fatal_line_lost:
  assumes "fwrite_all fwrite" and "\<forall>n. fopen n" and "reach process_init (process_step localtime strerror_r fwrite fopen strftime) p"
    and "line_ok localtime st" and "st_level st = FATAL"
  shows "(log_phase p = Dead \<longrightarrow> (\<exists>f\<in>set (executed p). st_level f = FATAL) \<and>
      (\<forall>q. \<not> process_step localtime strerror_r fwrite fopen strftime p q)) \<and>
    (log_phase p \<noteq> Dead \<longrightarrow> (\<exists>p1 p2. process_step localtime strerror_r fwrite fopen strftime p p1 \<and>
       process_step localtime strerror_r fwrite fopen strftime p1 p2 \<and> log_phase p2 = Dead \<and> executed p2 = executed p @ [st] \<and>
       accepted (log_stdout p2) = accepted (log_stdout p) \<and> outfile (worker (log_sys p2)) = outfile (worker (log_sys p)) \<and>
       (\<exists>lost. all_contents (outfile (worker (log_sys p2))) @ lost @ rendered localtime st = concat (map (rendered localtime) (executed p2))))) \<and>
    (\<forall>ti memory w. length (t_timer ti) = 64 \<and> length memory = kSmallBufferSize \<longrightarrow>
       (\<exists>w'. emit_statement localtime strerror_r ti memory initial_globals st w = Inr (True, w') \<and>
          g_flush initial_globals w' = w\<lparr>terminal := \<lparr>accepted = accepted (terminal w) @ rendered localtime st,
            passed = length (accepted (terminal w) @ rendered localtime st)\<rparr>\<rparr>))"
proof (intro conjI impI allI)
  let ?step = "process_step localtime strerror_r fwrite fopen strftime"
  have ok: "process_ok localtime p" by (rule process_reach_ok [OF assms(1-3)])
  show "\<exists>f\<in>set (executed p). st_level f = FATAL" if "log_phase p = Dead" using ok that by (simp add: process_ok_def)
  show "\<not> ?step p q" if "log_phase p = Dead" for q using that by (auto elim: process_step.cases)
  show "\<exists>p1 p2. ?step p p1 \<and> ?step p1 p2 \<and> log_phase p2 = Dead \<and> executed p2 = executed p @ [st] \<and>
       accepted (log_stdout p2) = accepted (log_stdout p) \<and> outfile (worker (log_sys p2)) = outfile (worker (log_sys p)) \<and>
       (\<exists>lost. all_contents (outfile (worker (log_sys p2))) @ lost @ rendered localtime st = concat (map (rendered localtime) (executed p2)))"
    if alive: "log_phase p \<noteq> Dead"
    by (rule fatal_run [OF alive ok assms(4,5)]) blast
next
  fix ti :: thread_info and memory :: string and w
  assume "length (t_timer ti) = 64 \<and> length memory = kSmallBufferSize"
  then show "\<exists>w'. emit_statement localtime strerror_r ti memory initial_globals st w = Inr (True, w') \<and>
      g_flush initial_globals w' = w\<lparr>terminal := \<lparr>accepted = accepted (terminal w) @ rendered localtime st,
        passed = length (accepted (terminal w) @ rendered localtime st)\<rparr>\<rparr>"
    using assms(5) by (simp add: emit_statement_output [OF assms(4)] initial_globals_def defaultOutput_def defaultFlush_def)
qed

definition sample_fatal :: statement where
  "sample_fatal = sample_statement\<lparr>st_level := FATAL\<rparr>"

definition sample_process :: log_process where
  "sample_process = \<lparr>log_sys = sample_sys, log_stdout = \<lparr>accepted = [], passed = 0\<rparr>, executed = [], log_phase = Alive\<rparr>"

theorem fatal_line_lost_witness:
  "\<exists>p. reach process_init (process_step (\<lambda>_. sample_tm) (\<lambda>_. []) (\<lambda>r. (r, False)) (\<lambda>_. True) (\<lambda>_. ''.t'')) p \<and>
     log_phase p = Dead \<and> executed p = [sample_fatal] \<and> all_contents (outfile (worker (log_sys p))) = [] \<and> accepted (log_stdout p) = []"
proof -
  let ?step = "process_step (\<lambda>_. sample_tm) (\<lambda>_. []) (\<lambda>r::nat. (r, False)) (\<lambda>_::string. True) (\<lambda>_::int. ''.t'')"
  have files: "fwrite_all (\<lambda>r. (r, False))" "\<forall>n::string. True" by (simp_all add: fwrite_all_def)
  have st: "line_ok (\<lambda>_. sample_tm) sample_fatal" "st_level sample_fatal = FATAL"
    by (simp_all add: line_ok_def statement_ok_def sample_fatal_def sample_statement_def tm_ok_def sample_tm_def builtin_int_def
        SourceFile_def c_str_def)
  have r: "reach process_init ?step sample_process"
    by (rule reach_init) (simp add: process_init_def sample_process_def sample_sys_init)
  have start: "log_phase sample_process \<noteq> Dead" "executed sample_process = []" "accepted (log_stdout sample_process) = []"
    "all_contents (outfile (worker (log_sys sample_process))) = []"
    by (simp_all add: sample_process_def sample_sys_def sample_log_def backend_init_def all_contents_def)
  obtain p1 p2 where run: "?step sample_process p1" "?step p1 p2"
    and p2: "log_phase p2 = Dead" "executed p2 = executed sample_process @ [sample_fatal]"
      "accepted (log_stdout p2) = accepted (log_stdout sample_process)"
      "outfile (worker (log_sys p2)) = outfile (worker (log_sys sample_process))"
    using fatal_line_lost [OF files r st] start(1) by blast
  note step = reach_step [where step = ?step]
  have "reach process_init ?step p2" by (rule step [OF step [OF r run(1)] run(2)])
  with p2 start show ?thesis by (intro exI [of _ p2]) simp
qed

end
