(* ===== verification/Threads.thy ===== *)
theory Threads
  imports Prelude
begin

text \<open>
  Threads: \<^verbatim>\<open>include/CurrentThread.h\<close>, \<^verbatim>\<open>src/CurrentThread.cc\<close>, \<^verbatim>\<open>src/Thread.cc\<close> and \<^verbatim>\<open>src/EventLoopThread.cc\<close>. The starting thread and the
  started one are interleaved step by step; the semaphore and the condition variable are what makes the one wait for the other.
\<close>

section \<open>CurrentThread and Thread\<close>

text \<open>\<open>gettid\<close> is what the system call returns; the state is the thread-local \<open>t_cachedTid\<close>.\<close>

definition cacheTid :: "int \<Rightarrow> int \<Rightarrow> int" where
  "cacheTid gettid cached = (if cached = 0 then gettid else cached)"

definition CurrentThread_tid :: "int \<Rightarrow> int \<Rightarrow> int \<times> int" where
  "CurrentThread_tid gettid cached = (let c = (if cached = 0 then cacheTid gettid cached else cached) in (c, c))"

record thread =
  th_started :: bool
  th_joined :: bool
  th_tid :: int
  th_name :: string

definition setDefaultName :: "int \<Rightarrow> string \<Rightarrow> string" where
  "setDefaultName num nm = (if nm = [] then take 31 (''Thread'' @ dec_int num) else nm)"

text \<open>The static counter \<open>numCreated_\<close> is passed in and out.\<close>

definition Thread :: "string \<Rightarrow> int \<Rightarrow> thread \<times> int" where
  "Thread nm created =
     (let num = created + 1 in (\<lparr>th_started = False, th_joined = False, th_tid = 0, th_name = setDefaultName num nm\<rparr>, num))"

text \<open>\<^verbatim>\<open>join\<close> needs a \<^verbatim>\<open>std::thread\<close>, which only \<^verbatim>\<open>start\<close> creates; the destructor tells whether it detaches.\<close>

definition Thread_join :: "thread \<Rightarrow> thread result" where
  "Thread_join t = (if th_started t then Inr (t\<lparr>th_joined := True\<rparr>) else Inl Null_deref)"

definition Thread_dtor :: "thread \<Rightarrow> bool" where
  "Thread_dtor t = (th_started t \<and> \<not> th_joined t)"

section \<open>EventLoopThread\<close>

text \<open>
  Where the two threads are. The owner: before \<^verbatim>\<open>startLoop\<close>, in \<^verbatim>\<open>sem_wait\<close>, in \<^verbatim>\<open>cond_.wait\<close>, returned with a loop; then in the destructor,
  with the non-null \<open>loop_\<close> it has read, in \<^verbatim>\<open>join\<close>, and after it. The new thread: not created, before it stores its identifier, before \<^verbatim>\<open>sem_post\<close>,
  before it constructs its loop, before the callback, before it publishes the loop, before \<^verbatim>\<open>loop()\<close> has cleared \<^verbatim>\<open>quit_\<close>, in the rounds of
  \<^verbatim>\<open>loop()\<close>, after it.
\<close>

datatype 'l owner_pc = NotStarted | SemWait | CondWait | GotLoop 'l | Quitting 'l | Joining | Finished

datatype thread_pc = NoThread | SetTid | SemPost | MakeLoop | CallInit | Publish | EnterLoop | InLoop | Ended

text \<open>\<open>init_calls\<close> are the loops the callback has been called with, \<open>quit_requested\<close> is the flag \<open>quit_\<close> of the loop.
  \<open>quit_early\<close> is a history variable: the destructor called \<open>quit()\<close> before \<open>loop()\<close> cleared the flag.\<close>

record 'l loop_thread =
  lt_thread :: thread
  lt_loop :: "'l option"
  lt_exiting :: bool
  lt_callback :: bool
  lt_sem :: nat
  owner :: "'l owner_pc"
  runner :: thread_pc
  init_calls :: "'l list"
  quit_requested :: bool
  quit_early :: bool

definition EventLoopThread :: "bool \<Rightarrow> string \<Rightarrow> int \<Rightarrow> 'l loop_thread" where
  "EventLoopThread cb nm created =
     \<lparr>lt_thread = fst (Thread nm created), lt_loop = None, lt_exiting = False, lt_callback = cb, lt_sem = 0, owner = NotStarted, runner = NoThread,
      init_calls = [], quit_requested = False, quit_early = False\<rparr>"

text \<open>
  The loop object lives on the stack of the new thread at the address \<open>l\<close>. The loop ends only when it has been asked to, which is what the
  destructor does; the loop is dead from then on. \<open>loop()\<close> starts with \<open>quit_ = false\<close> (\<open>enter\<close>). \<open>Thread::start\<close> is \<open>spawn\<close> and \<open>sem_wait\<close>, \<open>startLoop\<close> goes on to \<open>cond_wait\<close>; the lambda of the thread is
  \<open>set_tid\<close> and \<open>sem_post\<close>, \<open>threadFunc\<close> goes on from \<open>make_loop\<close> to \<open>end_loop\<close>; the destructor is \<open>dtor_check\<close>, \<open>dtor_quit\<close> and \<open>dtor_join\<close>.
\<close>

inductive loop_thread_step :: "'l \<Rightarrow> int \<Rightarrow> 'l loop_thread \<Rightarrow> 'l loop_thread \<Rightarrow> bool" for l gettid where
  spawn: "owner s = NotStarted \<Longrightarrow>
    loop_thread_step l gettid s (s\<lparr>lt_thread := (lt_thread s)\<lparr>th_started := True\<rparr>, owner := SemWait, runner := SetTid\<rparr>)"
| set_tid: "runner s = SetTid \<Longrightarrow>
    loop_thread_step l gettid s (s\<lparr>lt_thread := (lt_thread s)\<lparr>th_tid := fst (CurrentThread_tid gettid 0)\<rparr>, runner := SemPost\<rparr>)"
| sem_post: "runner s = SemPost \<Longrightarrow> loop_thread_step l gettid s (s\<lparr>lt_sem := lt_sem s + 1, runner := MakeLoop\<rparr>)"
| sem_wait: "owner s = SemWait \<Longrightarrow> 0 < lt_sem s \<Longrightarrow> loop_thread_step l gettid s (s\<lparr>lt_sem := lt_sem s - 1, owner := CondWait\<rparr>)"
| make_loop: "runner s = MakeLoop \<Longrightarrow> loop_thread_step l gettid s (s\<lparr>runner := CallInit\<rparr>)"
| call_init: "runner s = CallInit \<Longrightarrow>
    loop_thread_step l gettid s (s\<lparr>init_calls := (if lt_callback s then init_calls s @ [l] else init_calls s), runner := Publish\<rparr>)"
| publish: "runner s = Publish \<Longrightarrow> loop_thread_step l gettid s (s\<lparr>lt_loop := Some l, runner := EnterLoop\<rparr>)"
| enter: "runner s = EnterLoop \<Longrightarrow> loop_thread_step l gettid s (s\<lparr>quit_requested := False, runner := InLoop\<rparr>)"
| cond_wait: "owner s = CondWait \<Longrightarrow> lt_loop s = Some k \<Longrightarrow> loop_thread_step l gettid s (s\<lparr>owner := GotLoop k\<rparr>)"
| dtor_check: "owner s = GotLoop k \<Longrightarrow>
    loop_thread_step l gettid s (s\<lparr>lt_exiting := True, owner := (case lt_loop s of None \<Rightarrow> Finished | Some j \<Rightarrow> Quitting j)\<rparr>)"
| dtor_quit: "owner s = Quitting k \<Longrightarrow> 
    loop_thread_step l gettid s (s\<lparr>quit_requested := True, quit_early := (runner s = EnterLoop), owner := Joining\<rparr>)"
| dtor_join: "owner s = Joining \<Longrightarrow> runner s = Ended \<Longrightarrow> Thread_join (lt_thread s) = Inr th \<Longrightarrow>
    loop_thread_step l gettid s (s\<lparr>lt_thread := th, owner := Finished\<rparr>)"
| end_loop: "runner s = InLoop \<Longrightarrow> quit_requested s \<Longrightarrow> loop_thread_step l gettid s (s\<lparr>lt_loop := None, runner := Ended\<rparr>)"

section \<open>The handshake\<close>

text \<open>What holds in each state of the new thread.\<close>

definition before_loop :: "'l loop_thread \<Rightarrow> bool" where
  "before_loop s \<longleftrightarrow> lt_loop s = None \<and> (owner s = SemWait \<and> lt_sem s = 1 \<or> owner s = CondWait \<and> lt_sem s = 0)"

definition init_done :: "'l \<Rightarrow> 'l loop_thread \<Rightarrow> bool" where
  "init_done l s \<longleftrightarrow> init_calls s = (if lt_callback s then [l] else [])"

definition published :: "'l \<Rightarrow> 'l loop_thread \<Rightarrow> bool" where
  "published l s \<longleftrightarrow> lt_loop s = Some l \<and>
     (owner s = SemWait \<and> lt_sem s = 1 \<or> owner s \<in> {CondWait, GotLoop l, Quitting l, Joining} \<and> lt_sem s = 0)"

definition loop_thread_ok :: "'l \<Rightarrow> int \<Rightarrow> 'l loop_thread \<Rightarrow> bool" where
  "loop_thread_ok l gettid s \<longleftrightarrow>
     (case runner s of
        NoThread \<Rightarrow> owner s = NotStarted \<and> lt_loop s = None \<and> lt_sem s = 0 \<and> init_calls s = []
      | SetTid \<Rightarrow> owner s = SemWait \<and> lt_loop s = None \<and> lt_sem s = 0 \<and> init_calls s = []
      | SemPost \<Rightarrow> owner s = SemWait \<and> lt_loop s = None \<and> lt_sem s = 0 \<and> init_calls s = []
      | MakeLoop \<Rightarrow> before_loop s \<and> init_calls s = []
      | CallInit \<Rightarrow> before_loop s \<and> init_calls s = []
      | Publish \<Rightarrow> before_loop s \<and> init_done l s
      | EnterLoop \<Rightarrow> published l s \<and> init_done l s \<and> (quit_requested s \<longleftrightarrow> owner s = Joining) \<and> (quit_early s \<longleftrightarrow> owner s = Joining)
      | InLoop \<Rightarrow> published l s \<and> init_done l s \<and> (quit_requested s \<or> quit_early s \<longleftrightarrow> owner s = Joining) \<and> \<not> (quit_requested s \<and> quit_early s)
      | Ended \<Rightarrow> owner s \<in> {Joining, Finished} \<and> lt_loop s = None \<and> lt_sem s = 0 \<and> init_done l s) \<and>
     (runner s \<notin> {NoThread, SetTid} \<longrightarrow> th_tid (lt_thread s) = gettid) \<and>
     (runner s \<notin> {EnterLoop, InLoop, Ended} \<longrightarrow> \<not> quit_requested s) \<and> (quit_early s \<longrightarrow> runner s \<in> {EnterLoop, InLoop}) \<and>
     (th_started (lt_thread s) \<longleftrightarrow> runner s \<noteq> NoThread) \<and> (th_joined (lt_thread s) \<longleftrightarrow> owner s = Finished)"

lemma loop_thread_step_ok:
  assumes "loop_thread_step l gettid s t" and "loop_thread_ok l gettid s"
  shows "loop_thread_ok l gettid t"
  using assms by (cases rule: loop_thread_step.cases)
    (auto simp: loop_thread_ok_def before_loop_def published_def init_done_def CurrentThread_tid_def cacheTid_def Thread_join_def split: thread_pc.splits if_splits)

lemma loop_thread_reach_ok:
  assumes "reach (\<lambda>s. s = EventLoopThread cb nm created) (loop_thread_step l gettid) s"
  shows "loop_thread_ok l gettid s \<and> lt_callback s = cb"
  using assms
proof (rule reach_invariant)
  show "loop_thread_ok l gettid s \<and> lt_callback s = cb" if "s = EventLoopThread cb nm created" for s
    using that by (simp add: EventLoopThread_def loop_thread_ok_def Thread_def Let_def)
  show "loop_thread_ok l gettid t \<and> lt_callback t = cb" if "loop_thread_ok l gettid s \<and> lt_callback s = cb" "loop_thread_step l gettid s t" for s t
    using loop_thread_step_ok [OF that(2)] that by (auto elim: loop_thread_step.cases)
qed

text \<open>How many steps are left: each step is one of the owner's or one of the new thread's.\<close>

fun owner_left :: "'l owner_pc \<Rightarrow> nat" where
  "owner_left NotStarted = 15"
| "owner_left SemWait = 5"
| "owner_left CondWait = 4"
| "owner_left (GotLoop k) = 3"
| "owner_left (Quitting k) = 2"
| "owner_left Joining = 1"
| "owner_left Finished = 0"

fun thread_left :: "thread_pc \<Rightarrow> nat" where
  "thread_left NoThread = 0"
| "thread_left SetTid = 8"
| "thread_left SemPost = 7"
| "thread_left MakeLoop = 6"
| "thread_left CallInit = 5"
| "thread_left Publish = 4"
| "thread_left EnterLoop = 2"
| "thread_left InLoop = 1"
| "thread_left Ended = 0"

definition steps_left :: "'l loop_thread \<Rightarrow> nat" where
  "steps_left s = owner_left (owner s) + thread_left (runner s)"

lemma loop_thread_step_left:
  assumes "loop_thread_step l gettid s t" and "loop_thread_ok l gettid s"
  shows "steps_left t < steps_left s"
  using assms by (cases rule: loop_thread_step.cases) (auto simp: steps_left_def loop_thread_ok_def split: option.splits thread_pc.splits)

lemma loop_thread_progress:
  assumes ok: "loop_thread_ok l gettid s" and "owner s \<noteq> Finished" and "\<not> (quit_early s \<and> runner s = InLoop)"
  shows "\<exists>t. loop_thread_step l gettid s t"
proof (cases "runner s")
  case NoThread
  then have "owner s = NotStarted" using ok by (simp add: loop_thread_ok_def)
  then show ?thesis by (blast intro: loop_thread_step.spawn)
next
  case InLoop
  then consider "owner s = SemWait" "0 < lt_sem s" | "owner s = CondWait" "lt_loop s = Some l" | "owner s = GotLoop l" | "owner s = Quitting l" |
    "quit_requested s"
    using ok assms(3) by (auto simp: loop_thread_ok_def published_def)
  then show ?thesis
    by cases (use InLoop in \<open>blast intro: loop_thread_step.intros\<close>)+
next
  case Ended
  then have "owner s = Joining" "Thread_join (lt_thread s) = Inr ((lt_thread s)\<lparr>th_joined := True\<rparr>)"
    using ok assms(2) by (auto simp: loop_thread_ok_def Thread_join_def)
  then show ?thesis using Ended by (blast intro: loop_thread_step.dtor_join)
qed (blast intro: loop_thread_step.intros)+

text \<open>A destructor that called \<open>quit()\<close> too early waits in \<open>join\<close> for a loop that nobody asks to end any more.\<close>

lemma early_quit_stuck:
  assumes ok: "loop_thread_ok l gettid s" and early: "quit_early s" and run: "runner s = InLoop"
  shows "owner s = Joining \<and> \<not> loop_thread_step l gettid s t"
proof -
  have o: "owner s = Joining" "\<not> quit_requested s" using ok early run by (auto simp: loop_thread_ok_def)
  then show ?thesis using run by (auto elim: loop_thread_step.cases)
qed

text \<open>This happens in the interleaving in which the owner runs from \<open>publish\<close> through its destructor before the new thread goes on.\<close>

lemma early_quit_happens:
  "\<exists>s. reach (\<lambda>s. s = EventLoopThread cb nm created) (loop_thread_step l gettid) s \<and> quit_early s \<and> runner s = InLoop"
proof -
  let ?R = "reach (\<lambda>s. s = EventLoopThread cb nm created) (loop_thread_step l gettid)"
  let ?P = "\<lambda>ow ru sem lo early. \<exists>s. ?R s \<and> owner s = ow \<and> runner s = ru \<and> lt_sem s = sem \<and> lt_loop s = lo \<and> quit_early s = early"
  note st = reach_step [where step = "loop_thread_step l gettid"]
  have "?P NotStarted NoThread 0 None False" by (rule exI [where x = "EventLoopThread cb nm created"]) (auto simp: EventLoopThread_def intro: reach_init)
  then have "?P SemWait SetTid 0 None False" by (elim exE conjE) (rule exI, rule conjI, erule st, rule loop_thread_step.spawn, simp_all)
  then have "?P SemWait SemPost 0 None False" by (elim exE conjE) (rule exI, rule conjI, erule st, rule loop_thread_step.set_tid, simp_all)
  then have "?P SemWait MakeLoop 1 None False" by (elim exE conjE) (rule exI, rule conjI, erule st, rule loop_thread_step.sem_post, simp_all)
  then have "?P CondWait MakeLoop 0 None False" by (elim exE conjE) (rule exI, rule conjI, erule st, rule loop_thread_step.sem_wait, simp_all)
  then have "?P CondWait CallInit 0 None False" by (elim exE conjE) (rule exI, rule conjI, erule st, rule loop_thread_step.make_loop, simp_all)
  then have "?P CondWait Publish 0 None False" by (elim exE conjE) (rule exI, rule conjI, erule st, rule loop_thread_step.call_init, simp_all)
  then have "?P CondWait EnterLoop 0 (Some l) False" by (elim exE conjE) (rule exI, rule conjI, erule st, rule loop_thread_step.publish, simp_all)
  then have "?P (GotLoop l) EnterLoop 0 (Some l) False" by (elim exE conjE) (rule exI, rule conjI, erule st, rule loop_thread_step.cond_wait, simp_all)
  then have "?P (Quitting l) EnterLoop 0 (Some l) False" by (elim exE conjE) (rule exI, rule conjI, erule st, rule loop_thread_step.dtor_check, simp_all)
  then have "?P Joining EnterLoop 0 (Some l) True" by (elim exE conjE) (rule exI, rule conjI, erule st, rule loop_thread_step.dtor_quit, simp_all)
  then have "?P Joining InLoop 0 (Some l) True" by (elim exE conjE) (rule exI, rule conjI, erule st, rule loop_thread_step.enter, simp_all)
  then show ?thesis by blast
qed

text \<open>
  C33: The life of a loop thread, in every interleaving of its owner and itself. Once \<^verbatim>\<open>Thread::start\<close> has returned, the identifier of the
  new thread is set; \<open>startLoop\<close> returns the loop of that thread, after the callback has been called with it, exactly once; the destructor asks
  only a living loop to quit, and ends when the thread has been joined. At most 15 steps lead there, and the two threads are never stuck before,
  with one exception: when the destructor calls \<open>quit()\<close> after the loop was published and before \<open>loop()\<close> executed \<open>quit_ = false\<close>, the request
  is lost, the destructor never ends, and once the loop has entered its rounds the owner is in \<open>join\<close> for ever (\<open>early_quit_happens\<close>).
\<close>

theorem loop_thread_handshake:
  assumes "reach (\<lambda>s. s = EventLoopThread cb nm created) (loop_thread_step l gettid) s"
  shows "(owner s \<notin> {NotStarted, SemWait} \<longrightarrow> th_tid (lt_thread s) = gettid) \<and>
    (\<forall>k. owner s = GotLoop k \<longrightarrow> k = l \<and> init_calls s = (if cb then [l] else [])) \<and>
    (\<forall>k. owner s = Quitting k \<longrightarrow> k = l \<and> runner s \<in> {EnterLoop, InLoop}) \<and>
    (owner s = Finished \<longrightarrow> runner s = Ended \<and> th_joined (lt_thread s) \<and> \<not> quit_early s) \<and>
    (owner s \<noteq> Finished \<and> \<not> (quit_early s \<and> runner s = InLoop) \<longrightarrow> (\<exists>t. loop_thread_step l gettid s t)) \<and>
    (quit_early s \<longrightarrow> owner s = Joining \<and> runner s \<in> {EnterLoop, InLoop}) \<and>
    (quit_early s \<and> runner s = InLoop \<longrightarrow> (\<nexists>t. loop_thread_step l gettid s t)) \<and>
    steps_left s \<le> 15 \<and> (\<forall>t. loop_thread_step l gettid s t \<longrightarrow> steps_left t < steps_left s)"
proof -
  have ok: "loop_thread_ok l gettid s" "lt_callback s = cb" using loop_thread_reach_ok [OF assms] by simp_all
  have "steps_left s \<le> 15"
    using ok(1) by (auto simp: steps_left_def loop_thread_ok_def before_loop_def published_def split: thread_pc.splits)
  moreover have "steps_left t < steps_left s" if "loop_thread_step l gettid s t" for t using loop_thread_step_left [OF that ok(1)] .
  moreover have "owner s \<noteq> Finished \<and> \<not> (quit_early s \<and> runner s = InLoop) \<Longrightarrow> \<exists>t. loop_thread_step l gettid s t"
    using loop_thread_progress [OF ok(1)] by blast
  moreover have "quit_early s \<and> runner s = InLoop \<Longrightarrow> \<nexists>t. loop_thread_step l gettid s t" using early_quit_stuck [OF ok(1)] by blast
  moreover have "quit_early s \<Longrightarrow> owner s = Joining \<and> runner s \<in> {EnterLoop, InLoop}" using ok(1) by (auto simp: loop_thread_ok_def)
  moreover have "(owner s \<notin> {NotStarted, SemWait} \<longrightarrow> th_tid (lt_thread s) = gettid) \<and>
    (\<forall>k. owner s = GotLoop k \<longrightarrow> k = l \<and> init_calls s = (if cb then [l] else [])) \<and>
    (\<forall>k. owner s = Quitting k \<longrightarrow> k = l \<and> runner s \<in> {EnterLoop, InLoop}) \<and>
    (owner s = Finished \<longrightarrow> runner s = Ended \<and> th_joined (lt_thread s) \<and> \<not> quit_early s)"
    using ok by (auto simp: loop_thread_ok_def before_loop_def published_def init_done_def split: thread_pc.splits)
  ultimately show ?thesis by blast
qed

theorem loop_thread_handshake_witness:
  "\<exists>s t. reach (\<lambda>s. s = EventLoopThread True ''io'' 0) (loop_thread_step (7::nat) 4711) s \<and> owner s = SemWait \<and> loop_thread_step 7 4711 s t \<and>
     steps_left t < steps_left s \<and> steps_left s \<le> 15"
proof -
  let ?R = "reach (\<lambda>s. s = EventLoopThread True ''io'' 0) (loop_thread_step (7::nat) 4711)"
  define s0 :: "nat loop_thread" where "s0 = EventLoopThread True ''io'' 0"
  have r0: "?R s0" "owner s0 = NotStarted" by (auto intro: reach_init simp: s0_def EventLoopThread_def)
  define s1 where "s1 = s0\<lparr>lt_thread := (lt_thread s0)\<lparr>th_started := True\<rparr>, owner := SemWait, runner := SetTid\<rparr>"
  have r1: "?R s1" using reach_step [OF r0(1)] loop_thread_step.spawn [OF r0(2)] unfolding s1_def by blast
  have o: "owner s1 = SemWait" "owner s1 \<noteq> Finished \<and> \<not> (quit_early s1 \<and> runner s1 = InLoop)" by (simp_all add: s1_def)
  then obtain t where "loop_thread_step 7 4711 s1 t" using loop_thread_handshake [OF r1] by blast
  then show ?thesis using loop_thread_handshake [OF r1] r1 o(1) by blast
qed

end
