(* ===== verification/Spec2Isabelle.thy ===== *)
theory Spec2Isabelle
  imports MainProgram EchoService CrossThread FatalLog Threads
begin

text \<open>
  Verification of Ronald-webserver, a C++ reactor library for TCP servers with asynchronous logging, an LFU cache and a memory pool. File names
  below are relative to \<^verbatim>\<open>src/\<close>.

  \<^bold>\<open>The program.\<close> A main event loop listens; \<open>Acceptor\<close> hands each new connection to \<open>TcpServer\<close>, which picks a loop of a thread pool by consistent
  hashing and creates a \<open>TcpConnection\<close> there. Every \<open>EventLoop\<close> owns a \<open>Poller\<close> over \<^verbatim>\<open>epoll\<close>, dispatches events to \<open>Channel\<close> callbacks, and runs the functors
  that other threads queue, woken through an \<^verbatim>\<open>eventfd\<close>. A connection reads into and writes out of a \<open>Buffer\<close>. Log statements format a line into a fixed
  buffer and hand it to \<open>AsyncLogging\<close>, whose thread writes full buffers to rolling files. The cache and the memory pool stand beside the server.

  \<^bold>\<open>Theories and code.\<close>
  \<^item> \<open>Prelude\<close>: the errors an operation can end in (exceptions, null and dangling pointers, overflow, \<^verbatim>\<open>abort\<close>, the signal of a broken pipe), results as sums, \<open>size_t\<close> arithmetic,
    decimal texts, reachability of step relations.
  \<^item> \<open>NetBuffer\<close>: \<^verbatim>\<open>include/Buffer.h\<close>, \<^verbatim>\<open>src/Buffer.cc\<close>. The vector and its two indices; \<open>content\<close> is the readable part. Each operation is shown to be
    that of a queue of bytes (the locale \<open>byte_fifo\<close> and its interpretation).
  \<^item> \<open>LogStream\<close>, \<open>Logger\<close>, \<open>LogFile\<close>, \<open>AsyncLog\<close>, \<open>LogPipeline\<close>: \<^verbatim>\<open>FixedBuffer\<close>, \<^verbatim>\<open>LogStream\<close>, \<^verbatim>\<open>Logger\<close>, \<^verbatim>\<open>FileUtil\<close>, \<^verbatim>\<open>LogFile\<close>, \<^verbatim>\<open>AsyncLogging\<close> and the output
    function of \<^verbatim>\<open>src/main.cc\<close>. The locale \<open>log_sink\<close> is the
    contract of a bounded line buffer, which the stream and the large buffers of the back end both meet. Formatting and parsing of numbers, whole or dropped pieces, complete lines, the write loop and the rolling of files, the double
    buffering as a step relation of front-end threads and back end, and the whole path from a statement to the file.
    \<open>FatalLog\<close>: the replaceable output and flush functions, and how a fatal statement ends the process in the middle of the others.
  \<^item> \<open>LoopPool\<close>: \<^verbatim>\<open>include/ConsistenHash.h\<close> and \<^verbatim>\<open>src/EventLoopThreadPool.cc\<close>: the ring against its reference, the clockwise successor.
  \<^item> \<open>Timers\<close>: \<^verbatim>\<open>Timestamp\<close>, \<^verbatim>\<open>Timer\<close>, \<^verbatim>\<open>TimerQueue\<close>, with timers as objects in a store and the set of entries as an ordered list.
  \<^item> \<open>EpollPoller\<close>: \<^verbatim>\<open>Channel\<close>, \<^verbatim>\<open>Poller\<close>, \<^verbatim>\<open>EPollPoller\<close>. The calls of \<^verbatim>\<open>epoll_ctl\<close> are recorded, and replayed they give the kernel's interest
    list; \<open>reactor_ok\<close> relates it to the channels. The locale \<open>demultiplexer\<close> is the contract the users of a poller rely on.
  \<^item> \<open>EventLoops\<close>: \<^verbatim>\<open>src/EventLoop.cc\<close>, and the parts of \<^verbatim>\<open>TimerQueue\<close> that use a channel. The loop thread is a step machine that interleaves with threads
    that queue functors or ask it to quit, and with what its own thread queues before it enters the loop; one action of a functor is one step.
  \<^item> \<open>Sockets\<close>: \<^verbatim>\<open>InetAddress\<close>, \<^verbatim>\<open>Socket\<close>, \<^verbatim>\<open>Acceptor\<close>. \<open>Threads\<close>: \<^verbatim>\<open>CurrentThread\<close>, \<^verbatim>\<open>Thread\<close>, \<^verbatim>\<open>EventLoopThread\<close>.
    \<open>Threads\<close> includes the assignment with which \<^verbatim>\<open>loop()\<close> forgets an earlier \<^verbatim>\<open>quit()\<close>.
  \<^item> \<open>TcpConnections\<close>: \<^verbatim>\<open>src/TcpConnection.cc\<close> in its loop thread. A write to a broken pipe ends in \<open>Sigpipe\<close>, since nothing ignores the signal. \<open>stream\<close>, the bytes the socket has taken followed by the output buffer, is what the
    proofs follow. \<open>CrossThread\<close>: the same calls from other threads, with the strings their functors point into.
  \<^item> \<open>TcpServers\<close>: \<^verbatim>\<open>src/TcpServer.cc\<close> and the echo server of \<^verbatim>\<open>src/main.cc\<close>, with the functors that travel between loops; \<open>ServerSystem\<close>: the same server with its
    acceptor, its connection objects and the reactors of all loops, which refines it. \<open>ReactorRounds\<close>: \<^verbatim>\<open>EventLoop::loop\<close> of all loops over that server, from the
    events the kernel returns through \<^verbatim>\<open>Channel::handleEvent\<close> to the member functions of connections and acceptor, and the functors that follow.
    Whatever mask the kernel returns is dispatched; the variable \<open>closed_twice\<close> records whether one of them (\<open>EPOLLHUP\<close> and \<open>EPOLLPRI\<close> without \<open>EPOLLIN\<close>) has made a
    connection close twice, and the properties of the rounds hold as long as that has not happened. \<open>mask_closes_once\<close>: no other mask can do it.
    \<open>EchoService\<close>: those rounds together with a history of the bytes each connection has received, and the service that its clients see: what was sent to a
    client and what waits for it are the bytes it sent, in order, and bytes that wait can always be handed over. The history only watches: every round in which the
    handled masks do not both close and read a connection (\<open>mask_ok\<close>) can be continued with it (\<open>round_step_echo\<close>).
  \<^item> \<open>FreqLists\<close>, \<open>LfuCache\<close>, \<open>CachePolicies\<close>: \<^verbatim>\<open>include/LFU.h\<close>. Linked lists on a heap of nodes refine queues with removal, the cache is built on them, and the locale \<open>cache_policy\<close> gives both the plain and the sharded cache their never-stale property.
  \<^item> \<open>MemoryPools\<close>: \<^verbatim>\<open>include/memoryPool.h\<close>, \<^verbatim>\<open>memory/memoryPool.cc\<close>. Addresses are numbers and memory a function; critical sections are separate steps.
  \<^item> \<open>MainProgram\<close>: \<^verbatim>\<open>main\<close> up to its event loop, from the results of the system calls to the states in which the theorems on logging, pools, cache and rounds
    start; what becomes of the threads of the pool.

  \<^bold>\<open>What the lemmas show.\<close> In each theory an invariant (\<open>buffer_ok\<close>, \<open>fixed_ok\<close>, \<open>async_inv\<close>, \<open>reactor_ok\<close>, \<open>loop_inv\<close>, \<open>conn_ok\<close>, \<open>map_ok\<close> and \<open>waiting_ok\<close>, \<open>sys_ok\<close>, \<open>rounds_ok\<close>, \<open>echo_ok\<close>, \<open>process_ok\<close>,
  \<open>lfu_ok\<close>, \<open>pool_ok\<close>) is kept by every operation or step; the functional lemmas give each operation's result on every branch; the numbered theorems are the
  properties that rest on them. The numbering follows their importance over all theories.

  \<^bold>\<open>Parameters.\<close> System calls, the C library's formatting of dates and floating-point numbers, the hash functions, the iteration order of hash maps and the
  memory that allocators return are arguments. Where code relies on their documented behaviour it is a named hypothesis: \<open>epoll_accepts\<close> (no call of
  \<^verbatim>\<open>epoll_ctl\<close> that the kernel must accept is refused), \<open>write_contract\<close> and \<open>readv_contract\<close> (no more bytes than offered), \<open>fwrite_contract\<close> and \<open>fwrite_all\<close>,
  \<open>wait_contract\<close> (what \<^verbatim>\<open>epoll_wait\<close> returns), \<open>event_fits\<close> (the results of the calls made while a channel is handled), \<open>machine_ok\<close>
  (the calls made at the start succeed), \<open>fresh_block\<close>, \<open>fresh_for\<close> (a descriptor or an address that nobody has), \<open>tm_ok\<close>.

  \<^bold>\<open>Integers and loops.\<close> \<open>size_t\<close> values are naturals with \<open>addsz\<close> and \<open>subsz\<close> wrapping at \<open>2 ^ 64\<close>; event masks are 32-bit and ports 16-bit words; C++ signed
  counters are integers whose overflow is the error \<open>Int_overflow\<close>. Two are not bounded: times in microseconds, \<open>int64_t\<close> in the code, whose sums overflow for intervals
  of hundreds of thousands of years only, and the counter \<open>count_\<close> of a log file, an \<open>int\<close> that overflows only if two thousand million appends in a row each exceed the size
  limit or if its uninitialised first value is next to the maximum. The write loop of a file is a partial function with \<open>None\<close> for not returning, and is
  shown to return; the destructor of a memory pool takes as fuel a bound on the number of blocks, and the length of the block list is shown to be enough. All
  other loops are structural recursions.

  \<^bold>\<open>Not modelled.\<close> \<^verbatim>\<open>include/noncopyable.h\<close> and \<^verbatim>\<open>include/Callbacks.h\<close> contain no code to execute. Of \<^verbatim>\<open>main\<close> the creation of the log directory and the banners
  are left out, and so is what follows its event loop, which nothing quits. The loops and the server are constructed one after the other; the handshake of a loop's thread
  with its owner is in \<open>Threads\<close>. The threads are interleaved at the granularity of their critical sections and atomic accesses, those of a memory pool as if its two
  mutexes were one (what can happen between them is among the findings); weak
  memory effects of the few unsynchronised accesses are not modelled, those accesses are among the reported findings. In \<open>ServerSystem\<close> and \<open>ReactorRounds\<close> the write-complete functors
  stay in a queue of their connection and are not run: the echo server sets no such callback. Log statements inside the network code
  are left out of its operations, apart from the fatal ones, which end the process (what then becomes of the log is in \<open>FatalLog\<close>).
\<close>

end
